(* ===== verification/Grimm_Prelude.thy ===== *)
theory Grimm_Prelude
  imports Main "HOL-Library.Word"
begin

section \<open>Shared vocabulary of the development\<close>

text \<open>
  The fixed-width integers of the C++ sources, the big-endian value of a byte array, and the
  generic facts about lists, bytes and powers of two that more than one component uses.
  The collection \<open>be_simps\<close> holds the rewriting rules for byte-array values.
\<close>

type_synonym u8 = "8 word"
type_synonym u16 = "16 word"
type_synonym u32 = "32 word"
type_synonym u64 = "64 word"
type_synonym bytes = "u8 list"

named_theorems be_simps \<open>evaluation of the big-endian value of a byte array\<close>

unbundle bit_operations_syntax

subsection \<open>Big-endian value of a byte array\<close>

text \<open>
  \<open>uintBig_t::m_pData\<close> is documented as being in big-endian representation: this is the number
  it stands for.  Every arithmetic routine of \<^verbatim>\<open>uintBig.cpp\<close> is specified through it.
\<close>

primrec be_val :: "bytes \<Rightarrow> nat" where
  "be_val [] = 0"
| "be_val (b # bs) = unat b * 256 ^ length bs + be_val bs"

lemma be_val_append [be_simps]:
  "be_val (xs @ ys) = be_val xs * 256 ^ length ys + be_val ys"
  by (induction xs) (simp_all add: algebra_simps power_add)

lemma be_val_snoc: "be_val (xs @ [b]) = be_val xs * 256 + unat b"
  by (simp add: be_simps)

lemma unat_u8_less: "unat (b :: u8) < 256"
  using unsigned_less [of b, where 'a = nat] by simp

lemma unat_drop_bit_div: "unat (drop_bit n (w :: 'a::len word)) = unat w div 2 ^ n"
  by (simp add: unat_drop_bit_eq) (simp add: drop_bit_eq_div)

lemma unat_or_disjoint: "a AND b = 0 \<Longrightarrow> unat (a OR b) = unat a + unat (b :: 'a::len word)"
proof -
  assume "a AND b = 0"
  then have "unat a AND unat b = 0" by (simp flip: unsigned_and_eq)
  then show ?thesis by (simp add: unsigned_or_eq disjunctive_add_eq_or)
qed

lemma unat_push_bit: "unat (push_bit n (w :: 'a::len word)) = unat w * 2 ^ n mod 2 ^ LENGTH('a)"
  by (simp add: unsigned_push_bit_eq) (simp add: take_bit_eq_mod push_bit_eq_mult)

lemma be_val_less: "be_val xs < 256 ^ length xs"
proof (induction xs)
  case (Cons b xs)
  have "unat b * 256 ^ length xs \<le> 255 * 256 ^ length xs"
    using unat_u8_less [of b] by (intro mult_le_mono1) simp
  with Cons show ?case unfolding be_val.simps length_Cons power_Suc by linarith
qed simp

lemma be_val_replicate_0 [be_simps]: "be_val (replicate n 0) = 0"
  by (induction n) simp_all

lemma be_val_take_Suc:
  "i < length xs \<Longrightarrow> be_val (take (Suc i) xs) = be_val (take i xs) * 256 + unat (xs ! i)"
  by (simp add: take_Suc_conv_app_nth be_val_snoc)

lemma be_val_split:
  "be_val xs = be_val (take k xs) * 256 ^ (length xs - k) + be_val (drop k xs)"
  by (metis append_take_drop_id be_val_append length_drop)

lemma be_val_drop: "be_val (drop k xs) = be_val xs mod 256 ^ (length xs - k)"
proof -
  have "be_val (drop k xs) < 256 ^ (length xs - k)"
    using be_val_less [of "drop k xs"] by simp
  then show ?thesis by (subst be_val_split [of xs k]) simp
qed

lemma be_val_take: "be_val (take k xs) = be_val xs div 256 ^ (length xs - k)"
proof -
  have "be_val (drop k xs) < 256 ^ (length xs - k)"
    using be_val_less [of "drop k xs"] by simp
  then have "(be_val (take k xs) * 256 ^ (length xs - k) + be_val (drop k xs))
      div 256 ^ (length xs - k) = be_val (take k xs)"
    by simp
  then show ?thesis by (simp only: be_val_split [of xs k, symmetric])
qed

lemma be_val_zero_iff: "be_val xs = 0 \<longleftrightarrow> (\<forall>b \<in> set xs. b = 0)"
  by (induction xs) (auto simp: unat_eq_zero)

lemma be_val_inject:
  "length xs = length ys \<Longrightarrow> be_val xs = be_val ys \<longleftrightarrow> xs = ys"
proof (induction xs ys rule: list_induct2)
  case (Cons x xs y ys)
  show ?case
  proof
    assume eq: "be_val (x # xs) = be_val (y # ys)"
    have "unat x = be_val (x # xs) div 256 ^ length xs"
      using be_val_less [of xs] by simp
    also have "\<dots> = unat y"
      using eq be_val_less [of ys] Cons.hyps by simp
    finally have "x = y" by (simp add: word_unat_eq_iff)
    with eq Cons show "x # xs = y # ys" by simp
  qed simp
qed simp

subsection \<open>Lists\<close>

lemma take_update_ge: "n \<le> i \<Longrightarrow> take n (xs[i := v]) = take n xs"
  by simp

lemma drop_update_less: "i < n \<Longrightarrow> drop n (xs[i := v]) = drop n xs"
  by simp

subsection \<open>Positional arithmetic\<close>

lemma mod_digit: "r < (B::nat) \<Longrightarrow> (x * B + r) mod (B * M) = x mod M * B + r"
  by (simp add: mod_mult2_eq)

lemma mult_pow_add_less: "a < (B::nat) ^ m \<Longrightarrow> r < B ^ n \<Longrightarrow> a * B ^ n + r < B ^ (m + n)"
proof -
  assume a: "a < B ^ m" and r: "r < B ^ n"
  have "a * B ^ n + r < Suc a * B ^ n" using r by simp
  also have "\<dots> \<le> B ^ m * B ^ n" using a by (intro mult_le_mono1) simp
  finally show ?thesis by (simp add: power_add)
qed

end
