(* ===== verification/UintBig.thy ===== *)
theory UintBig
  imports Grimm_Prelude
begin

section \<open>Big-endian multi-byte integers (core/uintBig.h, core/uintBig.cpp)\<close>

text \<open>
  A pointer and a length \<open>(pDst, nDst)\<close> of the source is a byte list; the routines that
  write through \<open>pDst\<close> return the new list.  The loops run over the same indices as in the
  source, from the least significant byte (the last one) to the front.  \<open>nat\<close> indices stand
  for \<open>uint32_t\<close> ones; where the source relies on 32-bit wrap-around (\<open>_Mul\<close>) the index is
  a \<open>32 word\<close>.  The bit counts \<open>nDst << 3\<close> of \<open>_GetOrder\<close> and \<open>_Div\<close> would wrap for arrays of
  \<open>2 ^ 29\<close> bytes and more; the instances of the source have at most 64.  Source and destination are distinct arrays.
\<close>

unbundle bit_operations_syntax

subsection \<open>Memory primitives\<close>

definition memis0 :: "bytes \<Rightarrow> bool" where
  "memis0 p \<longleftrightarrow> list_all (\<lambda>b. b = 0) p"

definition memset0 :: "nat \<Rightarrow> bytes" where
  "memset0 n = replicate n 0"

text \<open>The C library fixes only the sign of \<open>memcmp\<close>; the model returns -1, 0 or 1.\<close>

fun memcmp :: "bytes \<Rightarrow> bytes \<Rightarrow> int" where
  "memcmp (a # as) (b # bs) = (if a < b then -1 else if b < a then 1 else memcmp as bs)"
| "memcmp _ _ = 0"

subsection \<open>Assignment, increment, addition\<close>

definition Assign :: "nat \<Rightarrow> bytes \<Rightarrow> bytes" where
  "Assign nDst pSrc =
     (let nSrc = length pSrc in
      if nSrc \<ge> nDst then drop (nSrc - nDst) pSrc
      else memset0 (nDst - nSrc) @ pSrc)"

fun Inc_loop :: "nat \<Rightarrow> bytes \<Rightarrow> bytes \<times> u8" where
  "Inc_loop 0 p = (p, 1)"
| "Inc_loop (Suc i) p =
     (let p' = p[i := p ! i + 1] in if p' ! i \<noteq> 0 then (p', 0) else Inc_loop i p')"

definition Inc :: "bytes \<Rightarrow> bytes \<times> u8" where
  "Inc p = Inc_loop (length p) p"

fun IncBy_loop :: "nat \<Rightarrow> u16 \<Rightarrow> bytes \<Rightarrow> bytes \<Rightarrow> bytes \<times> u8" where
  "IncBy_loop 0 carry p s = (p, ucast carry)"
| "IncBy_loop (Suc i) carry p s =
     (let c = carry + ucast (p ! i) + ucast (s ! i)
      in IncBy_loop i (drop_bit 8 c) (p[i := ucast c]) s)"

definition IncBy :: "bytes \<Rightarrow> bytes \<Rightarrow> bytes \<times> u8" where
  "IncBy p s = IncBy_loop (length p) 0 p s"

definition IncAny :: "bytes \<Rightarrow> bytes \<Rightarrow> bytes \<times> u8" where
  "IncAny p s =
     (let nDst = length p; nSrc = length s in
      if nDst \<le> nSrc then IncBy p (drop (nSrc - nDst) s)
      else
        let (lo, c) = IncBy (drop (nDst - nSrc) p) s in
        if c = 0 then (take (nDst - nSrc) p @ lo, 0)
        else let (hi, c') = Inc (take (nDst - nSrc) p) in (hi @ lo, c'))"

subsection \<open>Complement, exclusive or, negation\<close>

definition Inv :: "bytes \<Rightarrow> bytes" where
  "Inv p = map (\<lambda>b. b XOR 0xff) p"

definition XorSame :: "bytes \<Rightarrow> bytes \<Rightarrow> bytes" where
  "XorSame p s = map2 (\<lambda>a b. a XOR b) p s"

definition Xor :: "bytes \<Rightarrow> bytes \<Rightarrow> bytes" where
  "Xor p s =
     (let nDst = length p; nSrc = length s in
      if nDst \<le> nSrc then XorSame p (drop (nSrc - nDst) s)
      else take (nDst - nSrc) p @ XorSame (drop (nDst - nSrc) p) s)"

definition Negate :: "bytes \<Rightarrow> bytes" where
  "Negate p = fst (Inc (Inv p))"

subsection \<open>Comparison and bit order\<close>

definition Cmp :: "bytes \<Rightarrow> bytes \<Rightarrow> int" where
  "Cmp p0 p1 =
     (let n0 = length p0; n1 = length p1 in
      if n0 > n1 then
        (if \<not> memis0 (take (n0 - n1) p0) then 1 else memcmp (drop (n0 - n1) p0) p1)
      else if n0 < n1 then
        (if \<not> memis0 (take (n1 - n0) p1) then -1 else memcmp p0 (drop (n1 - n0) p1))
      else memcmp p0 p1)"

text \<open>The loop \<open>while (x >>= 1) nOrder++\<close> over one byte.\<close>

function order_loop :: "u8 \<Rightarrow> nat \<Rightarrow> nat" where
  "order_loop x n =
     (let x' = drop_bit 1 x in if x' = 0 then n else order_loop x' (Suc n))"
  by pat_completeness auto
termination
proof (relation "measure (\<lambda>(x, n). unat x)")
  fix x :: u8 and n :: nat and x' :: u8
  assume x': "x' = drop_bit 1 x" and "x' \<noteq> 0"
  then have "0 < unat x'" by (simp add: unat_gt_0)
  moreover have "unat x' = unat x div 2" unfolding x' by (simp only: unat_drop_bit_div power_one_right)
  ultimately show "((x', Suc n), (x, n)) \<in> measure (\<lambda>(x, n). unat x)" by simp
qed simp

declare order_loop.simps [simp del]

fun GetOrder :: "bytes \<Rightarrow> nat" where
  "GetOrder [] = 0"
| "GetOrder (x # xs) =
     (if x = 0 then GetOrder xs else order_loop x (8 * Suc (length xs) - 7))"

subsection \<open>Values of the routines\<close>

lemma memis0_iff: "memis0 p \<longleftrightarrow> be_val p = 0"
  by (simp add: memis0_def be_val_zero_iff list_all_iff)

lemma be_val_memset0 [be_simps]: "be_val (memset0 n) = 0"
  by (simp add: memset0_def be_simps)

lemma length_memset0 [simp]: "length (memset0 n) = n"
  by (simp add: memset0_def)

lemma be_val_Cons_mono:
  assumes "u < v" and "length us = length vs"
  shows "be_val (u # us) < be_val (v # vs)"
proof -
  have "be_val (u # us) < Suc (unat u) * 256 ^ length us"
    using be_val_less [of us] by simp
  also have "\<dots> \<le> unat v * 256 ^ length us"
    using assms(1) by (intro mult_le_mono1) (simp add: word_less_nat_alt)
  also have "\<dots> \<le> be_val (v # vs)" using assms(2) by simp
  finally show ?thesis .
qed

lemma memcmp_sgn:
  "length a = length b \<Longrightarrow> memcmp a b = sgn (int (be_val a) - int (be_val b))"
proof (induction a b rule: list_induct2)
  case (Cons x xs y ys)
  consider "x < y" | "y < x" | "x = y" by fastforce
  then show ?case
  proof cases
    case 1
    with be_val_Cons_mono [OF 1 Cons.hyps] show ?thesis by (simp del: be_val.simps)
  next
    case 2
    with be_val_Cons_mono [OF 2 Cons.hyps [symmetric]] show ?thesis
      by (auto simp del: be_val.simps)
  next
    case 3
    with Cons show ?thesis by simp
  qed
qed simp

lemma be_val_skip0: "memis0 (take k p) \<Longrightarrow> be_val (drop k p) = be_val p"
  using be_val_split [of p k] by (simp add: memis0_iff)

lemma be_val_longer:
  assumes "\<not> memis0 (take (length p - length q) p)" and "length q < length p"
  shows "be_val q < be_val p"
proof -
  have "be_val q < 256 ^ length q" by (rule be_val_less)
  also have "\<dots> \<le> be_val (take (length p - length q) p) * 256 ^ length q"
    using assms(1) by (simp add: memis0_iff)
  also have "\<dots> \<le> be_val p"
    using be_val_split [of p "length p - length q"] assms(2) by simp
  finally show ?thesis .
qed

lemma Cmp_sgn: "Cmp a b = sgn (int (be_val a) - int (be_val b))"
proof -
  consider "length a > length b" | "length a < length b" | "length a = length b" by linarith
  then show ?thesis
  proof cases
    case 1
    then show ?thesis
      using be_val_longer [of a b]
      by (auto simp: Cmp_def Let_def memcmp_sgn be_val_skip0)
  next
    case 2
    then show ?thesis
      using be_val_longer [of b a]
      by (auto simp: Cmp_def Let_def memcmp_sgn be_val_skip0)
  next
    case 3
    then show ?thesis by (simp add: Cmp_def memcmp_sgn)
  qed
qed

lemma length_Assign [simp]: "length (Assign n p) = n"
  by (simp add: Assign_def Let_def)

lemma be_val_less_pow: "length p \<le> n \<Longrightarrow> be_val p < 256 ^ n"
  by (rule less_le_trans [OF be_val_less]) (simp add: power_increasing)

lemma Assign_val: "be_val (Assign n p) = be_val p mod 256 ^ n"
  by (cases "length p \<ge> n") (simp_all add: Assign_def Let_def be_val_drop be_simps be_val_less_pow)

lemma unat_u8_inc:
  "unat ((b :: u8) + 1) = (if b + 1 = 0 then 0 else unat b + 1)"
  "b + 1 = 0 \<Longrightarrow> unat (b :: u8) = 255"
  using unat_u8_less [of b]
  by (auto simp: unat_word_ariths word_unat_eq_iff mod_Suc split: if_splits)

lemma Inc_loop_spec:
  "i \<le> length p \<Longrightarrow> Inc_loop i p = (p', c) \<Longrightarrow>
     length p' = length p \<and> drop i p' = drop i p \<and> c \<le> 1 \<and>
     be_val (take i p') + 256 ^ i * unat c = be_val (take i p) + 1"
proof (induction i arbitrary: p)
  case 0
  then show ?case by auto
next
  case (Suc i)
  let ?q = "p[i := p ! i + 1]"
  have i: "i < length p" using Suc.prems by simp
  show ?case
  proof (cases "p ! i + 1 = 0")
    case False
    with Suc.prems i have "p' = ?q" "c = 0" by (auto simp: Let_def)
    with False i show ?thesis
      by (simp add: be_val_take_Suc unat_u8_inc)
  next
    case True
    from True Suc.prems i have "Inc_loop i ?q = (p', c)" by simp
    with Suc.IH [of ?q] i have IH: "length p' = length p" "drop i p' = drop i ?q" "c \<le> 1"
        "be_val (take i p') + 256 ^ i * unat c = be_val (take i p) + 1"
      by auto
    from IH(2) i IH(1) have "p' ! i = 0 \<and> drop (Suc i) p' = drop (Suc i) p"
      using True by (simp add: Cons_nth_drop_Suc [symmetric])
    with IH i unat_u8_inc(2) [OF True] show ?thesis by (simp add: be_val_take_Suc)
  qed
qed

lemma length_Inc [simp]: "length (fst (Inc p)) = length p"
  using Inc_loop_spec [of "length p" p] by (cases "Inc p") (simp add: Inc_def)

lemma Inc_val:
  "be_val (fst (Inc p)) + 256 ^ length p * unat (snd (Inc p)) = be_val p + 1"
  using Inc_loop_spec [of "length p" p] by (cases "Inc p") (auto simp: Inc_def)

lemma unat_ucast_u16_u8: "unat (ucast (c :: u16) :: u8) = unat c mod 256"
  by (simp add: unsigned_ucast_eq take_bit_eq_mod)

lemma unat_ucast_u8_u16: "unat (ucast (b :: u8) :: u16) = unat b"
  using unat_u8_less [of b] by (simp add: unsigned_ucast_eq take_bit_eq_mod)

lemma unat_carry_sum:
  "c \<le> 1 \<Longrightarrow> unat (c + ucast (a :: u8) + ucast (b :: u8) :: u16) = unat c + unat a + unat b"
  using unat_u8_less [of a] unat_u8_less [of b]
  by (simp add: unat_word_ariths unat_ucast_u8_u16 word_le_nat_alt)

lemma IncBy_loop_spec:
  "i \<le> length p \<Longrightarrow> i \<le> length s \<Longrightarrow> carry \<le> 1 \<Longrightarrow> IncBy_loop i carry p s = (p', c) \<Longrightarrow>
     length p' = length p \<and> drop i p' = drop i p \<and> c \<le> 1 \<and>
     be_val (take i p') + 256 ^ i * unat c = be_val (take i p) + be_val (take i s) + unat carry"
proof (induction i arbitrary: p carry)
  case 0
  then show ?case
    by (auto simp: word_le_nat_alt unat_ucast_u16_u8)
next
  case (Suc i)
  let ?c = "carry + ucast (p ! i) + ucast (s ! i) :: u16"
  let ?q = "p[i := ucast ?c]"
  have i: "i < length p" "i < length s" using Suc.prems by simp_all
  have c: "unat ?c = unat carry + unat (p ! i) + unat (s ! i)"
    using Suc.prems(3) by (rule unat_carry_sum)
  have c1: "drop_bit 8 ?c \<le> 1"
    using Suc.prems(3) c unat_u8_less [of "p ! i"] unat_u8_less [of "s ! i"]
    by (simp add: word_le_nat_alt unat_drop_bit_div)
  from Suc.prems have "IncBy_loop i (drop_bit 8 ?c) ?q s = (p', c)" by (simp add: Let_def)
  with Suc.IH [of ?q "drop_bit 8 ?c"] i c1 have IH: "length p' = length p" "drop i p' = drop i ?q"
      "c \<le> 1" "be_val (take i p') + 256 ^ i * unat c
        = be_val (take i p) + be_val (take i s) + unat ?c div 256"
    by (auto simp: unat_drop_bit_div)
  from IH(1,2) i have "p' ! i = ucast ?c \<and> drop (Suc i) p' = drop (Suc i) p"
    by (simp add: Cons_nth_drop_Suc [symmetric])
  moreover have "unat ?c = 256 * (unat ?c div 256) + unat (ucast ?c :: u8)"
    by (simp add: unat_ucast_u16_u8)
  ultimately show ?case
    using IH i c by (simp add: be_val_take_Suc)
qed

lemma IncBy_spec:
  assumes "length s = length p"
  shows "length (fst (IncBy p s)) = length p \<and> snd (IncBy p s) \<le> 1 \<and>
    be_val (fst (IncBy p s)) + 256 ^ length p * unat (snd (IncBy p s)) = be_val p + be_val s"
  using IncBy_loop_spec [of "length p" p s 0] assms
  by (cases "IncBy p s") (auto simp: IncBy_def)


lemma IncAny_spec:
  "length (fst (IncAny p s)) = length p \<and>
   be_val (fst (IncAny p s)) + 256 ^ length p * unat (snd (IncAny p s))
     = be_val p + be_val s mod 256 ^ length p"
proof (cases "length p \<le> length s")
  case True
  then show ?thesis
    using IncBy_spec [of "drop (length s - length p) s" p] True
    by (simp add: IncAny_def be_val_drop)
next
  case False
  let ?k = "length p - length s"
  obtain lo c where lo: "IncBy (drop ?k p) s = (lo, c)" by fastforce
  obtain hi c' where hi: "Inc (take ?k p) = (hi, c')" by fastforce
  have L: "length lo = length s" "c \<le> 1"
    "be_val lo + 256 ^ length s * unat c = be_val (drop ?k p) + be_val s"
    using IncBy_spec [of s "drop ?k p"] lo False by simp_all
  have H: "length hi = ?k" "be_val hi + 256 ^ ?k * unat c' = be_val (take ?k p) + 1"
    using length_Inc [of "take ?k p"] Inc_val [of "take ?k p"] hi False by simp_all
  have p: "be_val p = be_val (take ?k p) * 256 ^ length s + be_val (drop ?k p)"
    using be_val_split [of p ?k] False by simp
  have s: "be_val s mod 256 ^ length p = be_val s"
    using False by (simp add: be_val_less_pow)
  have pw: "(256::nat) ^ length p = 256 ^ ?k * 256 ^ length s"
    using False by (simp flip: power_add)
  show ?thesis
  proof (cases "c = 0")
    case True
    then show ?thesis
      using False lo L p s by (simp add: IncAny_def Let_def be_simps)
  next
    case c: False
    then have c1: "unat c = 1" using L(2) by (simp add: word_le_nat_alt unat_eq_zero le_Suc_eq)
    have "be_val hi * 256 ^ length s + 256 ^ ?k * unat c' * 256 ^ length s
        = (be_val (take ?k p) + 1) * 256 ^ length s"
      by (simp only: H(2) [symmetric] distrib_right)
    then show ?thesis
      using False c lo hi L H(1) p s c1 unfolding pw
      by (simp add: IncAny_def Let_def be_simps algebra_simps)
  qed
qed

lemma IncAny_val: "be_val (fst (IncAny p s)) = (be_val p + be_val s) mod 256 ^ length p"
proof -
  have l: "be_val (fst (IncAny p s)) < 256 ^ length p"
    using be_val_less [of "fst (IncAny p s)"] IncAny_spec [of p s] by simp
  have "(be_val p + be_val s) mod 256 ^ length p
      = (be_val (fst (IncAny p s)) + 256 ^ length p * unat (snd (IncAny p s))) mod 256 ^ length p"
    by (simp add: IncAny_spec mod_add_right_eq)
  with l show ?thesis by simp
qed

lemma length_Inv [simp]: "length (Inv p) = length p"
  by (simp add: Inv_def)

lemma unat_xor_ff: "unat ((b :: u8) XOR 0xff) = 255 - unat b"
proof -
  have "(0xff :: u8) = - 1" by simp
  then have "b XOR 0xff = NOT b" by (metis bit.xor_one_right)
  also have "\<dots> = - 1 - b" by (simp add: not_eq_complement)
  finally have "unat (b XOR 0xff) = unat (- 1 - b)" by simp
  also have "\<dots> = 255 - unat b"
    by (subst unat_sub) (simp_all add: unsigned_minus_1_eq_mask mask_eq_exp_minus_1)
  finally show ?thesis .
qed

lemma Inv_val: "be_val (Inv p) + be_val p + 1 = 256 ^ length p"
proof (induction p)
  case (Cons b p)
  have "unat (b XOR 0xff) + unat b = 255"
    using unat_u8_less [of b] by (simp only: unat_xor_ff)
  then have "unat (b XOR 0xff) * 256 ^ length p + unat b * 256 ^ length p = 255 * 256 ^ length p"
    by (simp only: flip: distrib_right)
  with Cons show ?case by (simp add: Inv_def)
qed (simp add: Inv_def)

lemma length_Negate [simp]: "length (Negate p) = length p"
  by (simp add: Negate_def)

lemma Negate_val: "be_val (Negate p) = (256 ^ length p - be_val p) mod 256 ^ length p"
proof -
  have "be_val (Negate p) + 256 ^ length p * unat (snd (Inc (Inv p))) = 256 ^ length p - be_val p"
    using Inc_val [of "Inv p"] Inv_val [of p] by (simp add: Negate_def)
  then have "(256 ^ length p - be_val p) mod 256 ^ length p
      = (be_val (Negate p) + 256 ^ length p * unat (snd (Inc (Inv p)))) mod 256 ^ length p"
    by simp
  also have "\<dots> = be_val (Negate p)"
    using be_val_less [of "Negate p"] by simp
  finally show ?thesis by simp
qed

lemma order_loop_spec:
  "x \<noteq> 0 \<Longrightarrow> n \<le> order_loop x n \<and> 2 ^ (order_loop x n - n) \<le> unat x
     \<and> unat x < 2 ^ Suc (order_loop x n - n)"
proof (induction x n rule: order_loop.induct)
  case (1 x n)
  let ?x = "drop_bit 1 x"
  have h: "unat ?x = unat x div 2" by (simp only: unat_drop_bit_div power_one_right)
  have x: "0 < unat x" using 1(2) by (simp add: unat_gt_0)
  show ?case
  proof (cases "?x = 0")
    case True
    with h have "unat x div 2 = 0" by simp
    with x have "unat x = 1" by simp
    with True show ?thesis by (simp add: order_loop.simps [of x n])
  next
    case False
    with 1(1) have IH: "Suc n \<le> order_loop ?x (Suc n)"
      "2 ^ (order_loop ?x (Suc n) - Suc n) \<le> unat x div 2"
      "unat x div 2 < 2 ^ Suc (order_loop ?x (Suc n) - Suc n)"
      unfolding h [symmetric] by auto
    define k where "k = order_loop ?x (Suc n) - Suc n"
    have k: "order_loop x n = n + Suc k"
      using False IH(1) by (simp add: order_loop.simps [of x n] k_def)
    have "2 ^ k \<le> unat x div 2" and "unat x div 2 < 2 ^ Suc k"
      using IH(2,3) by (simp_all only: k_def)
    then have "2 ^ Suc k \<le> unat x" and "unat x < 2 ^ Suc (Suc k)" by (auto simp del: power_Suc simp: power_Suc [of 2])
    then show ?thesis unfolding k by simp
  qed
qed

lemma GetOrder_zero_iff: "GetOrder p = 0 \<longleftrightarrow> be_val p = 0"
proof (induction p)
  case (Cons x p)
  show ?case
  proof (cases "x = 0")
    case False
    then have "0 < order_loop x (8 * Suc (length p) - 7)"
      using order_loop_spec [of x "8 * Suc (length p) - 7"] by simp
    with False show ?thesis by (simp add: unat_eq_zero)
  qed (use Cons in simp)
qed simp

lemma GetOrder_bounds:
  "be_val p \<noteq> 0 \<Longrightarrow> 2 ^ (GetOrder p - 1) \<le> be_val p \<and> be_val p < 2 ^ GetOrder p"
proof (induction p)
  case (Cons x p)
  show ?case
  proof (cases "x = 0")
    case False
    let ?n = "8 * Suc (length p) - 7"
    define k where "k = order_loop x ?n - ?n"
    have spec: "2 ^ k \<le> unat x" "unat x < 2 ^ Suc k" "order_loop x ?n = k + ?n"
      using order_loop_spec [OF False, of ?n] by (auto simp: k_def)
    have pw: "(256::nat) ^ length p = 2 ^ (8 * length p)" by (simp add: power_mult)
    have "2 ^ (k + 8 * length p) \<le> be_val (x # p)"
      using mult_le_mono1 [OF spec(1), of "2 ^ (8 * length p)"]
      unfolding be_val.simps pw power_add by linarith
    moreover have "be_val (x # p) < Suc (unat x) * 2 ^ (8 * length p)"
      using be_val_less [of p] by (simp add: pw)
    moreover have "Suc (unat x) * 2 ^ (8 * length p) \<le> 2 ^ (Suc k + 8 * length p)"
      using mult_le_mono1 [of "Suc (unat x)" "2 ^ Suc k" "2 ^ (8 * length p)"] spec(2)
      by (simp add: power_add)
    ultimately show ?thesis using False spec(3) by (simp del: be_val.simps)
  qed (use Cons in simp)
qed simp

subsection \<open>Multiplication\<close>

text \<open>
  The destination index \<open>iDst\<close> is a 32-bit word: for the leading digits of the first factor it
  wraps around, and \<open>i1Min\<close> skips the digits whose product falls off the front.
\<close>

fun Mul_inner :: "nat \<Rightarrow> nat \<Rightarrow> u8 \<Rightarrow> u32 \<Rightarrow> bytes \<Rightarrow> u16 \<Rightarrow> bytes \<Rightarrow> bytes \<times> u16" where
  "Mul_inner 0 i1Min x0 iDst pSrc1 carry p = (p, carry)"
| "Mul_inner (Suc i1) i1Min x0 iDst pSrc1 carry p =
     (if Suc i1 > i1Min then
        let idx = unat (iDst + of_nat i1);
            x1 = ucast (pSrc1 ! i1) * ucast x0;
            c = carry + x1 + ucast (p ! idx)
        in Mul_inner i1 i1Min x0 iDst pSrc1 (drop_bit 8 c) (p[idx := ucast c])
      else (p, carry))"

fun Mul_carry :: "nat \<Rightarrow> u16 \<Rightarrow> bytes \<Rightarrow> bytes" where
  "Mul_carry 0 carry p = p"
| "Mul_carry (Suc i) carry p =
     (if carry = 0 then p
      else let c = carry + ucast (p ! i) in Mul_carry i (drop_bit 8 c) (p[i := ucast c]))"

definition Mul_digit :: "u8 \<Rightarrow> u32 \<Rightarrow> bytes \<Rightarrow> bytes \<Rightarrow> bytes" where
  "Mul_digit x0 iDst pSrc1 p =
     (let nDst = of_nat (length p) :: u32;
          i1Min = (if iDst > nDst then - iDst else 0);
          (p1, carry) = Mul_inner (length pSrc1) (unat i1Min) x0 iDst pSrc1 0 p
      in if iDst \<le> nDst then Mul_carry (unat iDst) carry p1 else p1)"

fun Mul_outer :: "nat \<Rightarrow> u32 \<Rightarrow> bytes \<Rightarrow> bytes \<Rightarrow> bytes \<Rightarrow> bytes" where
  "Mul_outer 0 nDelta pSrc0 pSrc1 p = p"
| "Mul_outer (Suc i0) nDelta pSrc0 pSrc1 p =
     Mul_outer i0 nDelta pSrc0 pSrc1 (Mul_digit (pSrc0 ! i0) (of_nat i0 - nDelta) pSrc1 p)"

text \<open>A factor longer than the result loses its leading bytes.\<close>

definition crop :: "nat \<Rightarrow> bytes \<Rightarrow> bytes" where
  "crop nDst p = (if length p > nDst then drop (length p - nDst) p else p)"

definition Mul :: "nat \<Rightarrow> bytes \<Rightarrow> bytes \<Rightarrow> bytes" where
  "Mul nDst pSrc0 pSrc1 =
     (let s0 = crop nDst pSrc0;
          s1 = crop nDst pSrc1;
          nDelta = of_nat (length s0) + of_nat (length s1) - of_nat nDst - 1
      in Mul_outer (length s0) nDelta s0 s1 (memset0 nDst))"

lemma unat_mul_carry:
  assumes "unat c < 256"
  shows "unat (c + ucast (a :: u8) * ucast (b :: u8) + ucast (d :: u8) :: u16)
    = unat c + unat a * unat b + unat d"
proof -
  have "unat a * unat b \<le> 255 * 255"
    using unat_u8_less [of a] unat_u8_less [of b] by (intro mult_le_mono) simp_all
  with assms unat_u8_less [of d] show ?thesis
    by (simp add: unat_word_ariths unat_ucast_u8_u16)
qed

lemma Mul_inner_spec:
  assumes "\<And>j. m \<le> j \<Longrightarrow> j < i1 \<Longrightarrow> unat (iDst + of_nat j :: u32) = b + (j - m)"
    and "b + (i1 - m) \<le> length p" and "i1 \<le> length s" and "unat c < 256"
    and "Mul_inner i1 m x0 iDst s c p = (p', c')"
  shows "length p' = length p \<and> take b p' = take b p \<and>
    drop (b + (i1 - m)) p' = drop (b + (i1 - m)) p \<and> unat c' < 256 \<and>
    be_val (take (b + (i1 - m)) p') + 256 ^ (i1 - m) * unat c'
      = be_val (take (b + (i1 - m)) p) + unat x0 * be_val (drop m (take i1 s)) + unat c"
  using assms
proof (induction i1 arbitrary: p c)
  case 0
  then show ?case by auto
next
  case (Suc i)
  show ?case
  proof (cases "m \<le> i")
    case False
    with Suc.prems show ?thesis by (auto simp: Suc_diff_le)
  next
    case True
    define e where "e = b + (i - m)"
    have idx: "unat (iDst + of_nat i) = e" using Suc.prems(1) [of i] True by (simp add: e_def)
    define q where "q = c + ucast (s ! i) * ucast x0 + ucast (p ! e)"
    have e: "e < length p" "Suc i - m = Suc (i - m)" using Suc.prems(2) True by (auto simp: e_def)
    have qv: "unat q = unat c + unat (s ! i) * unat x0 + unat (p ! e)"
      unfolding q_def by (rule unat_mul_carry) (rule Suc.prems(4))
    have qd: "unat (drop_bit 8 q) = unat q div 256" by (simp add: unat_drop_bit_div)
    have q256: "unat q div 256 < 256"
      using unsigned_less [of q, where 'a = nat] by simp
    let ?p = "p[e := ucast q]"
    have step: "Mul_inner i m x0 iDst s (drop_bit 8 q) ?p = (p', c')"
      using Suc.prems(5) True idx by (simp add: q_def Let_def)
    have IH: "length p' = length p" "take b p' = take b p" "drop e p' = drop e ?p" "unat c' < 256"
      "be_val (take e p') + 256 ^ (i - m) * unat c'
        = be_val (take e p) + unat x0 * be_val (drop m (take i s)) + unat q div 256"
      using Suc.IH [of ?p "drop_bit 8 q", OF Suc.prems(1) _ _ _ step] Suc.prems(3) e q256
      by (auto simp: e_def [symmetric] qd) (simp_all add: e_def)
    have pe: "p' ! e = ucast q \<and> drop (Suc e) p' = drop (Suc e) p"
      using IH(1,3) e(1) by (simp add: Cons_nth_drop_Suc [symmetric])
    have sv: "be_val (drop m (take (Suc i) s)) = be_val (drop m (take i s)) * 256 + unat (s ! i)"
      using Suc.prems(3) True by (simp add: take_Suc_conv_app_nth be_val_snoc)
    have qs: "unat q = 256 * (unat q div 256) + unat (ucast q :: u8)"
      by (simp add: unat_ucast_u16_u8)
    have "be_val (take (Suc e) p') + 256 ^ Suc (i - m) * unat c'
        = 256 * (be_val (take e p') + 256 ^ (i - m) * unat c') + unat (p' ! e)"
      using e IH(1) by (simp add: be_val_take_Suc)
    also have "\<dots> = be_val (take (Suc e) p) + unat x0 * be_val (drop m (take (Suc i) s)) + unat c"
      unfolding IH(5) using pe qs qv e by (simp add: be_val_take_Suc sv algebra_simps)
    finally show ?thesis
      using IH pe e True by (simp add: e_def [symmetric] Suc_diff_le)
  qed
qed

lemma Mul_carry_spec:
  "i \<le> length p \<Longrightarrow> unat c < 256 \<Longrightarrow>
     length (Mul_carry i c p) = length p \<and> drop i (Mul_carry i c p) = drop i p \<and>
     be_val (take i (Mul_carry i c p)) = (be_val (take i p) + unat c) mod 256 ^ i"
proof (induction i arbitrary: p c)
  case (Suc i)
  show ?case
  proof (cases "c = 0")
    case True
    have "be_val (take (Suc i) p) < 256 ^ Suc i"
      by (rule be_val_less_pow) simp
    with True show ?thesis by simp
  next
    case False
    define q where "q = c + ucast (p ! i)"
    have qv: "unat q = unat c + unat (p ! i)"
      using Suc.prems(2) unat_u8_less [of "p ! i"]
      by (simp add: q_def unat_word_ariths unat_ucast_u8_u16)
    have q256: "unat q div 256 < 256"
      using unsigned_less [of q, where 'a = nat] by simp
    let ?p = "p[i := ucast q]"
    let ?r = "Mul_carry i (drop_bit 8 q) ?p"
    have step: "Mul_carry (Suc i) c p = ?r" using False by (simp add: q_def Let_def)
    have IH: "length ?r = length p" "drop i ?r = drop i ?p"
      "be_val (take i ?r) = (be_val (take i p) + unat q div 256) mod 256 ^ i"
      using Suc.IH [of ?p "drop_bit 8 q"] Suc.prems(1) q256 by (auto simp: unat_drop_bit_div)
    have pe: "?r ! i = ucast q \<and> drop (Suc i) ?r = drop (Suc i) p"
      using IH(1,2) Suc.prems(1) by (simp add: Cons_nth_drop_Suc [symmetric])
    have "be_val (take (Suc i) ?r) = (be_val (take i p) + unat q div 256) mod 256 ^ i * 256 + unat q mod 256"
      using Suc.prems(1) IH pe by (simp add: be_val_take_Suc unat_ucast_u16_u8)
    also have "\<dots> = (be_val (take (Suc i) p) + unat c) mod 256 ^ Suc i"
    proof -
      have "be_val (take (Suc i) p) + unat c = (be_val (take i p) + unat q div 256) * 256 + unat q mod 256"
        using qv Suc.prems(1) by (simp add: be_val_take_Suc distrib_right)
      then show ?thesis by (simp only: power_Suc mod_digit [OF mod_less_divisor [OF zero_less_numeral]])
    qed
    finally show ?thesis using step IH pe by simp
  qed
qed simp

text \<open>One digit of the first factor: multiply, add at its weight, propagate the carry.\<close>

lemma Mul_digit_spec:
  assumes "w + length s \<le> length p + length p" and "w < length p" and "length s \<le> length p"
    and "length p < 2 ^ 30"
    and "iDst = of_nat (length p) - of_nat (length s) - of_nat w"
  shows "length (Mul_digit x0 iDst s p) = length p \<and>
    be_val (Mul_digit x0 iDst s p) = (be_val p + unat x0 * be_val s * 256 ^ w) mod 256 ^ length p"
proof (cases "w + length s \<le> length p")
  case True
  define b where "b = length p - length s - w"
  have b: "length p = b + length s + w" using True by (simp add: b_def)
  have iD: "iDst = of_nat b" unfolding assms(5) b by simp
  have un: "unat (of_nat k :: u32) = k" if "k \<le> length p" for k
    using that assms(4) by (simp add: unat_of_nat)
  have le: "iDst \<le> of_nat (length p)"
    unfolding iD word_le_nat_alt using un [of b] un [of "length p"] b by simp
  have idx: "unat (iDst + of_nat j) = b + (j - 0)" if "j < length s" for j
    using un [of "b + j"] that b by (simp add: iD)
  obtain q c where q: "Mul_inner (length s) 0 x0 iDst s 0 p = (q, c)" by fastforce
  have I: "length q = length p" "take b q = take b p" "drop (b + length s) q = drop (b + length s) p"
     "unat c < 256" "be_val (take (b + length s) q) + 256 ^ length s * unat c
       = be_val (take (b + length s) p) + unat x0 * be_val s"
    using Mul_inner_spec [OF _ _ _ _ q, of b] idx b by auto
  let ?r = "Mul_carry b c q"
  have M: "Mul_digit x0 iDst s p = ?r"
    using le q un [of b] b by (auto simp: Mul_digit_def Let_def iD)
  have C: "length ?r = length p" "drop b ?r = drop b q"
     "be_val (take b ?r) = (be_val (take b p) + unat c) mod 256 ^ b"
    using Mul_carry_spec [of b q c] I b by auto
  define sg where "sg = be_val (take (length s) (drop b q))"
  have seg: "be_val (take (b + length s) q) = be_val (take b p) * 256 ^ length s + sg"
    using I(1,2) b by (simp add: take_add be_val_append sg_def)
  have sg_less: "sg < 256 ^ length s" unfolding sg_def by (rule be_val_less_pow) simp
  have tl: "be_val (drop (b + length s) p) < 256 ^ w" by (rule be_val_less_pow) (simp add: b)
  have "be_val ?r = be_val (take b ?r) * 256 ^ (length s + w) + be_val (drop b q)"
    using be_val_split [of ?r b] C b by simp
  also have "be_val (drop b q) = sg * 256 ^ w + be_val (drop (b + length s) p)"
    using be_val_split [of "drop b q" "length s"] I(1,3) b by (simp add: sg_def add.commute)
  finally have r: "be_val ?r = (be_val (take b p) + unat c) mod 256 ^ b * 256 ^ (length s + w)
      + (sg * 256 ^ w + be_val (drop (b + length s) p))"
    by (simp add: C(3))
  have lo: "sg * 256 ^ w + be_val (drop (b + length s) p) < 256 ^ (length s + w)"
    using sg_less tl by (rule mult_pow_add_less)
  have "be_val p + unat x0 * be_val s * 256 ^ w
     = (be_val (take (b + length s) p) + unat x0 * be_val s) * 256 ^ w + be_val (drop (b + length s) p)"
    using be_val_split [of p "b + length s"] b by (simp add: distrib_right)
  also have "\<dots> = (be_val (take b p) + unat c) * 256 ^ (length s + w)
      + (sg * 256 ^ w + be_val (drop (b + length s) p))"
    unfolding I(5) [symmetric] seg by (simp add: algebra_simps power_add)
  finally show ?thesis
    using mod_digit [OF lo, of _ "256 ^ b"] C(1) M r b
    by (simp add: power_add mult.commute [of "256 ^ b"]) (simp add: mult_ac)
next
  case False
  define m where "m = w + length s - length p"
  have m: "length p + m = w + length s" "0 < m" "m < length s"
    using False assms(2) by (auto simp: m_def)
  have "(of_nat (length p) + of_nat m :: u32) = of_nat w + of_nat (length s)"
    using m(1) by (metis of_nat_add)
  then have iD: "iDst = - of_nat m" unfolding assms(5) by (simp add: algebra_simps)
  have un: "unat (of_nat k :: u32) = k" if "k \<le> length p" for k
    using that assms(4) by (simp add: unat_of_nat)
  have neg: "unat iDst = 2 ^ 32 - m"
  proof -
    have "iDst = of_nat (2 ^ 32 - m)" using m assms(3,4) by (simp add: iD of_nat_diff)
    then show ?thesis using m by (simp add: unat_of_nat)
  qed
  have gt: "iDst > of_nat (length p)"
    unfolding word_less_nat_alt neg using un [of "length p"] m assms(3,4) by simp
  have idx: "unat (iDst + of_nat j) = 0 + (j - m)" if "m \<le> j" "j < length s" for j
  proof -
    have "iDst + of_nat j = of_nat (j - m)" using that by (simp add: iD of_nat_diff)
    then show ?thesis using un [of "j - m"] that assms(3) by simp
  qed
  obtain q c where q: "Mul_inner (length s) m x0 iDst s 0 p = (q, c)" by fastforce
  define k where "k = length s - m"
  have k: "length p = k + w" using m by (simp add: k_def)
  have I: "length q = length p" "drop k q = drop k p"
     "be_val (take k q) + 256 ^ k * unat c = be_val (take k p) + unat x0 * be_val (drop m s)"
    using Mul_inner_spec [OF _ _ _ _ q, of 0] idx m k by (auto simp: k_def)
  have M: "Mul_digit x0 iDst s p = q"
    using gt q un [of m] m assms(3) by (auto simp: Mul_digit_def Let_def iD)
  have tl: "be_val (drop k p) < 256 ^ w" by (rule be_val_less_pow) (simp add: k)
  have lt: "be_val q < 256 ^ length p" using be_val_less [of q] I(1) by simp
  have s: "be_val s = be_val (take m s) * 256 ^ k + be_val (drop m s)"
    using be_val_split [of s m] by (simp add: k_def)
  have "be_val p + unat x0 * be_val s * 256 ^ w
      = (be_val (take k p) + unat x0 * be_val (drop m s)) * 256 ^ w + be_val (drop k p)
        + unat x0 * be_val (take m s) * 256 ^ length p"
    using be_val_split [of p k] k by (simp add: s algebra_simps power_add)
  also have "\<dots> = be_val q + 256 ^ length p * (unat c + unat x0 * be_val (take m s))"
    using be_val_split [of q k] I k by (simp add: I(3) [symmetric] algebra_simps power_add)
  finally show ?thesis using M I(1) lt by simp
qed

lemma Mul_outer_spec:
  assumes "i \<le> length s0" and "length s0 \<le> length p" and "length s1 \<le> length p"
    and "length p < 2 ^ 30"
    and "nDelta = of_nat (length s0) + of_nat (length s1) - of_nat (length p) - 1"
  shows "length (Mul_outer i nDelta s0 s1 p) = length p \<and>
    be_val (Mul_outer i nDelta s0 s1 p)
      = (be_val p + be_val (take i s0) * be_val s1 * 256 ^ (length s0 - i)) mod 256 ^ length p"
  using assms
proof (induction i arbitrary: p)
  case 0
  then show ?case using be_val_less [of p] by simp
next
  case (Suc i)
  define w where "w = length s0 - Suc i"
  have w: "length s0 = Suc i + w" using Suc.prems(1) by (simp add: w_def)
  let ?q = "Mul_digit (s0 ! i) (of_nat i - nDelta) s1 p"
  have "of_nat i - nDelta = of_nat (length p) - of_nat (length s1) - of_nat w"
    using Suc.prems(5) by (simp add: w)
  then have D: "length ?q = length p"
     "be_val ?q = (be_val p + unat (s0 ! i) * be_val s1 * 256 ^ w) mod 256 ^ length p"
    using Mul_digit_spec [of w s1 p] Suc.prems w by auto
  have IH: "length (Mul_outer i nDelta s0 s1 ?q) = length p"
    "be_val (Mul_outer i nDelta s0 s1 ?q)
      = (be_val ?q + be_val (take i s0) * be_val s1 * 256 ^ (length s0 - i)) mod 256 ^ length p"
    using Suc.IH [of ?q] Suc.prems D by auto
  have "be_val p + unat (s0 ! i) * be_val s1 * 256 ^ w
        + be_val (take i s0) * be_val s1 * 256 ^ (length s0 - i)
      = be_val p + be_val (take (Suc i) s0) * be_val s1 * 256 ^ w"
    using w by (simp add: be_val_take_Suc algebra_simps)
  then show ?case using IH D by (simp add: mod_add_left_eq w add.assoc)
qed

lemma crop_val_mod: "be_val (crop n p) mod 256 ^ n = be_val p mod 256 ^ n"
  by (simp add: crop_def be_val_drop)

lemma length_crop: "length (crop n p) \<le> n"
  by (simp add: crop_def)

lemma Mul_spec:
  assumes "nDst < 2 ^ 30"
  shows "length (Mul nDst a b) = nDst \<and> be_val (Mul nDst a b) = be_val a * be_val b mod 256 ^ nDst"
proof -
  have "length (Mul nDst a b) = nDst \<and>
      be_val (Mul nDst a b) = be_val (crop nDst a) * be_val (crop nDst b) mod 256 ^ nDst"
    using Mul_outer_spec [of "length (crop nDst a)" "crop nDst a" "memset0 nDst" "crop nDst b"]
      assms by (simp add: Mul_def Let_def be_simps length_crop)
  then show ?thesis by (metis crop_val_mod mod_mult_cong)
qed

subsection \<open>Shifts\<close>

definition ShiftRight :: "nat \<Rightarrow> bytes \<Rightarrow> nat \<Rightarrow> bytes" where
  "ShiftRight nDst pSrc nBits =
     (let nBytes = nBits div 8;
          nSrc = (if nBytes \<ge> length pSrc then 0 else length pSrc - nBytes);
          bits = (if nBytes \<ge> length pSrc then 0 else nBits mod 8);
          pad = (if nDst > nSrc then nDst - nSrc else 0);
          n = (if nDst > nSrc then nSrc else nDst);
          s = (if nDst > nSrc then 0 else nSrc - nDst)
      in memset0 pad @
        (if bits \<noteq> 0 then
           map (\<lambda>i. drop_bit bits (pSrc ! (s + i)) OR
                    (if nSrc + i > n then push_bit (8 - bits) (pSrc ! (s + i - 1)) else 0)) [0..<n]
         else take n (drop s pSrc)))"

text \<open>The byte loop of \<open>_ShiftLeft\<close> for a shift by 1 to 7 bits.\<close>

definition ShiftLeft_loop :: "nat \<Rightarrow> bytes \<Rightarrow> bytes" where
  "ShiftLeft_loop bits s =
     map (\<lambda>i. push_bit bits (s ! i) OR
            (if i + 1 < length s then drop_bit (8 - bits) (s ! (i + 1)) else 0)) [0..<length s]"

definition ShiftLeft :: "nat \<Rightarrow> bytes \<Rightarrow> nat \<Rightarrow> bytes" where
  "ShiftLeft nDst pSrc nBits =
     (let nBytes = (if nBits div 8 \<ge> nDst then nDst else nBits div 8);
          bits = (if nBits div 8 \<ge> nDst then 0 else nBits mod 8);
          n = (if nBits div 8 \<ge> nDst then 0 else nDst - nBits div 8);
          s = crop n pSrc;
          pad = n - length s;
          zeros = memset0 pad
      in if bits \<noteq> 0 then
           (if s \<noteq> [] \<and> n > length s then zeros[pad - 1 := drop_bit (8 - bits) (s ! 0)] else zeros)
           @ ShiftLeft_loop bits s @ memset0 nBytes
         else zeros @ s @ memset0 nBytes)"

lemma unat_or_shift:
  assumes "0 < k" "k < 8"
  shows "unat (push_bit k (y :: u8) OR drop_bit (8 - k) (x :: u8))
    = unat y * 2 ^ k mod 256 + unat x div 2 ^ (8 - k)"
proof -
  have "push_bit k y AND drop_bit (8 - k) x = 0"
  proof (rule bit_eqI)
    fix n
    have "\<not> bit x (8 - k + n)" if "k \<le> n" using bit_imp_le_length [of x "8 - k + n"] that assms by auto
    then show "bit (push_bit k y AND drop_bit (8 - k) x) n = bit 0 n"
      by (cases "n < k") (simp_all add: bit_simps)
  qed
  then show ?thesis by (simp add: unat_or_disjoint unat_push_bit unat_drop_bit_div)
qed

lemma unat_or_shift':
  assumes "0 < k" "k < 8"
  shows "unat (drop_bit k (x :: u8) OR push_bit (8 - k) (y :: u8))
    = unat x div 2 ^ k + unat y * 2 ^ (8 - k) mod 256"
  using unat_or_shift [of "8 - k" y x] assms by (simp add: or.commute)

lemma length_ShiftRight [simp]: "length (ShiftRight n p k) = n"
  by (auto simp: ShiftRight_def Let_def)

lemma shr_bytes:
  assumes "0 < b" "b < 8" and "i \<le> length q"
    and "S = map (\<lambda>i. drop_bit b (q ! i) OR (if 0 < i then push_bit (8 - b) (q ! (i - 1)) else 0)) [0..<length q]"
  shows "be_val (take i S) = be_val (take i q) div 2 ^ b"
  using assms(3)
proof (induction i)
  case (Suc i)
  have pw: "(256::nat) = 2 ^ (8 - b) * 2 ^ b" using assms(2) by (simp flip: power_add)
  have i: "i < length q" "i < length S" using Suc.prems assms(4) by simp_all
  show ?case
  proof (cases i)
    case 0
    then show ?thesis using i assms(4) by (simp add: be_val_take_Suc unat_drop_bit_div)
  next
    case (Suc j)
    define V where "V = be_val (take i q)"
    have V: "V = be_val (take j q) * 256 + unat (q ! j)"
      using i Suc by (simp add: V_def be_val_take_Suc)
    have "V mod 2 ^ b = unat (q ! j) mod 2 ^ b"
      unfolding V by (simp add: pw mod_mult_right_eq flip: mult.assoc)
    then have "(V mod 2 ^ b) * 2 ^ (8 - b) = 2 ^ (8 - b) * (unat (q ! j) mod 2 ^ b)"
      by (simp add: mult.commute)
    also have "\<dots> = 2 ^ (8 - b) * unat (q ! j) mod (2 ^ (8 - b) * 2 ^ b)" by (rule mult_mod_right)
    finally have m: "unat (q ! j) * 2 ^ (8 - b) mod 256 = (V mod 2 ^ b) * 2 ^ (8 - b)"
      by (simp only: pw mult.commute)
    have "(V * 256 + unat (q ! i)) div 2 ^ b = V * 2 ^ (8 - b) + unat (q ! i) div 2 ^ b"
      by (subst pw) (simp add: mult.assoc [symmetric])
    also have "V * 2 ^ (8 - b) = V div 2 ^ b * 256 + (V mod 2 ^ b) * 2 ^ (8 - b)"
    proof -
      have "V * 2 ^ (8 - b) = (V div 2 ^ b * 2 ^ b + V mod 2 ^ b) * 2 ^ (8 - b)"
        by (simp only: div_mult_mod_eq)
      also have "\<dots> = V div 2 ^ b * (2 ^ (8 - b) * 2 ^ b) + (V mod 2 ^ b) * 2 ^ (8 - b)"
        by (simp only: distrib_right distrib_left mult_ac)
      finally show ?thesis by (simp only: pw)
    qed
    finally have "(V * 256 + unat (q ! i)) div 2 ^ b
        = V div 2 ^ b * 256 + (unat (q ! i) div 2 ^ b + unat (q ! j) * 2 ^ (8 - b) mod 256)"
      using m by simp
    moreover have "be_val (take i S) = V div 2 ^ b" using Suc.IH i by (simp add: V_def)
    moreover have "unat (S ! i) = unat (q ! i) div 2 ^ b + unat (q ! j) * 2 ^ (8 - b) mod 256"
      using i Suc assms(1,2,4) by (simp add: unat_or_shift')
    ultimately show ?thesis using i by (simp add: be_val_take_Suc V_def)
  qed
qed simp

lemma ShiftRight_val: "be_val (ShiftRight nDst p k) = be_val p div 2 ^ k mod 256 ^ nDst"
proof (cases "k div 8 \<ge> length p")
  case True
  have "be_val p < 2 ^ (8 * length p)" using be_val_less [of p] by (simp add: power_mult)
  also have "\<dots> \<le> 2 ^ k" using True by (intro power_increasing) simp_all
  finally show ?thesis using True by (simp add: ShiftRight_def be_simps)
next
  case False
  define q where "q = take (length p - k div 8) p"
  define b where "b = k mod 8"
  define S where "S = (if b = 0 then q else map (\<lambda>i. drop_bit b (q ! i) OR
      (if 0 < i then push_bit (8 - b) (q ! (i - 1)) else 0)) [0..<length q])"
  have lq: "length q = length p - k div 8" using False by (simp add: q_def)
  have "be_val S = be_val q div 2 ^ b"
    using shr_bytes [of b "length q" q] by (auto simp: S_def b_def)
  also have "be_val q = be_val p div 256 ^ (k div 8)"
    using False by (simp add: q_def be_val_take)
  also have "\<dots> div 2 ^ b = be_val p div 2 ^ k"
  proof -
    have "(256::nat) ^ (k div 8) * 2 ^ b = 2 ^ (8 * (k div 8) + k mod 8)"
      by (simp only: b_def power_add power_mult) simp
    then show ?thesis by (simp add: div_mult2_eq [symmetric])
  qed
  finally have S: "be_val S = be_val p div 2 ^ k" .
  have lS: "length S = length q" by (simp add: S_def)
  define l where "l = length q"
  have pq: "p ! j = q ! j" if "j < l" for j using that by (simp add: q_def l_def)
  have "ShiftRight nDst p k = memset0 (nDst - l) @ (if b = 0 then drop (l - nDst) q
      else map (\<lambda>i. drop_bit b (p ! (l - nDst + i)) OR
        (if l + i > min l nDst then push_bit (8 - b) (p ! (l - nDst + i - 1)) else 0)) [0..<min l nDst])"
  proof -
    have nl: "(if k div 8 \<ge> length p then 0 else length p - k div 8) = l"
      and nb: "(if k div 8 \<ge> length p then 0 else k mod 8) = b"
      using False lq by (simp_all add: l_def b_def)
    have tk: "take l p = q" by (simp add: l_def lq q_def)
    have "take (min l nDst) (drop (l - nDst) p) = drop (l - nDst) q"
      by (simp add: tk [symmetric] drop_take min_def)
    then show ?thesis
      unfolding ShiftRight_def Let_def nl nb by (cases "nDst > l") (auto simp: min_def)
  qed
  also have "\<dots> = memset0 (nDst - l) @ drop (l - nDst) S"
  proof (cases "b = 0")
    case True
    then show ?thesis by (simp add: S_def)
  next
    case b: False
    have "map (\<lambda>i. drop_bit b (p ! (l - nDst + i)) OR
        (if l + i > min l nDst then push_bit (8 - b) (p ! (l - nDst + i - 1)) else 0)) [0..<min l nDst]
      = drop (l - nDst) S"
    proof (intro nth_equalityI)
      fix i assume "i < length (map (\<lambda>i. drop_bit b (p ! (l - nDst + i)) OR
        (if l + i > min l nDst then push_bit (8 - b) (p ! (l - nDst + i - 1)) else 0)) [0..<min l nDst])"
      then have i: "i < min l nDst" by simp
      then have "l - nDst + i < l" and "(l + i > min l nDst) = (0 < l - nDst + i)" by linarith+
      with i b pq [of "l - nDst + i"] pq [of "l - nDst + i - 1"]
      show "map (\<lambda>i. drop_bit b (p ! (l - nDst + i)) OR
        (if l + i > min l nDst then push_bit (8 - b) (p ! (l - nDst + i - 1)) else 0)) [0..<min l nDst] ! i
        = drop (l - nDst) S ! i"
        by (simp add: S_def l_def [symmetric])
    qed (simp add: lS l_def)
    with b show ?thesis by simp
  qed
  also have "\<dots> = Assign nDst S"
    using lS by (simp add: Assign_def l_def Let_def memset0_def)
  finally show ?thesis using S by (simp add: Assign_val)
qed

text \<open>The shifted bytes, and what the most significant one pushes out.\<close>

lemma length_ShiftLeft_loop [simp]: "length (ShiftLeft_loop b s) = length s"
  by (simp add: ShiftLeft_loop_def)

lemma ShiftLeft_loop_Cons:
  "ShiftLeft_loop b (x # xs) = (push_bit b x OR (if xs \<noteq> [] then drop_bit (8 - b) (xs ! 0) else 0))
     # ShiftLeft_loop b xs"
  unfolding ShiftLeft_loop_def
  by (simp add: upt_conv_Cons map_Suc_upt [symmetric] del: upt_Suc)

lemma ShiftLeft_loop_val:
  assumes "0 < b" "b < 8" and "s \<noteq> []"
  shows "be_val (ShiftLeft_loop b s) + 256 ^ length s * (unat (s ! 0) div 2 ^ (8 - b)) = be_val s * 2 ^ b"
  using assms(3)
proof (induction s)
  case (Cons x xs)
  have pw: "(256::nat) = 2 ^ (8 - b) * 2 ^ b" using assms(2) by (simp flip: power_add)
  have "unat x * 2 ^ b = 256 * (unat x * 2 ^ b div 256) + unat x * 2 ^ b mod 256" by simp
  also have "unat x * 2 ^ b div 256 = unat x div 2 ^ (8 - b)"
    by (subst pw) (simp add: div_mult_mult2)
  finally have x: "unat x * 2 ^ b = 256 * (unat x div 2 ^ (8 - b)) + unat x * 2 ^ b mod 256" .
  show ?case
  proof (cases "xs = []")
    case True
    then show ?thesis using x by (simp add: ShiftLeft_loop_def unat_push_bit)
  next
    case False
    have "unat (push_bit b x OR drop_bit (8 - b) (xs ! 0))
        = unat x * 2 ^ b mod 256 + unat (xs ! 0) div 2 ^ (8 - b)"
      using assms(1,2) by (rule unat_or_shift)
    moreover have "unat x * 256 ^ length xs * 2 ^ b
        = (256 * (unat x div 2 ^ (8 - b)) + unat x * 2 ^ b mod 256) * 256 ^ length xs"
      by (subst x [symmetric]) simp
    ultimately show ?thesis using Cons.IH [OF False] False
      by (simp add: ShiftLeft_loop_Cons algebra_simps)
  qed
qed simp

lemma length_ShiftLeft [simp]: "length (ShiftLeft n p k) = n"
  by (auto simp: ShiftLeft_def Let_def crop_def)

lemma be_val_last: "0 < n \<Longrightarrow> be_val ((memset0 n)[n - 1 := v]) = unat v"
proof (cases n)
  case (Suc m)
  then have "(memset0 n)[n - 1 := v] = replicate m 0 @ [v]"
    by (simp add: memset0_def replicate_append_same [symmetric] list_update_append)
  with Suc show ?thesis by (simp add: be_simps)
qed simp

lemma ShiftLeft_core:
  assumes "length s \<le> n" and "b < 8" and "pad = n - length s"
    and "r = (if b \<noteq> 0 then
       (if s \<noteq> [] \<and> n > length s then (memset0 pad)[pad - 1 := drop_bit (8 - b) (s ! 0)]
        else memset0 pad) @ ShiftLeft_loop b s else memset0 pad @ s)"
  shows "be_val r = be_val s * 2 ^ b mod 256 ^ n"
proof -
  consider "b = 0" | "b \<noteq> 0" "s = []" | "b \<noteq> 0" "s \<noteq> []" "n > length s" | "b \<noteq> 0" "s \<noteq> []" "n = length s"
    using assms(1) by fastforce
  then show ?thesis
  proof cases
    case 1
    then show ?thesis using assms(4) be_val_less_pow [OF assms(1)] by (simp add: be_simps)
  next
    case 2
    then show ?thesis using assms(4) by (simp add: be_simps ShiftLeft_loop_def)
  next
    case 3
    then have "be_val r = (unat (s ! 0) div 2 ^ (8 - b)) * 256 ^ length s + be_val (ShiftLeft_loop b s)"
      using assms be_val_last [of pad] by (simp add: be_val_append unat_drop_bit_div)
    then have "be_val r = be_val s * 2 ^ b"
      using ShiftLeft_loop_val [of b s] 3 assms(2)
      by (simp add: mult.commute [of "unat (s ! 0) div 2 ^ (8 - b)"])
    moreover have "be_val r < 256 ^ n"
      by (rule be_val_less_pow) (use 3 assms(3,4) in simp)
    ultimately show ?thesis by simp
  next
    case 4
    then have r: "r = ShiftLeft_loop b s" using assms(3,4) by (simp add: memset0_def)
    have "be_val (ShiftLeft_loop b s) < 256 ^ n" by (rule be_val_less_pow) (simp add: 4)
    then have "(be_val (ShiftLeft_loop b s) + 256 ^ n * (unat (s ! 0) div 2 ^ (8 - b))) mod 256 ^ n
        = be_val (ShiftLeft_loop b s)" by simp
    with 4 assms(2) ShiftLeft_loop_val [of b s] show ?thesis unfolding r by simp
  qed
qed

lemma ShiftLeft_val: "be_val (ShiftLeft nDst p k) = be_val p * 2 ^ k mod 256 ^ nDst"
proof (cases "k div 8 \<ge> nDst")
  case True
  have "(256::nat) ^ nDst = 2 ^ (8 * nDst)" by (simp add: power_mult)
  also have "\<dots> dvd 2 ^ k" using True by (intro le_imp_power_dvd) simp
  finally show ?thesis using True
    by (simp add: ShiftLeft_def Let_def be_simps crop_def)
next
  case False
  define n where "n = nDst - k div 8"
  define b where "b = k mod 8"
  define s where "s = crop n p"
  define pad where "pad = n - length s"
  define r where "r = (if b \<noteq> 0 then
       (if s \<noteq> [] \<and> n > length s then (memset0 pad)[pad - 1 := drop_bit (8 - b) (s ! 0)]
        else memset0 pad) @ ShiftLeft_loop b s else memset0 pad @ s)"
  have "be_val r = be_val s * 2 ^ b mod 256 ^ n"
    by (rule ShiftLeft_core [OF _ _ pad_def r_def]) (simp_all add: s_def b_def length_crop)
  also have "\<dots> = (be_val s mod 256 ^ n) * 2 ^ b mod 256 ^ n" by (simp add: mod_mult_left_eq)
  also have "\<dots> = be_val p * 2 ^ b mod 256 ^ n"
    by (simp only: s_def crop_val_mod mod_mult_left_eq)
  finally have r: "be_val r = be_val p * 2 ^ b mod 256 ^ n" .
  have "ShiftLeft nDst p k = r @ memset0 (k div 8)"
    using False unfolding ShiftLeft_def Let_def
    by (simp add: n_def [symmetric] b_def [symmetric] s_def [symmetric] pad_def [symmetric] r_def)
       (simp add: pad_def)
  then have "be_val (ShiftLeft nDst p k) = be_val p * 2 ^ b mod 256 ^ n * 256 ^ (k div 8)"
    using r by (simp add: be_simps)
  also have "\<dots> = be_val p * (2 ^ b * 256 ^ (k div 8)) mod (256 ^ n * 256 ^ (k div 8))"
    by (simp add: mult_mod_left mult.assoc)
  also have "(2::nat) ^ b * 256 ^ (k div 8) = 2 ^ k"
  proof -
    have "(2::nat) ^ b * 256 ^ (k div 8) = 2 ^ (k mod 8 + 8 * (k div 8))"
      by (simp only: b_def power_add power_mult) simp
    then show ?thesis by simp
  qed
  also have "(256::nat) ^ n * 256 ^ (k div 8) = 256 ^ nDst"
    using False by (simp add: n_def flip: power_add)
  finally show ?thesis .
qed

subsection \<open>Division\<close>

fun Div_loop :: "nat \<Rightarrow> bytes \<Rightarrow> bytes \<Rightarrow> bytes \<Rightarrow> bytes \<Rightarrow> bytes \<times> bytes" where
  "Div_loop 0 pA pB pDst pMul = (pDst, pMul)"
| "Div_loop (Suc nShift) pA pB pDst pMul =
     (let pTmp = fst (IncAny (ShiftLeft (length pA) pB nShift) pMul);
          i = length pDst - nShift div 8 - 1
      in if Cmp pMul pTmp > 0 then Div_loop nShift pA pB pDst pMul
         else if Cmp pA pTmp < 0 then Div_loop nShift pA pB pDst pMul
         else Div_loop nShift pA pB (pDst[i := pDst ! i OR push_bit (nShift mod 8) 1]) pTmp)"

definition Div :: "nat \<Rightarrow> bytes \<Rightarrow> bytes \<Rightarrow> bytes \<times> bytes" where
  "Div nDst pA pB =
     (let nA = length pA; nOrder = GetOrder pB in
      if nOrder > 8 * nA then (memset0 nDst, memset0 nA)
      else Div_loop (1 + min (8 * nA - nOrder) (8 * nDst - 1)) pA pB (memset0 nDst) (memset0 nA))"

lemma be_val_update:
  assumes "i < length p"
  shows "be_val (p[i := v]) + unat (p ! i) * 256 ^ (length p - Suc i)
    = be_val p + unat v * 256 ^ (length p - Suc i)"
proof -
  have p: "p = take i p @ p ! i # drop (Suc i) p" using assms by (rule id_take_nth_drop)
  have "p[i := v] = take i p @ v # drop (Suc i) p" using assms by (rule upd_conv_take_nth_drop)
  then have "be_val (p[i := v]) = be_val (take i p) * 256 ^ Suc (length p - Suc i)
      + unat v * 256 ^ (length p - Suc i) + be_val (drop (Suc i) p)"
    by (simp add: be_val_append)
  moreover have "be_val p = be_val (take i p) * 256 ^ Suc (length p - Suc i)
      + unat (p ! i) * 256 ^ (length p - Suc i) + be_val (drop (Suc i) p)"
    by (subst p) (simp add: be_val_append)
  ultimately show ?thesis by simp
qed

lemma be_val_nth:
  assumes "i < length p"
  shows "unat (p ! i) = be_val p div 256 ^ (length p - Suc i) mod 256"
proof -
  have "be_val p div 256 ^ (length p - Suc i) = be_val (take (Suc i) p)" by (simp add: be_val_take)
  then show ?thesis using assms unat_u8_less [of "p ! i"] by (simp add: be_val_take_Suc)
qed

text \<open>Setting the bit just below the multiples of \<open>2 ^ Suc j\<close> adds \<open>2 ^ j\<close>.\<close>

lemma set_bit_val:
  assumes "j < 8 * length p" and "2 ^ Suc j dvd be_val p"
    and "i = length p - j div 8 - 1"
  shows "be_val (p[i := p ! i OR push_bit (j mod 8) 1]) = be_val p + 2 ^ j"
proof -
  have i: "i < length p" "length p - Suc i = j div 8" using assms(1,3) by auto
  have pw: "(2::nat) ^ Suc j = 2 ^ Suc (j mod 8) * 256 ^ (j div 8)"
  proof -
    have "(256::nat) ^ (j div 8) = 2 ^ (8 * (j div 8))" by (simp add: power_mult)
    then show ?thesis by (simp flip: power_Suc power_add)
  qed
  obtain q where q: "be_val p = 2 ^ Suc j * q" using assms(2) by auto
  have "unat (p ! i) = 2 ^ Suc (j mod 8) * q mod 256"
    using be_val_nth [OF i(1)] i(2) unfolding q pw by (simp add: mult.assoc mult.left_commute [of "256 ^ (j div 8)"])
  moreover have "(256::nat) = 2 ^ Suc (j mod 8) * 2 ^ (7 - j mod 8)"
    by (simp flip: power_Suc power_add)
  ultimately have u: "unat (p ! i) = 2 ^ Suc (j mod 8) * (q mod 2 ^ (7 - j mod 8))"
    by (metis mult_mod_right)
  have "p ! i AND push_bit (j mod 8) 1 = 0"
  proof (rule bit_eqI)
    fix n
    have "\<not> bit (unat (p ! i)) (j mod 8)"
      unfolding u by (simp add: bit_iff_odd)
    then have "\<not> bit (p ! i) (j mod 8)" by (simp add: bit_unsigned_iff)
    then show "bit (p ! i AND push_bit (j mod 8) 1) n = bit 0 n" by (auto simp: bit_simps bit_1_iff)
  qed
  then have "unat (p ! i OR push_bit (j mod 8) 1) = unat (p ! i) + 2 ^ (j mod 8)"
  proof (subst unat_or_disjoint)
    have "(2::nat) ^ (j mod 8) < 2 ^ 8" by (rule power_strict_increasing) simp_all
    then show "unat (p ! i) + unat (push_bit (j mod 8) 1 :: u8) = unat (p ! i) + 2 ^ (j mod 8)"
      by (simp add: unat_push_bit del: push_bit_of_1)
  qed
  moreover have "(2::nat) ^ (j mod 8) * 256 ^ (j div 8) = 2 ^ j" using pw by simp
  ultimately show ?thesis
    using be_val_update [OF i(1), of "p ! i OR push_bit (j mod 8) 1"] i(2)
    by (simp add: distrib_right)
qed

lemma Div_loop_spec:
  assumes "k \<le> 8 * length d" and "length m = length a"
    and "\<And>j. j < k \<Longrightarrow> be_val b * 2 ^ j < 256 ^ length a"
    and "2 ^ k dvd be_val d" and "be_val m = be_val d * be_val b" and "be_val m \<le> be_val a"
    and "\<And>x. x < 256 ^ length d \<Longrightarrow> x * be_val b \<le> be_val a \<Longrightarrow> x < be_val d + 2 ^ k"
    and "Div_loop k a b d m = (d', m')"
  shows "length d' = length d \<and> length m' = length a \<and>
    be_val m' = be_val d' * be_val b \<and> be_val m' \<le> be_val a \<and>
    (\<forall>x. x < 256 ^ length d \<longrightarrow> x * be_val b \<le> be_val a \<longrightarrow> x \<le> be_val d')"
  using assms
proof (induction k arbitrary: d m)
  case 0
  then show ?case by (auto simp: less_Suc_eq_le)
next
  case (Suc j)
  define t where "t = fst (IncAny (ShiftLeft (length a) b j) m)"
  define i where "i = length d - j div 8 - 1"
  define e where "e = d[i := d ! i OR push_bit (j mod 8) 1]"
  have dv: "be_val e = be_val d + 2 ^ j"
    unfolding e_def by (rule set_bit_val) (use Suc.prems(1,4) i_def in auto)
  have "be_val (ShiftLeft (length a) b j) = be_val b * 2 ^ j"
    using Suc.prems(3) [of j] by (simp add: ShiftLeft_val)
  then have tv: "be_val t = (be_val b * 2 ^ j + be_val m) mod 256 ^ length a"
    unfolding t_def by (simp add: IncAny_val)
  have lt: "length t = length a" unfolding t_def by (simp add: IncAny_spec)
  have new: "be_val b * 2 ^ j + be_val m = be_val e * be_val b"
    using Suc.prems(5) dv by (simp add: algebra_simps)
  have d2: "2 ^ j dvd be_val d" using Suc.prems(4) by (auto elim: dvd_trans [rotated])
  have step: "Div_loop (Suc j) a b d m = (if Cmp m t > 0 then Div_loop j a b d m
      else if Cmp a t < 0 then Div_loop j a b d m else Div_loop j a b e t)"
    by (simp add: t_def e_def i_def Let_def)
  show ?case
  proof (cases "be_val e * be_val b \<le> be_val a")
    case True
    have "be_val a < 256 ^ length a" by (rule be_val_less)
    then have t: "be_val t = be_val e * be_val b" using tv new True by simp
    have "be_val m \<le> be_val t" "be_val t \<le> be_val a" using True new t by simp_all
    then have "Cmp m t \<le> 0" "Cmp a t \<ge> 0" by (auto simp: Cmp_sgn sgn_if)
    with step Suc.prems(8) have rec: "Div_loop j a b e t = (d', m')" by simp
    have len: "length e = length d" by (simp add: e_def)
    show ?thesis
      using Suc.IH [of e t, OF _ lt _ _ t _ _ rec] Suc.prems(1,3,7) d2 dv t True len
      by (auto simp: add.assoc mult_2 [symmetric])
  next
    case False
    have skip: "Div_loop j a b d m = (d', m')"
    proof (cases "be_val b * 2 ^ j + be_val m < 256 ^ length a")
      case True
      then have "be_val t = be_val e * be_val b" using tv new by simp
      then have "be_val a < be_val t" using False by simp
      then have "Cmp a t < 0" by (simp add: Cmp_sgn)
      with step Suc.prems(8) show ?thesis by (simp split: if_splits)
    next
      case ov: False
      have "be_val t \<le> be_val b * 2 ^ j + be_val m - 256 ^ length a"
        using ov tv by (simp add: not_less le_mod_geq)
      then have "be_val t < be_val m"
        using Suc.prems(3) [of j] ov by linarith
      then have "Cmp m t > 0" by (simp add: Cmp_sgn)
      with step Suc.prems(8) show ?thesis by simp
    qed
    have bound: "x < be_val d + 2 ^ j" if "x * be_val b \<le> be_val a" for x
    proof (rule ccontr)
      assume "\<not> ?thesis"
      then have "be_val e * be_val b \<le> x * be_val b" using dv by (intro mult_le_mono1) simp
      with that False show False by simp
    qed
    show ?thesis
      using Suc.IH [of d m, OF _ _ _ d2 _ _ _ skip] Suc.prems bound by auto
  qed
qed

lemma pow256: "(256::nat) ^ n = 2 ^ (8 * n)"
  by (simp add: power_mult)

lemma Div_spec:
  assumes "0 < nDst" and "be_val b \<noteq> 0 \<or> nDst \<le> length a" and "Div nDst a b = (q, m)"
  shows "length q = nDst \<and> length m = length a \<and> be_val m = be_val q * be_val b \<and> be_val m \<le> be_val a \<and>
    (\<forall>x. x < 256 ^ nDst \<longrightarrow> x * be_val b \<le> be_val a \<longrightarrow> x \<le> be_val q)"
proof (cases "GetOrder b > 8 * length a")
  case True
  then have "be_val b \<noteq> 0" using GetOrder_zero_iff [of b] by force
  then have "2 ^ (GetOrder b - 1) \<le> be_val b" using GetOrder_bounds by blast
  moreover have "be_val a < 2 ^ (GetOrder b - 1)"
  proof -
    have "be_val a < 2 ^ (8 * length a)" using be_val_less [of a] by (simp add: pow256)
    also have "\<dots> \<le> 2 ^ (GetOrder b - 1)" using True by (intro power_increasing) simp_all
    finally show ?thesis .
  qed
  ultimately have ab: "be_val a < be_val b" by simp
  have "x = 0" if "x * be_val b \<le> be_val a" for x
    using that ab by (cases x) auto
  with True assms(3) show ?thesis by (auto simp: Div_def Let_def be_simps)
next
  case False
  define k where "k = 1 + min (8 * length a - GetOrder b) (8 * nDst - 1)"
  have run: "Div_loop k a b (memset0 nDst) (memset0 (length a)) = (q, m)"
    using False assms(3) by (simp only: Div_def k_def Let_def if_False)
  have k: "k \<le> 8 * nDst" using assms(1) by (simp add: k_def)
  have shift: "be_val b * 2 ^ j < 256 ^ length a" if "j < k" for j
  proof (cases "be_val b = 0")
    case False
    have "be_val b * 2 ^ j < 2 ^ GetOrder b * 2 ^ j" using GetOrder_bounds [OF False] by simp
    also have "\<dots> = 2 ^ (GetOrder b + j)" by (simp add: power_add)
    also have "\<dots> \<le> 2 ^ (8 * length a)"
      using that \<open>\<not> GetOrder b > 8 * length a\<close> by (intro power_increasing) (simp_all add: k_def)
    finally show ?thesis by (simp add: pow256)
  qed simp
  have cap: "x < 2 ^ k" if "x < 256 ^ nDst" "x * be_val b \<le> be_val a" for x
  proof (cases "8 * nDst - 1 \<le> 8 * length a - GetOrder b")
    case True
    then have "k = 8 * nDst" using assms(1) by (simp add: k_def)
    then show ?thesis using that(1) by (simp add: pow256)
  next
    case lt: False
    have b0: "be_val b \<noteq> 0"
    proof
      assume "be_val b = 0"
      then have "GetOrder b = 0" and "nDst \<le> length a" using assms(2) by (simp_all add: GetOrder_zero_iff)
      with lt show False by simp
    qed
    have o: "0 < GetOrder b" using b0 GetOrder_zero_iff [of b] by simp
    have "x * 2 ^ (GetOrder b - 1) \<le> x * be_val b" using GetOrder_bounds [OF b0] by simp
    also have "\<dots> < 2 ^ (8 * length a)" using that(2) be_val_less [of a] by (simp add: pow256)
    also have "8 * length a = k + (GetOrder b - 1)" using lt o False by (simp add: k_def)
    also have "(2::nat) ^ (k + (GetOrder b - 1)) = 2 ^ k * 2 ^ (GetOrder b - 1)" by (simp add: power_add)
    finally show ?thesis by simp
  qed
  have "length q = length (memset0 nDst) \<and> length m = length a \<and>
    be_val m = be_val q * be_val b \<and> be_val m \<le> be_val a \<and>
    (\<forall>x. x < 256 ^ length (memset0 nDst) \<longrightarrow> x * be_val b \<le> be_val a \<longrightarrow> x \<le> be_val q)"
    by (rule Div_loop_spec [OF _ _ _ _ _ _ _ run])
       (use k shift cap in \<open>auto simp: be_simps\<close>)
  then show ?thesis by simp
qed

subsection \<open>Uniform sampling below a threshold\<close>

definition Accept :: "bytes \<Rightarrow> bytes \<Rightarrow> nat \<Rightarrow> bytes \<times> bool" where
  "Accept pDst pThr nThrOrder =
     (if nThrOrder = 0 then (pDst, False)
      else
        let t = nThrOrder - 1;
            nOffs = length pDst - 1 - t div 8;
            msk = push_bit (t mod 8) 2 - 1 :: u8;
            p = pDst[nOffs := pDst ! nOffs AND msk]
        in if memcmp (drop nOffs p) (drop nOffs pThr) \<ge> 0 then (p, False)
           else (memset0 nOffs @ drop nOffs p, True))"

lemma push_bit_2_minus_1: "t < 8 \<Longrightarrow> push_bit t 2 - 1 = (mask (Suc t) :: u8)"
  by (simp add: mask_eq_exp_minus_1 push_bit_eq_mult mult.commute)

lemma unat_and_mask: "unat (b AND mask n) = unat (b :: 'a::len word) mod 2 ^ n"
  by (simp add: unsigned_take_bit_eq flip: take_bit_eq_mask) (simp add: take_bit_eq_mod)

lemma Accept_spec:
  assumes "length p = length thr" and "be_val thr \<noteq> 0"
    and "r = be_val p mod 2 ^ GetOrder thr"
  shows "snd (Accept p thr (GetOrder thr)) = (r < be_val thr) \<and>
    (r < be_val thr \<longrightarrow> be_val (fst (Accept p thr (GetOrder thr))) = r)"
proof -
  define t where "t = GetOrder thr - 1"
  define offs where "offs = length p - 1 - t div 8"
  define q where "q = p[offs := p ! offs AND (push_bit (t mod 8) 2 - 1)]"
  have o: "GetOrder thr \<noteq> 0" using assms(2) by (simp add: GetOrder_zero_iff)
  have bnd: "2 ^ t \<le> be_val thr" "be_val thr < 2 ^ Suc t"
    using GetOrder_bounds [OF assms(2)] o by (simp_all add: t_def)
  have "(2::nat) ^ t < 2 ^ (8 * length thr)"
    using bnd(1) be_val_less [of thr] by (simp add: power_mult)
  then have t: "t < 8 * length p" using assms(1) by simp
  have offs: "offs < length p" "length p - Suc offs = t div 8" using t by (auto simp: offs_def)
  have lq: "length q = length p" by (simp add: q_def)
  have "be_val (drop offs q) = unat (q ! offs) * 256 ^ (t div 8) + be_val (drop (Suc offs) q)"
    using offs lq by (simp add: Cons_nth_drop_Suc [symmetric])
  also have "drop (Suc offs) q = drop (Suc offs) p" by (simp add: q_def)
  also have "unat (q ! offs) = unat (p ! offs) mod 2 ^ Suc (t mod 8)"
    using offs by (simp only: q_def nth_list_update_eq push_bit_2_minus_1 [of "t mod 8", simplified] unat_and_mask)
  also have "\<dots> * 256 ^ (t div 8) + be_val (drop (Suc offs) p) = be_val (drop offs p) mod 2 ^ Suc t"
  proof -
    have "be_val (drop offs p) = unat (p ! offs) * 256 ^ (t div 8) + be_val (drop (Suc offs) p)"
      using offs by (simp add: Cons_nth_drop_Suc [symmetric])
    moreover have "(2::nat) ^ Suc t = 256 ^ (t div 8) * 2 ^ Suc (t mod 8)"
    proof -
      have "(256::nat) ^ (t div 8) = 2 ^ (8 * (t div 8))" by (simp add: power_mult)
      then show ?thesis by (simp flip: power_Suc power_add)
    qed
    moreover have "be_val (drop (Suc offs) p) < 256 ^ (t div 8)"
      using be_val_less_pow [of "drop (Suc offs) p" "t div 8"] offs by simp
    ultimately show ?thesis by (simp only: mod_digit)
  qed
  also have "be_val (drop offs p) = be_val p mod 256 ^ Suc (t div 8)"
    using offs by (simp only: be_val_drop) (metis Suc_diff_Suc)
  also have "\<dots> mod 2 ^ Suc t = be_val p mod 2 ^ Suc t"
  proof (rule mod_mod_cancel)
    have "(256::nat) ^ Suc (t div 8) = 2 ^ (8 * Suc (t div 8))" by (simp only: power_mult) simp
    then show "(2::nat) ^ Suc t dvd 256 ^ Suc (t div 8)"
      by (metis Suc_leI dividend_less_times_div le_imp_power_dvd zero_less_numeral mult_Suc_right add.commute)
  qed
  finally have qv: "be_val (drop offs q) = r" using o by (simp add: assms(3) t_def)
  have "be_val thr mod 2 ^ Suc t = be_val thr" using bnd(2) by simp
  have "be_val (take offs thr) = be_val thr div 256 ^ Suc (t div 8)"
    using offs assms(1) by (simp only: be_val_take) (metis Suc_diff_Suc)
  also have "\<dots> = 0"
  proof (rule div_less)
    have "be_val thr < 2 ^ (8 * Suc (t div 8))"
    proof (rule less_le_trans [OF bnd(2)])
      have "Suc t \<le> 8 * Suc (t div 8)" by presburger
      then show "(2::nat) ^ Suc t \<le> 2 ^ (8 * Suc (t div 8))" by (intro power_increasing) simp_all
    qed
    then show "be_val thr < 256 ^ Suc (t div 8)" by (simp only: power_mult) simp
  qed
  finally have tv: "be_val (drop offs thr) = be_val thr"
    using be_val_split [of thr offs] by simp
  have cmp: "memcmp (drop offs q) (drop offs thr) = sgn (int r - int (be_val thr))"
    using memcmp_sgn [of "drop offs q" "drop offs thr"] lq assms(1) qv tv by simp
  have A: "Accept p thr (GetOrder thr) =
      (if memcmp (drop offs q) (drop offs thr) \<ge> 0 then (q, False) else (memset0 offs @ drop offs q, True))"
    using o by (simp only: Accept_def Let_def t_def [symmetric] offs_def [symmetric] q_def [symmetric]
        if_False)
  show ?thesis using cmp qv by (auto simp: A be_simps sgn_if)
qed

subsection \<open>Ordinal values to and from byte arrays\<close>

text \<open>
  The template argument \<open>T\<close> is an unsigned type of \<open>LENGTH('a)\<close> bits, so \<open>sizeof(x)\<close> is
  \<open>LENGTH('a) div 8\<close>.
\<close>

fun AssignRange_loop :: "nat \<Rightarrow> nat \<Rightarrow> 'a::len word \<Rightarrow> bytes \<Rightarrow> bytes" where
  "AssignRange_loop 0 base x p = p"
| "AssignRange_loop (Suc i) base x p =
     AssignRange_loop i base (drop_bit 8 x) (p[base + i := ucast x])"

definition AssignRangeAligned :: "bytes \<Rightarrow> 'a::len word \<Rightarrow> nat \<Rightarrow> nat \<Rightarrow> bytes" where
  "AssignRangeAligned p x nOffsetBytes nBytesX =
     AssignRange_loop nBytesX (length p - (nOffsetBytes + nBytesX)) x p"

definition AssignRangeAlignedSafe :: "bytes \<Rightarrow> 'a::len word \<Rightarrow> nat \<Rightarrow> nat \<Rightarrow> bytes \<times> bool" where
  "AssignRangeAlignedSafe p x nOffsetBytes nBytesX =
     (if length p < nOffsetBytes then (p, False)
      else
        let n = length p - nOffsetBytes; b = (nBytesX \<le> n)
        in (AssignRangeAligned p x nOffsetBytes (if b then nBytesX else n), b))"

definition AssignSafe :: "bytes \<Rightarrow> 'a::len word \<Rightarrow> nat \<Rightarrow> bytes \<times> bool" where
  "AssignSafe p x nOffset =
     (let nOffsetBytes = nOffset div 8; bits = nOffset mod 8; sz = LENGTH('a) div 8;
          (p1, ok) = AssignRangeAlignedSafe p (push_bit bits x) nOffsetBytes sz
      in if \<not> ok then (p1, False)
         else if bits \<noteq> 0 then
           (if length p - 1 < nOffsetBytes + sz then (p1, False)
            else (p1[length p - 1 - (nOffsetBytes + sz) := ucast (drop_bit (8 * sz - bits) x)], True))
         else (p1, True))"

definition ExportAligned :: "bytes \<Rightarrow> 'a::len word" where
  "ExportAligned p = foldl (\<lambda>out b. push_bit 8 out OR ucast b) (ucast (p ! 0)) (tl p)"

definition AssignOrdinal :: "nat \<Rightarrow> 'a::len word \<Rightarrow> bytes" where
  "AssignOrdinal nBytes x = AssignRangeAligned (memset0 nBytes) x 0 (LENGTH('a) div 8)"

definition uintBigFrom :: "'a::len word \<Rightarrow> bytes" where
  "uintBigFrom x = AssignOrdinal (LENGTH('a) div 8) x"

lemma AssignRange_loop_spec:
  "base + n \<le> length p \<Longrightarrow>
     length (AssignRange_loop n base x p) = length p \<and>
     take base (AssignRange_loop n base x p) = take base p \<and>
     drop (base + n) (AssignRange_loop n base x p) = drop (base + n) p \<and>
     be_val (drop base (take (base + n) (AssignRange_loop n base x p))) = unat x mod 256 ^ n"
proof (induction n arbitrary: x p)
  case (Suc n)
  let ?p = "p[base + n := ucast x]"
  let ?r = "AssignRange_loop n base (drop_bit 8 x) ?p"
  have IH: "length ?r = length p" "take base ?r = take base p" "drop (base + n) ?r = drop (base + n) ?p"
    "be_val (drop base (take (base + n) ?r)) = unat x div 256 mod 256 ^ n"
    using Suc.IH [of ?p "drop_bit 8 x"] Suc.prems by (auto simp: unat_drop_bit_div)
  have "?r ! (base + n) = ucast x \<and> drop (base + Suc n) ?r = drop (base + Suc n) p"
    using IH(1,3) Suc.prems by (simp add: Cons_nth_drop_Suc [symmetric])
  moreover have "unat (ucast x :: u8) = unat x mod 256"
    by (simp add: unsigned_ucast_eq take_bit_eq_mod)
  moreover have "drop base (take (base + Suc n) ?r) = drop base (take (base + n) ?r) @ [?r ! (base + n)]"
    using IH(1) Suc.prems by (simp add: take_Suc_conv_app_nth)
  ultimately show ?case
    using IH by (simp add: be_val_snoc mod_mult2_eq)
qed simp

lemma AssignRangeAligned_spec:
  assumes "off + n \<le> length p" and "be_val p = 0"
  shows "length (AssignRangeAligned p x off n) = length p \<and>
    be_val (AssignRangeAligned p x off n) = unat x mod 256 ^ n * 256 ^ off"
proof -
  define base where "base = length p - (off + n)"
  define r where "r = AssignRange_loop n base x p"
  have base: "length p = base + n + off" using assms(1) by (simp add: base_def)
  have S: "length r = length p" "take base r = take base p" "drop (base + n) r = drop (base + n) p"
    "be_val (drop base (take (base + n) r)) = unat x mod 256 ^ n"
    using AssignRange_loop_spec [of base n p x] base by (auto simp: r_def)
  have z: "be_val (take k p) = 0" "be_val (drop k p) = 0" for k
    using assms(2) by (simp_all add: be_val_take be_val_drop)
  have "be_val r = be_val (take (base + n) r) * 256 ^ off + be_val (drop (base + n) r)"
    using be_val_split [of r "base + n"] S(1) base by simp
  also have "be_val (take (base + n) r) = be_val (take base r) * 256 ^ n + be_val (drop base (take (base + n) r))"
    using be_val_split [of "take (base + n) r" base] S(1) base by (simp add: min_def)
  finally show ?thesis using S z by (simp add: AssignRangeAligned_def base_def [symmetric] r_def [symmetric])
qed

lemma AssignSafe_val:
  assumes "LENGTH('a) = 8 * sz" and "be_val p = 0" and "p \<noteq> []"
  shows "length (fst (AssignSafe p (x :: 'a::len word) k)) = length p \<and>
    be_val (fst (AssignSafe p x k)) = unat x * 2 ^ k mod 256 ^ length p"
proof -
  define ob where "ob = k div 8"
  define b where "b = k mod 8"
  define L where "L = length p"
  have sz: "LENGTH('a) div 8 = sz" using assms(1) by simp
  have pk: "(2::nat) ^ k = 2 ^ b * 256 ^ ob"
  proof -
    have "(256::nat) ^ ob = 2 ^ (8 * ob)" by (simp add: power_mult)
    then show ?thesis by (simp add: ob_def b_def flip: power_add)
  qed
  have x: "unat x < 256 ^ sz" using unsigned_less [of x, where 'a = nat] by (simp add: assms(1) power_mult)
  have px: "unat (push_bit b x) = unat x * 2 ^ b mod 256 ^ sz"
    by (simp add: unat_push_bit assms(1) power_mult)
  have fit: "y * 256 ^ ob mod 256 ^ (n + ob) = y mod 256 ^ n * 256 ^ ob" for y n :: nat
    by (simp add: power_add mult_mod_left)
  define q where "q = AssignRangeAligned p (push_bit b x) ob"
  have qs: "length (q n) = L \<and> be_val (q n) = unat x * 2 ^ b mod 256 ^ sz mod 256 ^ n * 256 ^ ob"
    if "ob + n \<le> L" for n
    using AssignRangeAligned_spec [of ob n p "push_bit b x"] that assms(2) px by (simp add: q_def L_def)
  have A: "AssignSafe p x k =
     (if L < ob then (p, False)
      else if sz > L - ob then (q (L - ob), False)
      else if b = 0 then (q sz, True)
      else if L - 1 < ob + sz then (q sz, False)
      else ((q sz)[L - 1 - (ob + sz) := ucast (drop_bit (8 * sz - b) x)], True))"
    by (simp add: AssignSafe_def AssignRangeAlignedSafe_def Let_def sz ob_def [symmetric] b_def [symmetric]
        L_def [symmetric] q_def not_le)
  consider "L < ob" | "ob \<le> L" "sz > L - ob" | "ob \<le> L" "sz \<le> L - ob" "b = 0 \<or> L - 1 < ob + sz"
    | "ob \<le> L" "sz \<le> L - ob" "b \<noteq> 0" "ob + sz \<le> L - 1" by linarith
  then show ?thesis
  proof cases
    case 1
    then have "(256::nat) ^ L dvd 256 ^ ob" by (intro le_imp_power_dvd) simp
    then show ?thesis using 1 assms(2) by (simp add: A pk L_def [symmetric] mod_eq_0_iff_dvd)
  next
    case 2
    then have "(256::nat) ^ (L - ob) dvd 256 ^ sz" by (intro le_imp_power_dvd) simp
    with 2 qs [of "L - ob"] fit [of "unat x * 2 ^ b" "L - ob"] show ?thesis
      by (simp add: A pk L_def [symmetric] mod_mod_cancel mult.assoc [symmetric])
  next
    case 3
    have "unat x * 2 ^ b mod 256 ^ sz * 256 ^ ob = unat x * 2 ^ b * 256 ^ ob mod 256 ^ L"
    proof (cases "b = 0")
      case True
      have "unat x * 256 ^ ob < 256 ^ (sz + ob)" using x by (simp add: power_add)
      also have "\<dots> \<le> 256 ^ L" using 3 by (intro power_increasing) simp_all
      finally show ?thesis using True x by simp
    next
      case False
      with 3 assms(3) have "L = sz + ob" by (simp add: L_def)
      then show ?thesis by (simp only: fit)
    qed
    with 3 qs [of sz] show ?thesis by (auto simp: A pk L_def [symmetric] mult.assoc [symmetric])
  next
    case 4
    define i where "i = L - 1 - (ob + sz)"
    have i: "i < L" "L - Suc i = ob + sz" using 4 assms(3) by (auto simp: i_def L_def)
    have q: "length (q sz) = L" "be_val (q sz) = unat x * 2 ^ b mod 256 ^ sz * 256 ^ ob" using qs [of sz] 4 by simp_all
    have "be_val (q sz) < 256 ^ (ob + sz)" by (simp add: q(2) power_add)
    then have z: "unat (q sz ! i) = 0" using be_val_nth [of i "q sz"] q(1) i by simp
    have b8: "b < 8" by (simp add: b_def)
    have szp: "0 < sz" using assms(1) len_gt_0 [where 'a = 'a] by (simp del: len_gt_0)
    have pw: "(256::nat) ^ sz = 2 ^ (8 * sz - b) * 2 ^ b"
      using b8 szp by (simp add: power_mult [symmetric] flip: power_add) (simp add: power_mult)
    have hi: "unat x * 2 ^ b div 256 ^ sz = unat x div 2 ^ (8 * sz - b)"
      unfolding pw by (simp add: div_mult_mult2)
    have "unat x div 2 ^ (8 * sz - b) < 2 ^ b"
      using x unfolding pw by (simp add: div_less_iff_less_mult mult.commute)
    also have "(2::nat) ^ b \<le> 2 ^ 8" using b8 by (intro power_increasing) simp_all
    finally have "unat (ucast (drop_bit (8 * sz - b) x) :: u8) = unat x * 2 ^ b div 256 ^ sz"
      by (simp add: unsigned_ucast_eq take_bit_eq_mod unat_drop_bit_div hi)
    moreover have "fst (AssignSafe p x k) = (q sz)[i := ucast (drop_bit (8 * sz - b) x)]"
      using 4 by (simp add: A i_def)
    ultimately have "be_val (fst (AssignSafe p x k))
        = be_val (q sz) + (unat x * 2 ^ b div 256 ^ sz) * 256 ^ (ob + sz)"
      using be_val_update [of i "q sz" "ucast (drop_bit (8 * sz - b) x)"] q(1) i z by simp
    also have "\<dots> = (unat x * 2 ^ b mod 256 ^ sz + 256 ^ sz * (unat x * 2 ^ b div 256 ^ sz)) * 256 ^ ob"
      by (simp only: q(2) power_add distrib_left distrib_right mult_ac)
    also have "\<dots> = unat x * 2 ^ k" by (simp only: mod_mult_div_eq pk mult.assoc)
    finally have v: "be_val (fst (AssignSafe p x k)) = unat x * 2 ^ k" .
    have l: "length (fst (AssignSafe p x k)) = L" using 4 q(1) by (simp add: A)
    then have "unat x * 2 ^ k < 256 ^ L" using be_val_less [of "fst (AssignSafe p x k)"] v by simp
    then show ?thesis using v l by (simp add: L_def)
  qed
qed

lemma ExportAligned_val: "p \<noteq> [] \<Longrightarrow> ExportAligned p = (of_nat (be_val p) :: 'a::len word)"
proof -
  have disj: "push_bit 8 out AND ucast (c :: u8) = (0 :: 'a word)" for out c
    by (rule bit_eqI) (auto simp: bit_simps dest: bit_imp_le_length)
  have step: "foldl (\<lambda>out b. push_bit 8 out OR ucast b) (acc :: 'a word) bs
      = acc * 256 ^ length bs + of_nat (be_val bs)" for acc bs
  proof (induction bs arbitrary: acc)
    case (Cons c bs)
    have "push_bit 8 acc OR ucast c = acc * 256 + of_nat (unat c)"
      using disjunctive_add_eq_or [OF disj] by (simp add: push_bit_eq_mult)
    with Cons show ?case by (simp add: algebra_simps)
  qed simp
  assume "p \<noteq> []"
  then show ?thesis by (cases p) (simp_all add: ExportAligned_def step)
qed

lemma AssignOrdinal_val:
  assumes "LENGTH('a) = 8 * sz" and "sz \<le> n"
  shows "length (AssignOrdinal n (x :: 'a::len word)) = n \<and> be_val (AssignOrdinal n x) = unat x"
proof -
  have "unat x < 256 ^ sz" using unsigned_less [of x, where 'a = nat] by (simp add: assms(1) power_mult)
  then show ?thesis
    using AssignRangeAligned_spec [of 0 sz "memset0 n" x] assms by (simp add: AssignOrdinal_def be_simps)
qed

lemma uintBigFrom_val:
  assumes "8 dvd LENGTH('a)"
  shows "length (uintBigFrom (x :: 'a::len word)) = LENGTH('a) div 8 \<and> be_val (uintBigFrom x) = unat x"
  using AssignOrdinal_val [of "LENGTH('a) div 8" "LENGTH('a) div 8" x] assms
  by (simp add: uintBigFrom_def)

subsection \<open>Hexadecimal text\<close>

definition ChFromHex :: "u8 \<Rightarrow> u8" where
  "ChFromHex v = v + (if v < 10 then 48 else 97 - 10)"

text \<open>\<open>_Print\<close> to a character buffer: two digits a byte, zero-terminated.\<close>

definition Print :: "bytes \<Rightarrow> bytes" where
  "Print p = concat (map (\<lambda>b. [ChFromHex (drop_bit 4 b), ChFromHex (b AND 0xf)]) p) @ [0]"

text \<open>\<open>_Print\<close> to a stream: at most 32 bytes, and the terminator is not written.\<close>

definition PrintStream :: "bytes \<Rightarrow> bytes" where
  "PrintStream p = butlast (Print (take 32 p))"

subsection \<open>Properties\<close>

text \<open>
  C26: the schoolbook multiplication returns exactly \<open>nDst\<close> bytes and their value is the product of
  the operands' values modulo \<open>256 ^ nDst\<close>, for operands of any lengths (aligned at their least
  significant ends).
\<close>

theorem Mul_correct:
  assumes "nDst < 2 ^ 30"
  shows "length (Mul nDst a b) = nDst \<and> be_val (Mul nDst a b) = be_val a * be_val b mod 256 ^ nDst"
  using assms by (rule Mul_spec)

theorem Mul_correct_witness:
  "be_val (Mul 2 [0xff, 0xff] [0x02, 0x03]) = 65535 * 515 mod 65536"
  using Mul_correct [of 2 "[0xff, 0xff]" "[0x02, 0x03]"] by simp

text \<open>
  C27: the bit-wise division returns the largest quotient that fits the destination and whose product
  with the divisor does not exceed the dividend, and leaves that product in the second result; the
  hypothesis excludes only a zero divisor with a destination wider than the dividend.
\<close>

theorem Div_correct:
  assumes "0 < nDst" and "be_val b \<noteq> 0 \<or> nDst \<le> length a"
  shows "length (fst (Div nDst a b)) = nDst \<and>
    be_val (snd (Div nDst a b)) = be_val (fst (Div nDst a b)) * be_val b \<and>
    be_val (snd (Div nDst a b)) \<le> be_val a \<and>
    (\<forall>x. x < 256 ^ nDst \<longrightarrow> x * be_val b \<le> be_val a \<longrightarrow> x \<le> be_val (fst (Div nDst a b)))"
  using Div_spec [OF assms, of "fst (Div nDst a b)" "snd (Div nDst a b)"] by simp

theorem Div_correct_witness:
  "3 \<le> be_val (fst (Div 1 [1, 0] [80])) \<and> be_val (fst (Div 1 [1, 0] [80])) * 80 \<le> 256"
  using Div_correct [of 1 "[80]" "[1, 0]"] by simp

text \<open>
  C32: the shifts by any number of bits are the division and the multiplication by a power of two,
  truncated to the destination.
\<close>

theorem Shift_correct:
  "be_val (ShiftRight nDst p k) = be_val p div 2 ^ k mod 256 ^ nDst \<and>
   be_val (ShiftLeft nDst p k) = be_val p * 2 ^ k mod 256 ^ nDst"
  by (simp only: ShiftRight_val ShiftLeft_val)

text \<open>
  C33: comparison of numbers of different sizes is the comparison of their values, and the order of
  a number is its bit length: zero for zero, otherwise one more than the exponent of its highest
  power of two.
\<close>

theorem Cmp_GetOrder_correct:
  "Cmp a b = sgn (int (be_val a) - int (be_val b)) \<and>
   (if be_val p = 0 then GetOrder p = 0
    else 0 < GetOrder p \<and> 2 ^ (GetOrder p - 1) \<le> be_val p \<and> be_val p < 2 ^ GetOrder p)"
  using Cmp_sgn [of a b] GetOrder_zero_iff [of p] GetOrder_bounds [of p] by auto

text \<open>
  C34: adding the negation of a number of the same size is subtraction modulo the size, so negation
  is two's complement.
\<close>

theorem Inc_Negate_subtracts:
  assumes "length s = length p"
  shows "int (be_val (fst (IncAny p (Negate s)))) = (int (be_val p) - int (be_val s)) mod 256 ^ length p"
proof -
  have "int (be_val (fst (IncAny p (Negate s))))
      = (int (be_val p) + int ((256 ^ length p - be_val s) mod 256 ^ length p)) mod 256 ^ length p"
    by (simp add: IncAny_val Negate_val assms zmod_int)
  also have "\<dots> = (int (be_val p) - int (be_val s)) mod 256 ^ length p"
    using be_val_less [of s] by (simp add: assms zmod_int of_nat_diff mod_add_right_eq)
  finally show ?thesis .
qed

theorem Inc_Negate_subtracts_witness:
  "int (be_val (fst (IncAny [1, 0] (Negate [0, 1])))) = 255 \<and>
   int (be_val (fst (IncAny [0, 0] (Negate [0, 1])))) = 65535"
  using Inc_Negate_subtracts [of "[0, 1]" "[1, 0]"] Inc_Negate_subtracts [of "[0, 1]" "[0, 0]"] by simp

text \<open>
  C35: the threshold sampler accepts a random number exactly when it is below the threshold after the
  bits above the threshold's order are cleared, and then leaves that reduced number, so accepted
  values are uniform below the threshold.
\<close>

theorem Accept_correct:
  assumes "length p = length thr" and "be_val thr \<noteq> 0"
  shows "snd (Accept p thr (GetOrder thr)) = (be_val p mod 2 ^ GetOrder thr < be_val thr) \<and>
    (snd (Accept p thr (GetOrder thr)) \<longrightarrow>
       be_val (fst (Accept p thr (GetOrder thr))) = be_val p mod 2 ^ GetOrder thr)"
  using Accept_spec [OF assms refl] by blast

theorem Accept_correct_witness:
  "snd (Accept [7, 9] [2, 10] (GetOrder [2, 10])) = (be_val [7, 9] mod 2 ^ GetOrder [2, 10] < 522)"
  using Accept_correct [of "[7, 9]" "[2, 10]"] by simp

end
