(* ===== verification/Hex.thy ===== *)
theory Hex
  imports UintBig
begin

section \<open>Hexadecimal strings (utility/helpers.cpp)\<close>

text \<open>
  \<open>to_hex\<close> and \<open>from_hex\<close> of the utility library.  Characters are their ASCII codes.  The zero
  terminator that the buffer variant of \<open>to_hex\<close> writes is left out of the returned string, as in
  the \<open>std::string\<close> variant.
\<close>

unbundle bit_operations_syntax

subsection \<open>Encoding\<close>

definition digits :: bytes where
  "digits = [48, 49, 50, 51, 52, 53, 54, 55, 56, 57, 97, 98, 99, 100, 101, 102]"

primrec to_hex :: "bytes \<Rightarrow> bytes" where
  "to_hex [] = []"
| "to_hex (c # cs) = digits ! unat (drop_bit 4 c) # digits ! unat (c AND 0xF) # to_hex cs"

subsection \<open>Decoding\<close>

text \<open>The value of one digit; \<open>None\<close> is the branch that clears the flag and stops.\<close>

definition hex_digit :: "u8 \<Rightarrow> u8 option" where
  "hex_digit c =
     (if c \<ge> 48 \<and> c \<le> 57 then Some (c - 48)
      else if c \<ge> 97 \<and> c \<le> 102 then Some (10 + (c - 97))
      else if c \<ge> 65 \<and> c \<le> 70 then Some (10 + (c - 65))
      else None)"

fun from_hex_loop :: "nat \<Rightarrow> nat \<Rightarrow> bytes \<Rightarrow> bytes \<Rightarrow> bytes \<times> bool" where
  "from_hex_loop bias i [] res = (res, True)"
| "from_hex_loop bias i (c # str) res =
     (let j = (i + bias) div 2; res' = res[j := push_bit 4 (res ! j)] in
      case hex_digit c of
        Some v \<Rightarrow> from_hex_loop bias (Suc i) str (res'[j := res' ! j + v])
      | None \<Rightarrow> (res', False))"

definition from_hex :: "bytes \<Rightarrow> bytes \<times> bool" where
  "from_hex str =
     (let bias = (if length str mod 2 = 0 then 0 else 1)
      in from_hex_loop bias 0 str (replicate ((length str + bias) div 2) 0))"

subsection \<open>Round trip\<close>

lemma less_16_cases: "i < 16 \<Longrightarrow> i \<in> {0,1,2,3,4,5,6,7,8,9,10,11,12,13,14,15::nat}"
  unfolding insert_iff empty_iff by presburger

lemma digits_ChFromHex: "i < 16 \<Longrightarrow> digits ! i = ChFromHex (of_nat i)"
  by (drule less_16_cases) (auto simp: digits_def ChFromHex_def)

lemma nibbles: "unat (drop_bit 4 (c :: u8)) < 16" "unat (c AND 0xF) < 16"
  "of_nat (unat (drop_bit 4 c)) = drop_bit 4 c"
proof -
  show "unat (drop_bit 4 c) < 16" using unat_u8_less [of c] by (simp add: unat_drop_bit_div)
  have "unat (c AND mask 4) < 16" by (simp add: unat_and_mask)
  then show "unat (c AND 0xF) < 16" by (simp add: mask_eq_exp_minus_1)
qed simp

lemma to_hex_Print: "to_hex p @ [0] = Print p"
proof (induction p)
  case (Cons c p)
  then show ?case using nibbles [of c] by (simp add: Print_def digits_ChFromHex)
qed (simp add: Print_def)

lemma hex_digit_digits: "i < 16 \<Longrightarrow> hex_digit (digits ! i) = Some (of_nat i)"
  by (drule less_16_cases) (auto simp: digits_def hex_digit_def)

lemma nibble_join: "push_bit 4 (drop_bit 4 c) + (c AND 0xF) = (c :: u8)"
proof -
  have "push_bit 4 (drop_bit 4 c) + take_bit 4 c = c" by (rule bits_ident)
  then show ?thesis by (simp add: take_bit_eq_mask mask_eq_exp_minus_1)
qed

lemma from_hex_to_hex_loop:
  "i = 2 * length done \<Longrightarrow>
     from_hex_loop 0 i (to_hex bs) (done @ replicate (length bs) 0) = (done @ bs, True)"
proof (induction bs arbitrary: i "done")
  case (Cons c bs)
  have "from_hex_loop 0 (Suc (Suc i)) (to_hex bs) ((done @ [c]) @ replicate (length bs) 0)
      = ((done @ [c]) @ bs, True)"
    using Cons.IH [of "Suc (Suc i)" "done @ [c]"] Cons.prems by simp
  then show ?case
    using Cons.prems nibbles [of c]
    by (simp add: hex_digit_digits Let_def nth_append list_update_append nibble_join)
qed simp

lemma length_to_hex [simp]: "length (to_hex p) = 2 * length p"
  by (induction p) simp_all

lemma from_hex_to_hex: "from_hex (to_hex bs) = (bs, True)"
  using from_hex_to_hex_loop [of 0 "[]" bs] by (simp add: from_hex_def)

lemma from_hex_loop_flag:
  "snd (from_hex_loop bias i str res) = list_all (\<lambda>c. hex_digit c \<noteq> None) str"
  by (induction bias i str res rule: from_hex_loop.induct) (auto simp: Let_def split: option.splits)

lemma from_hex_loop_length: "length (fst (from_hex_loop bias i str res)) = length res"
  by (induction bias i str res rule: from_hex_loop.induct) (auto simp: Let_def split: option.splits)

text \<open>The hexadecimal digits and their values, as a table of ASCII codes; the number that a string of digits denotes.\<close>

definition hexits :: "u8 \<Rightarrow> nat option" where
  "hexits = map_of
     [(0x30, 0), (0x31, 1), (0x32, 2), (0x33, 3), (0x34, 4), (0x35, 5), (0x36, 6), (0x37, 7), (0x38, 8), (0x39, 9),
      (0x61, 10), (0x62, 11), (0x63, 12), (0x64, 13), (0x65, 14), (0x66, 15),
      (0x41, 10), (0x42, 11), (0x43, 12), (0x44, 13), (0x45, 14), (0x46, 15)]"

definition hex_value :: "nat \<Rightarrow> bytes \<Rightarrow> nat" where
  "hex_value n str = foldl (\<lambda>n c. 16 * n + the (hexits c)) n str"

lemma u8_between: "a \<le> c \<and> c \<le> b \<longleftrightarrow> unat c \<in> set [unat a..<Suc (unat b)]" for a b c :: u8
  by (auto simp: word_le_nat_alt)

lemma hex_digit_hexits: "map_option unat (hex_digit c) = hexits c"
proof -
  have eq: "c = n \<longleftrightarrow> unat c = unat n" for n :: u8 by (rule word_unat_eq_iff)
  consider "c \<ge> 48 \<and> c \<le> 57" | "c \<ge> 97 \<and> c \<le> 102" | "c \<ge> 65 \<and> c \<le> 70"
    | "\<not> (c \<ge> 48 \<and> c \<le> 57)" "\<not> (c \<ge> 97 \<and> c \<le> 102)" "\<not> (c \<ge> 65 \<and> c \<le> 70)" by blast
  then show ?thesis
  proof cases
    case 1
    then have "c \<in> {48, 49, 50, 51, 52, 53, 54, 55, 56, 57}" unfolding u8_between insert_iff empty_iff eq by (simp add: upt_rec)
    then show ?thesis by (auto simp: hex_digit_def hexits_def)
  next
    case 2
    then have "c \<in> {97, 98, 99, 100, 101, 102}" unfolding u8_between insert_iff empty_iff eq by (simp add: upt_rec)
    then show ?thesis by (auto simp: hex_digit_def hexits_def)
  next
    case 3
    then have "c \<in> {65, 66, 67, 68, 69, 70}" unfolding u8_between insert_iff empty_iff eq by (simp add: upt_rec)
    then show ?thesis by (auto simp: hex_digit_def hexits_def)
  next
    case 4
    have "hexits c = None"
      using 4 unfolding hexits_def map_of_eq_None_iff u8_between by (auto simp: upt_rec)
    then show ?thesis using 4 by (auto simp: hex_digit_def)
  qed
qed

lemma hex_digit_16: "hex_digit c = Some v \<Longrightarrow> unat v < 16"
proof -
  assume "hex_digit c = Some v"
  then have "hexits c = Some (unat v)" using hex_digit_hexits [of c] by simp
  then show ?thesis unfolding hexits_def by (drule_tac map_of_SomeD) auto
qed

lemma hex_dom: "hex_digit c \<noteq> None \<longleftrightarrow> c \<in> dom hexits"
  by (cases "hex_digit c") (simp_all add: domIff flip: hex_digit_hexits)

lemma two_digits:
  assumes "unat (v :: u8) < 16" "unat w < 16"
  shows "unat (push_bit 4 (push_bit 4 0 + v) + w) = 16 * unat v + unat w"
proof -
  have "unat (push_bit 4 v) = 16 * unat v" using assms(1) by (simp add: unsigned_push_bit_eq push_bit_nat_def take_bit_nat_eq_self)
  then show ?thesis using assms by (simp add: unat_add_lem [THEN iffD1])
qed

text \<open>Two digits per byte, from a byte boundary.\<close>

lemma from_hex_loop_value:
  assumes "even (length str)" "set str \<subseteq> dom hexits" "i + bias = 2 * length pre"
  shows "\<exists>bs. fst (from_hex_loop bias i str (pre @ replicate (length str div 2) 0)) = pre @ bs \<and> be_val (pre @ bs) = hex_value (be_val pre) str"
  using assms
proof (induction str arbitrary: i pre rule: induct_list012)
  case 1
  then show ?case by (simp add: hex_value_def)
next
  case (2 c)
  then show ?case by simp
next
  case (3 c d str)
  obtain v w where vw: "hex_digit c = Some v" "hex_digit d = Some w" using 3(4) hex_dom [of c] hex_dom [of d] by auto
  let ?b = "push_bit 4 (push_bit 4 0 + v) + w"
  have h: "hexits c = Some (unat v)" "hexits d = Some (unat w)" using vw hex_digit_hexits [of c] hex_digit_hexits [of d] by simp_all
  have j: "(i + bias) div 2 = length pre" "(Suc i + bias) div 2 = length pre" using 3(5) by simp_all
  have "from_hex_loop bias i (c # d # str) (pre @ replicate (length (c # d # str) div 2) 0) =
    from_hex_loop bias (Suc (Suc i)) str ((pre @ [?b]) @ replicate (length str div 2) 0)"
    using vw j by (simp add: Let_def nth_append list_update_append)
  moreover have "\<exists>bs. fst (from_hex_loop bias (Suc (Suc i)) str ((pre @ [?b]) @ replicate (length str div 2) 0)) = (pre @ [?b]) @ bs \<and>
    be_val ((pre @ [?b]) @ bs) = hex_value (be_val (pre @ [?b])) str"
    using 3(3-5) by (intro 3(1)) auto
  moreover have "hex_value (be_val (pre @ [?b])) str = hex_value (be_val pre) (c # d # str)"
    using two_digits [OF hex_digit_16 [OF vw(1)] hex_digit_16 [OF vw(2)]] h by (simp add: hex_value_def be_val_append algebra_simps)
  ultimately show ?case by (metis append.assoc append_Cons append_Nil)
qed

lemma from_hex_value:
  assumes "set str \<subseteq> dom hexits"
  shows "be_val (fst (from_hex str)) = hex_value 0 str"
proof (cases "even (length str)")
  case True
  then show ?thesis using from_hex_loop_value [of str 0 0 "[]"] assms by (auto simp: from_hex_def even_iff_mod_2_eq_zero)
next
  case False
  then obtain c s where s: "str = c # s" "even (length s)" by (cases str) auto
  obtain v where v: "hex_digit c = Some v" using assms s hex_dom [of c] by auto
  have h: "hexits c = Some (unat v)" using v hex_digit_hexits [of c] by simp
  have "from_hex str = from_hex_loop 1 (Suc 0) s ([v] @ replicate (length s div 2) 0)"
    using False s v by (simp add: from_hex_def Let_def even_iff_mod_2_eq_zero)
  then show ?thesis using from_hex_loop_value [of s "Suc 0" 1 "[v]"] assms s h by (auto simp: hex_value_def)
qed

text \<open>
  C36: decoding the hexadecimal print of a byte string gives the string back with the success flag
  set.  For any input, of even or odd length and in either case, the flag tells whether all characters are
  hexadecimal digits, and then the bytes are, as a number, the number the digits denote.
\<close>

theorem hex_roundtrip:
  "from_hex (to_hex bs) = (bs, True) \<and> (snd (from_hex str) \<longleftrightarrow> set str \<subseteq> dom hexits) \<and>
   (set str \<subseteq> dom hexits \<longrightarrow> be_val (fst (from_hex str)) = hex_value 0 str)"
proof -
  have "snd (from_hex str) \<longleftrightarrow> set str \<subseteq> dom hexits"
    unfolding from_hex_def Let_def from_hex_loop_flag list_all_iff hex_dom by auto
  then show ?thesis using from_hex_to_hex [of bs] from_hex_value [of str] by blast
qed

theorem hex_roundtrip_witness:
  "set [0x61, 0x42, 0x39] \<subseteq> dom hexits \<and> be_val (fst (from_hex [0x61, 0x42, 0x39])) = 0xAB9"
proof -
  have "set [0x61, 0x42, 0x39] \<subseteq> dom hexits" by (simp add: hexits_def)
  then show ?thesis using hex_roundtrip [of "[]" "[0x61, 0x42, 0x39]"] by (simp add: hex_value_def hexits_def)
qed

end
