(* ===== verification/Difficulty.thy ===== *)
theory Difficulty
  imports UintBig Complex_Main
begin

section \<open>Proof-of-work difficulty (core/difficulty.h, core/difficulty.cpp)\<close>

text \<open>
  A difficulty is a packed floating-point number: 24 bits of mantissa below an implicit leading
  one, and the binary order above them.  \<open>Raw\<close> is the 256-bit fixed-point value (32 bytes, 24
  fraction bits).  An \<open>int\<close> member is an \<open>int\<close>, an unsigned one a word of its width.
\<close>

unbundle bit_operations_syntax

record Difficulty =
  m_Packed :: u32

definition s_MantissaBits :: nat where
  "s_MantissaBits = 24"

definition Raw_nBytes :: nat where
  "Raw_nBytes = 32"

definition s_MaxOrder :: u32 where
  "s_MaxOrder = of_nat (8 * Raw_nBytes - s_MantissaBits - 1)"

definition s_Inf :: u32 where
  "s_Inf = push_bit s_MantissaBits (s_MaxOrder + 1)"

subsection \<open>Packing\<close>

definition Pack :: "u32 \<Rightarrow> u32 \<Rightarrow> Difficulty" where
  "Pack order mantissa =
     (if order \<le> s_MaxOrder then
        \<lparr>m_Packed = (mantissa AND (push_bit s_MantissaBits 1 - 1)) OR push_bit s_MantissaBits order\<rparr>
      else \<lparr>m_Packed = s_Inf\<rparr>)"

definition Unpack :: "Difficulty \<Rightarrow> u32 \<times> u32" where
  "Unpack d =
     (let nLeadingBit = push_bit s_MantissaBits 1
      in (drop_bit s_MantissaBits (m_Packed d), nLeadingBit OR (m_Packed d AND (nLeadingBit - 1))))"

definition UnpackRaw :: "Difficulty \<Rightarrow> bytes" where
  "UnpackRaw d =
     (let res = memset0 Raw_nBytes in
      if m_Packed d < s_Inf then
        let (order, mantissa) = Unpack d in fst (AssignSafe res mantissa (unat order))
      else Inv res)"

subsection \<open>Targets\<close>

definition IsTargetReached :: "Difficulty \<Rightarrow> bytes \<Rightarrow> bool" where
  "IsTargetReached d hv =
     (if m_Packed d > s_Inf then False
      else
        let val = UnpackRaw d; a = Mul (length hv + Raw_nBytes) hv val
        in memis0 (take (Raw_nBytes - s_MantissaBits div 8) a))"

definition get_Target :: "Difficulty \<Rightarrow> bytes \<times> bool" where
  "get_Target d =
     (if m_Packed d > s_Inf then (memset0 32, False)
      else
        let rDiff = UnpackRaw d; rMax = replicate (Raw_nBytes + s_MantissaBits div 8) 0xff
        in (fst (Div 32 rMax rDiff), True))"

subsection \<open>Accumulated work\<close>

definition raw_plus :: "bytes \<Rightarrow> Difficulty \<Rightarrow> bytes" where
  "raw_plus base d = fst (IncAny (UnpackRaw d) base)"

definition raw_plus_assign :: "bytes \<Rightarrow> Difficulty \<Rightarrow> bytes" where
  "raw_plus_assign res d = fst (IncAny res (UnpackRaw d))"

definition raw_minus :: "bytes \<Rightarrow> Difficulty \<Rightarrow> bytes" where
  "raw_minus base d = fst (IncAny (Negate (UnpackRaw d)) base)"

definition raw_minus_assign :: "bytes \<Rightarrow> Difficulty \<Rightarrow> bytes" where
  "raw_minus_assign res d = fst (IncAny res (Negate (UnpackRaw d)))"

subsection \<open>Difficulty adjustment\<close>

record BigFloat =
  m_Order :: int
  m_Value :: u32

definition BigFloat_nBits :: nat where
  "BigFloat_nBits = 32"

definition BigFloat_of :: "bytes \<Rightarrow> BigFloat" where
  "BigFloat_of val =
     (let nOrder = GetOrder val in
      if nOrder \<noteq> 0 then
        let ord = int nOrder - int BigFloat_nBits;
            x = (if ord > 0 then ShiftRight 4 val (nat ord) else ShiftLeft 4 val (nat (- ord)))
        in \<lparr>m_Order = ord, m_Value = ExportAligned x\<rparr>
      else \<lparr>m_Order = 0, m_Value = 0\<rparr>)"

definition BigFloat_mul :: "BigFloat \<Rightarrow> BigFloat \<Rightarrow> BigFloat" where
  "BigFloat_mul a x =
     (let val = ucast (m_Value a) * ucast (m_Value x) :: u64;
          res = BigFloat_of (uintBigFrom val)
      in res\<lparr>m_Order := m_Order res + (m_Order a + m_Order x)\<rparr>)"

text \<open>\<open>None\<close> is the division by zero that the source guards by an assertion only.\<close>

definition BigFloat_div :: "BigFloat \<Rightarrow> BigFloat \<Rightarrow> BigFloat option" where
  "BigFloat_div a x =
     (if m_Value x = 0 then None
      else
        let val = push_bit BigFloat_nBits (ucast (m_Value a)) div ucast (m_Value x) :: u64;
            res = BigFloat_of (uintBigFrom val)
        in Some (res\<lparr>m_Order := m_Order res + (m_Order a - (m_Order x + int BigFloat_nBits))\<rparr>))"

definition Calculate :: "bytes \<Rightarrow> u32 \<Rightarrow> u32 \<Rightarrow> u32 \<Rightarrow> Difficulty option" where
  "Calculate ref dh dtTrg_s dtSrc_s =
     (let dv = ucast dtSrc_s * ucast dh :: u64 in
      case BigFloat_div (BigFloat_mul (BigFloat_of ref) (BigFloat_of (uintBigFrom dtTrg_s)))
             (BigFloat_of (uintBigFrom dv)) of
        None \<Rightarrow> None
      | Some x \<Rightarrow>
          (if m_Value x \<noteq> 0 then
             let ord = m_Order x + (int BigFloat_nBits - 1 - int s_MantissaBits)
             in if ord \<ge> 0 then
                  Some (Pack (of_int ord) (drop_bit (BigFloat_nBits - 1 - s_MantissaBits) (m_Value x)))
                else Some \<lparr>m_Packed = 0\<rparr>
           else Some \<lparr>m_Packed = 0\<rparr>))"

lemmas difficulty_consts = s_MantissaBits_def Raw_nBytes_def s_MaxOrder_def s_Inf_def BigFloat_nBits_def

subsection \<open>Packing and unpacking\<close>

lemma packed_consts:
  "s_MaxOrder = 231" "s_Inf = 0xE8000000" "unat s_Inf = 0xE8000000"
  by (simp_all add: difficulty_consts push_bit_eq_mult)

lemma mantissa_mask: "(x :: u32) AND (push_bit 24 1 - 1) = take_bit 24 x"
  "(x :: u32) AND 0xFFFFFF = take_bit 24 x"
  by (simp_all add: take_bit_eq_mask mask_eq_exp_minus_1)

lemma push_take_disjoint: "push_bit n (a :: 'a::len word) AND take_bit n b = 0"
  by (rule bit_eqI) (auto simp: bit_simps)

lemma Unpack_val:
  "unat (fst (Unpack d)) = unat (m_Packed d) div 2 ^ 24 \<and>
   unat (snd (Unpack d)) = 2 ^ 24 + unat (m_Packed d) mod 2 ^ 24"
proof -
  have "push_bit 24 1 AND take_bit 24 (m_Packed d) = 0"
    by (rule push_take_disjoint)
  then have "unat (push_bit 24 1 OR take_bit 24 (m_Packed d)) = 2 ^ 24 + unat (m_Packed d) mod 2 ^ 24"
    by (simp add: unat_or_disjoint unsigned_take_bit_eq) (simp add: take_bit_eq_mod)
  then show ?thesis
    by (simp add: Unpack_def Let_def s_MantissaBits_def mantissa_mask unat_drop_bit_div)
qed

lemma Pack_packed:
  assumes "order \<le> s_MaxOrder"
  shows "unat (m_Packed (Pack order mantissa)) = unat mantissa mod 2 ^ 24 + unat order * 2 ^ 24"
proof -
  have o: "unat order \<le> 231" using assms by (simp add: packed_consts word_le_nat_alt)
  have "take_bit 24 mantissa AND push_bit 24 order = 0"
    using push_take_disjoint [of 24 order mantissa] by (simp add: and.commute)
  then have "unat (take_bit 24 mantissa OR push_bit 24 order) = unat mantissa mod 2 ^ 24 + unat order * 2 ^ 24"
    using o by (simp add: unat_or_disjoint unsigned_take_bit_eq unat_push_bit) (simp add: take_bit_eq_mod)
  then show ?thesis using assms by (simp add: Pack_def s_MantissaBits_def mantissa_mask)
qed

lemma Unpack_Pack:
  assumes "order \<le> s_MaxOrder" and "drop_bit s_MantissaBits mantissa = 1"
  shows "Unpack (Pack order mantissa) = (order, mantissa)"
proof -
  have "unat (drop_bit 24 mantissa) = 1" using assms(2) by (simp add: s_MantissaBits_def)
  then have m: "unat mantissa div 2 ^ 24 = 1" by (simp only: unat_drop_bit_div)
  then have "unat mantissa = 2 ^ 24 + unat mantissa mod 2 ^ 24" using div_mult_mod_eq [of "unat mantissa" "2 ^ 24"] by simp
  with Unpack_val [of "Pack order mantissa"] Pack_packed [OF assms(1), of mantissa] show ?thesis
    by (simp add: prod_eq_iff word_unat_eq_iff)
qed

lemma Pack_Unpack:
  assumes "m_Packed d < s_Inf"
  shows "Pack (fst (Unpack d)) (snd (Unpack d)) = d"
proof -
  have p: "unat (m_Packed d) < 232 * 2 ^ 24" using assms by (simp add: word_less_nat_alt packed_consts)
  then have o: "fst (Unpack d) \<le> s_MaxOrder"
    using Unpack_val [of d] by (simp add: word_le_nat_alt packed_consts)
  have "unat (m_Packed (Pack (fst (Unpack d)) (snd (Unpack d)))) = unat (m_Packed d)"
    using Pack_packed [OF o, of "snd (Unpack d)"] Unpack_val [of d] by simp
  then show ?thesis by (simp add: word_unat_eq_iff)
qed

lemma length_UnpackRaw [simp]: "length (UnpackRaw d) = 32"
  using AssignSafe_val [where 'a = 32, of 4 "memset0 32" "snd (Unpack d)" "unat (fst (Unpack d))"]
  by (cases "Unpack d") (auto simp: UnpackRaw_def Raw_nBytes_def Let_def be_simps memset0_def)

lemma UnpackRaw_val:
  "be_val (UnpackRaw d) =
     (if m_Packed d < s_Inf
      then (2 ^ 24 + unat (m_Packed d) mod 2 ^ 24) * 2 ^ (unat (m_Packed d) div 2 ^ 24)
      else 2 ^ 256 - 1)"
proof (cases "m_Packed d < s_Inf")
  case True
  let ?o = "unat (m_Packed d) div 2 ^ 24" and ?m = "2 ^ 24 + unat (m_Packed d) mod 2 ^ 24"
  have o: "?o \<le> 231" using True by (simp add: word_less_nat_alt packed_consts)
  have "?m * 2 ^ ?o < 2 ^ 25 * 2 ^ ?o" by simp
  also have "\<dots> \<le> 2 ^ 25 * 2 ^ 231" using o by (intro mult_left_mono power_increasing) simp_all
  finally have "?m * 2 ^ ?o < 256 ^ 32" by simp
  with True Unpack_val [of d]
    AssignSafe_val [where 'a = 32, of 4 "memset0 32" "snd (Unpack d)" "unat (fst (Unpack d))"]
  show ?thesis
    by (cases "Unpack d") (simp add: UnpackRaw_def Raw_nBytes_def Let_def be_simps memset0_def)
next
  case False
  have "be_val (Inv (memset0 32)) + 1 = 256 ^ 32" using Inv_val [of "memset0 32"] by (simp add: be_simps)
  with False show ?thesis by (simp add: UnpackRaw_def Raw_nBytes_def Let_def)
qed

lemma UnpackRaw_pos: "0 < be_val (UnpackRaw d)"
  by (simp add: UnpackRaw_val)

subsection \<open>Targets\<close>

lemma IsTargetReached_iff:
  assumes "length hv = 32"
  shows "IsTargetReached d hv \<longleftrightarrow> m_Packed d \<le> s_Inf \<and> be_val hv * be_val (UnpackRaw d) < 2 ^ 280"
proof -
  let ?p = "be_val hv * be_val (UnpackRaw d)"
  have M: "length (Mul 64 hv (UnpackRaw d)) = 64" "be_val (Mul 64 hv (UnpackRaw d)) = ?p mod 256 ^ 64"
    using Mul_spec [of 64 hv "UnpackRaw d"] by simp_all
  have "?p < 256 ^ 32 * 256 ^ 32"
    using be_val_less [of hv] be_val_less [of "UnpackRaw d"] assms by (intro mult_strict_mono) simp_all
  then have "be_val (Mul 64 hv (UnpackRaw d)) = ?p" using M(2) by simp
  then have "memis0 (take 29 (Mul 64 hv (UnpackRaw d))) \<longleftrightarrow> ?p < 2 ^ 280"
    using M(1) by (simp add: memis0_iff be_val_take div_eq_0_iff)
  then show ?thesis
    using assms by (auto simp: IsTargetReached_def Raw_nBytes_def s_MantissaBits_def Let_def not_less)
qed

lemma be_val_ones: "be_val (replicate n 0xff) + 1 = 256 ^ n"
  by (induction n) simp_all

lemma get_Target_max:
  assumes "m_Packed d \<le> s_Inf"
  shows "length (fst (get_Target d)) = 32 \<and> snd (get_Target d) \<and>
    be_val (fst (get_Target d)) * be_val (UnpackRaw d) < 2 ^ 280 \<and>
    (\<forall>x. x < 2 ^ 256 \<longrightarrow> x * be_val (UnpackRaw d) < 2 ^ 280 \<longrightarrow> x \<le> be_val (fst (get_Target d)))"
proof -
  obtain q m where q: "Div 32 (replicate 35 0xff) (UnpackRaw d) = (q, m)" by fastforce
  have top: "be_val (replicate 35 0xff) = 2 ^ 280 - 1" using be_val_ones [of 35] by simp
  have "length q = 32" "be_val q * be_val (UnpackRaw d) \<le> 2 ^ 280 - 1"
    "\<And>x. x < 256 ^ 32 \<Longrightarrow> x * be_val (UnpackRaw d) \<le> 2 ^ 280 - 1 \<Longrightarrow> x \<le> be_val q"
    using Div_spec [OF _ _ q] UnpackRaw_pos [of d] unfolding top by auto
  moreover have "get_Target d = (q, True)"
    using assms q by (auto simp: get_Target_def Raw_nBytes_def s_MantissaBits_def Let_def not_less [symmetric])
  ultimately show ?thesis by (auto simp: less_Suc_eq_le)
qed

lemma target_equiv:
  assumes "m_Packed d \<le> s_Inf" and "length hv = 32"
  shows "IsTargetReached d hv \<longleftrightarrow> be_val hv \<le> be_val (fst (get_Target d))"
proof
  assume "IsTargetReached d hv"
  then show "be_val hv \<le> be_val (fst (get_Target d))"
    using get_Target_max [OF assms(1)] IsTargetReached_iff [OF assms(2)] be_val_less [of hv] assms(2) by simp
next
  assume "be_val hv \<le> be_val (fst (get_Target d))"
  then have "be_val hv * be_val (UnpackRaw d) \<le> be_val (fst (get_Target d)) * be_val (UnpackRaw d)"
    by (rule mult_le_mono1)
  also have "\<dots> < 2 ^ 280" using get_Target_max [OF assms(1)] by blast
  finally show "IsTargetReached d hv" using assms IsTargetReached_iff by blast
qed

lemma raw_plus_val:
  "length base = 32 \<Longrightarrow> length (raw_plus base d) = 32 \<and>
     be_val (raw_plus base d) = (be_val base + be_val (UnpackRaw d)) mod 2 ^ 256"
  using IncAny_spec [of "UnpackRaw d" base] IncAny_val [of "UnpackRaw d" base]
  by (simp add: raw_plus_def add.commute)

lemma raw_minus_plus:
  assumes "length base = 32"
  shows "raw_minus (raw_plus base d) d = base"
proof -
  let ?r = "be_val (UnpackRaw d)"
  have r: "?r < 2 ^ 256" using be_val_less [of "UnpackRaw d"] by simp
  have b: "be_val base < 2 ^ 256" using be_val_less [of base] assms by simp
  have l: "length (raw_minus (raw_plus base d) d) = 32"
    using IncAny_spec [of "Negate (UnpackRaw d)"] by (simp add: raw_minus_def)
  have "be_val (raw_minus (raw_plus base d) d)
      = ((2 ^ 256 - ?r) mod 2 ^ 256 + (be_val base + ?r) mod 2 ^ 256) mod 2 ^ 256"
    using IncAny_val [of "Negate (UnpackRaw d)" "raw_plus base d"] raw_plus_val [OF assms]
    by (simp add: raw_minus_def Negate_val)
  also have "\<dots> = (2 ^ 256 - ?r + (be_val base + ?r)) mod 2 ^ 256" by (rule mod_add_eq)
  also have "\<dots> = be_val base" using r b by (simp add: mod_if)
  finally show ?thesis using l assms by (simp add: be_val_inject [symmetric])
qed

subsection \<open>Precision of the adjustment\<close>

text \<open>
  \<open>bf_val\<close> is the number a \<open>BigFloat\<close> stands for; \<open>approx e a x\<close> says that \<open>a\<close> is \<open>x\<close>
  rounded down with relative error at most \<open>e\<close>.
\<close>

definition bf_val :: "BigFloat \<Rightarrow> real" where
  "bf_val f = real (unat (m_Value f)) * 2 powi m_Order f"

definition approx :: "real \<Rightarrow> real \<Rightarrow> real \<Rightarrow> bool" where
  "approx e a x \<longleftrightarrow> a \<le> x \<and> x \<le> a * (1 + e)"

lemma approx_floor:
  assumes "2 ^ k \<le> m" and "real m \<le> x" and "x \<le> real m + 1"
  shows "approx (1 / 2 ^ k) (real m) x"
proof -
  have "(2::real) ^ k \<le> real m" using assms(1) by (metis of_nat_le_iff of_nat_numeral of_nat_power)
  then have "1 \<le> real m / 2 ^ k" by simp
  with assms(2,3) have "x \<le> real m + real m / 2 ^ k" by linarith
  with assms(2) show ?thesis by (simp add: approx_def distrib_left)
qed

lemma approx_scale: "0 \<le> c \<Longrightarrow> approx e a x \<Longrightarrow> approx e (a * c) (x * c)"
  unfolding approx_def by (metis mult.assoc mult.commute mult_right_mono)

lemma GetOrder_le: "GetOrder p \<le> 8 * length p"
proof (cases "be_val p = 0")
  case False
  then have "2 ^ (GetOrder p - 1) \<le> be_val p" using GetOrder_bounds by blast
  also have "\<dots> < 2 ^ (8 * length p)" using be_val_less [of p] by (simp add: pow256)
  finally show ?thesis by simp
qed (simp add: GetOrder_zero_iff [symmetric])

lemma BigFloat_of_zero: "be_val v = 0 \<Longrightarrow> BigFloat_of v = \<lparr>m_Order = 0, m_Value = 0\<rparr>"
  using GetOrder_zero_iff [of v] by (simp add: BigFloat_of_def Let_def)

lemma unat_of_nat_u32: "n < 2 ^ 32 \<Longrightarrow> unat (of_nat n :: u32) = n"
  by (simp add: unat_of_nat)

lemma BigFloat_of_norm:
  assumes "be_val v \<noteq> 0"
  shows "2 ^ 31 \<le> unat (m_Value (BigFloat_of v)) \<and>
    m_Order (BigFloat_of v) = int (GetOrder v) - 32 \<and>
    approx (1 / 2 ^ 31) (bf_val (BigFloat_of v)) (real (be_val v))"
proof -
  define n where "n = GetOrder v"
  have n: "n \<noteq> 0" "2 ^ (n - 1) \<le> be_val v" "be_val v < 2 ^ n"
    using assms GetOrder_bounds [OF assms] by (auto simp: n_def GetOrder_zero_iff)
  show ?thesis
  proof (cases "n > 32")
    case True
    define k where "k = n - 32"
    define m where "m = be_val v div 2 ^ k"
    have nk: "n = k + 32" "0 < k" using True by (simp_all add: k_def)
    have m: "m < 2 ^ 32"
      using n(3) unfolding m_def nk(1) by (simp add: div_less_iff_less_mult power_add mult.commute)
    have "2 ^ 31 * 2 ^ k = (2::nat) ^ (n - 1)" by (simp add: nk(1) power_add)
    then have m31: "2 ^ 31 \<le> m" using n(2) unfolding m_def by (simp add: less_eq_div_iff_mult_less_eq)
    have x4: "ShiftRight 4 v k \<noteq> []" using length_ShiftRight [of 4 v k] by force
    have ord: "int n - int BigFloat_nBits = int k" by (simp add: nk(1) BigFloat_nBits_def)
    have B: "BigFloat_of v = \<lparr>m_Order = int k, m_Value = of_nat m\<rparr>"
      using nk(2) n(1) m unfolding BigFloat_of_def Let_def n_def [symmetric] ord
      by (simp add: ExportAligned_val [OF x4] ShiftRight_val m_def [symmetric])
    have lo: "real m * 2 ^ k \<le> real (be_val v)"
    proof -
      have "m * 2 ^ k \<le> be_val v" unfolding m_def by simp
      then show ?thesis by (metis of_nat_le_iff of_nat_mult of_nat_numeral of_nat_power)
    qed
    have hi: "real (be_val v) \<le> (real m + 1) * 2 ^ k"
    proof -
      have "be_val v < (m + 1) * 2 ^ k" unfolding m_def by (simp add: dividend_less_div_times)
      then have "real (be_val v) < real ((m + 1) * 2 ^ k)" by (simp only: of_nat_less_iff)
      then show ?thesis by (simp add: distrib_right)
    qed
    have "approx (1 / 2 ^ 31) (real m * 2 ^ k) (real (be_val v) / 2 ^ k * 2 ^ k)"
      by (rule approx_scale, simp, rule approx_floor [OF m31])
         (use lo hi in \<open>simp_all add: field_simps\<close>)
    then show ?thesis
      using m m31 by (simp add: B bf_val_def unat_of_nat_u32 power_int_of_nat nk(1) n_def [symmetric])
  next
    case False
    define k where "k = 32 - n"
    have nk: "n + k = 32" using False by (simp add: k_def)
    define m where "m = be_val v * 2 ^ k"
    have "m < 2 ^ n * 2 ^ k" using n(3) by (simp add: m_def)
    then have m: "m < 2 ^ 32" using nk by (simp flip: power_add)
    have "(2::nat) ^ (n - 1) * 2 ^ k = 2 ^ (n - 1 + k)" by (simp add: power_add)
    also have "n - 1 + k = 31" using n(1) nk by simp
    finally have "2 ^ 31 = (2::nat) ^ (n - 1) * 2 ^ k" by simp
    then have m31: "2 ^ 31 \<le> m" using mult_le_mono1 [OF n(2), of "2 ^ k"] unfolding m_def by simp
    have x4: "ShiftLeft 4 v k \<noteq> []" using length_ShiftLeft [of 4 v k] by force
    have ord: "int n - int BigFloat_nBits = - int k" using nk by (simp add: BigFloat_nBits_def)
    have B: "BigFloat_of v = \<lparr>m_Order = - int k, m_Value = of_nat m\<rparr>"
      using n(1) m unfolding BigFloat_of_def Let_def n_def [symmetric] ord
      by (simp add: ExportAligned_val [OF x4] ShiftLeft_val m_def [symmetric])
    have "bf_val (BigFloat_of v) = real (be_val v)"
      using m by (simp add: B bf_val_def unat_of_nat_u32 power_int_minus) (simp add: m_def)
    then show ?thesis
      using m m31 nk by (simp add: B unat_of_nat_u32 approx_def n_def [symmetric])
  qed
qed

lemma approx_refl: "0 \<le> e \<Longrightarrow> 0 \<le> x \<Longrightarrow> approx e x x"
  by (simp add: approx_def distrib_left)

lemma bf_val_nonneg: "0 \<le> bf_val f"
  unfolding bf_val_def by (rule mult_nonneg_nonneg [OF of_nat_0_le_iff]) simp

lemma bf_val_pos: "m_Value f \<noteq> 0 \<Longrightarrow> 0 < bf_val f"
  unfolding bf_val_def by (intro mult_pos_pos) (metis of_nat_0_less_iff unat_gt_0, simp)

lemma unat_u32_less: "unat (x :: u32) < 2 ^ 32"
  using unsigned_less [of x, where 'a = nat] by simp

lemma unat_ucast_32_64: "unat (ucast (x :: u32) :: u64) = unat x"
  using unat_u32_less [of x] by (simp add: unsigned_ucast_eq take_bit_eq_mod)

lemma unat_mul_32_64: "unat (ucast (a :: u32) * ucast (b :: u32) :: u64) = unat a * unat b"
proof -
  have "unat a * unat b < 2 ^ 32 * 2 ^ 32"
    using unat_u32_less [of a] unat_u32_less [of b] by (intro mult_strict_mono) simp_all
  then show ?thesis by (simp add: unat_word_ariths unat_ucast_32_64)
qed

lemma uintBigFrom_u64: "be_val (uintBigFrom (x :: u64)) = unat x" "length (uintBigFrom (x :: u64)) = 8"
  using uintBigFrom_val [of x] by simp_all

lemma uintBigFrom_u32: "be_val (uintBigFrom (x :: u32)) = unat x" "length (uintBigFrom (x :: u32)) = 4"
  using uintBigFrom_val [of x] by simp_all

lemma BigFloat_mul_approx:
  assumes "m_Value a \<noteq> 0" and "m_Value b \<noteq> 0"
  shows "2 ^ 31 \<le> unat (m_Value (BigFloat_mul a b)) \<and>
    approx (1 / 2 ^ 31) (bf_val (BigFloat_mul a b)) (bf_val a * bf_val b) \<and>
    m_Order (BigFloat_mul a b) \<le> 32 + m_Order a + m_Order b"
proof -
  let ?v = "ucast (m_Value a) * ucast (m_Value b) :: u64"
  have v: "be_val (uintBigFrom ?v) = unat (m_Value a) * unat (m_Value b)"
    by (simp add: uintBigFrom_u64 unat_mul_32_64)
  then have k0: "be_val (uintBigFrom ?v) \<noteq> 0" using assms by (simp add: unat_eq_zero)
  have N: "2 ^ 31 \<le> unat (m_Value (BigFloat_of (uintBigFrom ?v)))"
    "approx (1 / 2 ^ 31) (bf_val (BigFloat_of (uintBigFrom ?v))) (real (unat (m_Value a) * unat (m_Value b)))"
    "m_Order (BigFloat_of (uintBigFrom ?v)) \<le> 32"
    using BigFloat_of_norm [OF k0] GetOrder_le [of "uintBigFrom ?v"]
    unfolding v uintBigFrom_u64(2) by auto
  let ?c = "2 powi (m_Order a + m_Order b) :: real"
  have "approx (1 / 2 ^ 31) (bf_val (BigFloat_of (uintBigFrom ?v)) * ?c)
      (real (unat (m_Value a) * unat (m_Value b)) * ?c)"
    by (rule approx_scale [OF _ N(2)]) simp
  moreover have "bf_val (BigFloat_mul a b) = bf_val (BigFloat_of (uintBigFrom ?v)) * ?c"
    by (simp add: BigFloat_mul_def Let_def bf_val_def power_int_add)
  moreover have "bf_val a * bf_val b = real (unat (m_Value a) * unat (m_Value b)) * ?c"
    by (simp add: bf_val_def power_int_add)
  ultimately show ?thesis using N by (simp add: BigFloat_mul_def Let_def)
qed

lemma approx_trans: "0 \<le> e \<Longrightarrow> approx d a b \<Longrightarrow> approx e b c \<Longrightarrow> approx (d + e + d * e) a c"
  unfolding approx_def
proof -
  assume e: "0 \<le> e" and "a \<le> b \<and> b \<le> a * (1 + d)" and "b \<le> c \<and> c \<le> b * (1 + e)"
  then have "c \<le> (a * (1 + d)) * (1 + e)" by (smt (verit) mult_right_mono)
  then show "a \<le> c \<and> c \<le> a * (1 + (d + e + d * e))"
    using \<open>a \<le> b \<and> _\<close> \<open>b \<le> c \<and> _\<close> by (simp add: algebra_simps)
qed

lemma BigFloat_div_approx:
  assumes "2 ^ 31 \<le> unat (m_Value a)" and "2 ^ 31 \<le> unat (m_Value b)"
  shows "\<exists>q. BigFloat_div a b = Some q \<and> 2 ^ 31 \<le> unat (m_Value q) \<and>
    approx (1 / 2 ^ 29) (bf_val q) (bf_val a / bf_val b) \<and>
    m_Order q \<le> m_Order a - m_Order b"
proof -
  let ?v = "push_bit 32 (ucast (m_Value a)) div ucast (m_Value b) :: u64"
  define A where "A = unat (m_Value a)"
  define B where "B = unat (m_Value b)"
  define k where "k = A * 2 ^ 32 div B"
  have AB: "2 ^ 31 \<le> A" "A < 2 ^ 32" "2 ^ 31 \<le> B" "B < 2 ^ 32"
    using assms unat_u32_less by (auto simp: A_def B_def)
  have v: "be_val (uintBigFrom ?v) = k"
    using AB unfolding uintBigFrom_u64
    by (simp add: unat_div unat_push_bit unat_ucast_32_64 A_def B_def k_def)
  have "2 ^ 31 * B \<le> A * 2 ^ 32" using AB by (simp add: mult_le_mono)
  then have k31: "2 ^ 31 \<le> k" using AB(3) unfolding k_def by (simp add: less_eq_div_iff_mult_less_eq)
  then have k0: "be_val (uintBigFrom ?v) \<noteq> 0" using v by simp
  have N: "2 ^ 31 \<le> unat (m_Value (BigFloat_of (uintBigFrom ?v)))"
    "approx (1 / 2 ^ 31) (bf_val (BigFloat_of (uintBigFrom ?v))) (real k)"
    "m_Order (BigFloat_of (uintBigFrom ?v)) \<le> 32"
    using BigFloat_of_norm [OF k0] GetOrder_le [of "uintBigFrom ?v"]
    unfolding v uintBigFrom_u64(2) by auto
  have B0: "real B > 0" using AB(3) by simp
  have "real k \<le> real A * 2 ^ 32 / real B"
  proof -
    have "k * B \<le> A * 2 ^ 32" by (simp add: k_def)
    then have "real k * real B \<le> real A * 2 ^ 32" by (metis of_nat_le_iff of_nat_mult of_nat_numeral of_nat_power)
    then show ?thesis using B0 by (simp add: field_simps)
  qed
  moreover have "real A * 2 ^ 32 / real B \<le> real k + 1"
  proof -
    have "A * 2 ^ 32 < (k + 1) * B" unfolding k_def using AB(3) by (simp add: dividend_less_div_times)
    then have "real (A * 2 ^ 32) < real ((k + 1) * B)" by (simp only: of_nat_less_iff)
    then show ?thesis using B0 by (simp add: field_simps)
  qed
  ultimately have "approx (1 / 2 ^ 31) (real k) (real A * 2 ^ 32 / real B)"
    using k31 by (intro approx_floor)
  from approx_trans [OF _ N(2) this]
  have T: "approx (1 / 2 ^ 31 + 1 / 2 ^ 31 + 1 / 2 ^ 31 * (1 / 2 ^ 31))
      (bf_val (BigFloat_of (uintBigFrom ?v))) (real A * 2 ^ 32 / real B)" by simp
  let ?c = "2 powi (m_Order a - (m_Order b + 32)) :: real"
  define q where "q = (BigFloat_of (uintBigFrom ?v))\<lparr>m_Order :=
      m_Order (BigFloat_of (uintBigFrom ?v)) + (m_Order a - (m_Order b + 32))\<rparr>"
  have b0: "m_Value b \<noteq> 0" using AB(3) by (auto simp: B_def)
  then have q: "BigFloat_div a b = Some q"
    by (simp add: BigFloat_div_def Let_def BigFloat_nBits_def q_def)
  have "bf_val q = bf_val (BigFloat_of (uintBigFrom ?v)) * ?c"
    by (simp add: q_def bf_val_def power_int_add)
  moreover have "bf_val a / bf_val b = real A * 2 ^ 32 / real B * ?c"
    by (simp add: bf_val_def A_def B_def power_int_add power_int_diff field_simps)
  ultimately have "approx (1 / 2 ^ 31 + 1 / 2 ^ 31 + 1 / 2 ^ 31 * (1 / 2 ^ 31)) (bf_val q) (bf_val a / bf_val b)"
    using approx_scale [OF _ T, of ?c] by simp
  then have "approx (1 / 2 ^ 29) (bf_val q) (bf_val a / bf_val b)"
  proof -
    have "0 \<le> bf_val q" by (rule bf_val_nonneg)
    then have "bf_val q * (1 + (1 / 2 ^ 31 + 1 / 2 ^ 31 + 1 / 2 ^ 31 * (1 / 2 ^ 31))) \<le> bf_val q * (1 + 1 / 2 ^ 29)"
      by (intro mult_left_mono) simp_all
    with \<open>approx _ (bf_val q) _\<close> show ?thesis by (auto simp only: approx_def)
  qed
  then show ?thesis using q N by (auto simp: q_def)
qed

lemma mantissa_approx:
  assumes "2 ^ 31 \<le> unat (m_Value x)" and "0 \<le> m_Order x + 7"
  shows "approx (1 / 2 ^ 24) (real (unat (m_Value x) div 2 ^ 7) * 2 ^ nat (m_Order x + 7)) (bf_val x)"
proof -
  let ?v = "unat (m_Value x)"
  have m: "2 ^ 24 \<le> ?v div 2 ^ 7" using assms(1) by simp
  have "real (?v div 2 ^ 7) \<le> real ?v / 2 ^ 7"
  proof -
    have "?v div 2 ^ 7 * 2 ^ 7 \<le> ?v" by (rule div_times_less_eq_dividend)
    then have "real (?v div 2 ^ 7 * 2 ^ 7) \<le> real ?v" by (simp only: of_nat_le_iff)
    then show ?thesis by (simp add: field_simps del: of_nat_unat)
  qed
  moreover have "real ?v / 2 ^ 7 \<le> real (?v div 2 ^ 7) + 1"
  proof -
    have "?v < (?v div 2 ^ 7 + 1) * 2 ^ 7" by simp
    then have "real ?v < real ((?v div 2 ^ 7 + 1) * 2 ^ 7)" by (simp only: of_nat_less_iff)
    then show ?thesis by (simp add: field_simps del: of_nat_unat)
  qed
  ultimately have "approx (1 / 2 ^ 24) (real (?v div 2 ^ 7)) (real ?v / 2 ^ 7)"
    using m by (intro approx_floor)
  from approx_scale [OF _ this, of "2 ^ nat (m_Order x + 7)"]
  have "approx (1 / 2 ^ 24) (real (?v div 2 ^ 7) * 2 ^ nat (m_Order x + 7))
      (real ?v / 2 ^ 7 * 2 ^ nat (m_Order x + 7))" by simp
  moreover have "real ?v / 2 ^ 7 * 2 ^ nat (m_Order x + 7) = bf_val x"
  proof -
    have "(2::real) ^ nat (m_Order x + 7) = 2 powi (m_Order x + 7)"
      using assms(2) by (metis int_nat_eq power_int_of_nat)
    then show ?thesis by (simp add: bf_val_def power_int_add)
  qed
  ultimately show ?thesis by simp
qed

lemma quotient_approx:
  fixes r t d p q R T D :: real
  assumes "approx (1 / 2 ^ 31) r R" "approx (1 / 2 ^ 31) t T" "approx (1 / 2 ^ 31) d D"
    and "approx (1 / 2 ^ 31) p (r * t)" and "approx (1 / 2 ^ 29) q (p / d)"
    and "0 < r" "0 < t" "0 < d" "0 < p" "0 < q"
  shows "q \<le> R * T / D * (1 + 1 / 2 ^ 31) \<and> R * T / D \<le> q * (1 + 1 / 2 ^ 28)"
proof
  have pos: "0 < R" "0 < T" "0 < D" using assms unfolding approx_def by linarith+
  have "q \<le> p / d" using assms(5) by (simp add: approx_def)
  also have "\<dots> \<le> (R * T) / (D / (1 + 1 / 2 ^ 31))"
  proof (rule frac_le)
    have "p \<le> r * t" using assms(4) by (simp add: approx_def)
    also have "\<dots> \<le> R * T" using assms(1,2,6,7) unfolding approx_def by (intro mult_mono) auto
    finally show "p \<le> R * T" .
    show "D / (1 + 1 / 2 ^ 31) \<le> d" using assms(3) unfolding approx_def by (simp add: divide_le_eq)
  qed (use pos in simp_all)
  finally show "q \<le> R * T / D * (1 + 1 / 2 ^ 31)" by simp
  define e where "e = (1 / 2 ^ 31 :: real)"
  have e: "0 \<le> e" by (simp add: e_def)
  have "R * T \<le> (r * (1 + e)) * (t * (1 + e))"
    using assms(1,2,6,7) pos e unfolding approx_def e_def by (intro mult_mono) auto
  also have "\<dots> = (r * t) * (1 + e) ^ 2" by (simp add: power2_eq_square algebra_simps)
  also have "\<dots> \<le> (p * (1 + e)) * (1 + e) ^ 2"
    using assms(4) e unfolding approx_def e_def by (intro mult_right_mono) auto
  finally have "R * T / D \<le> (p * (1 + e) * (1 + e) ^ 2) / d"
    using assms(3,8,9) pos e unfolding approx_def by (intro frac_le) auto
  also have "\<dots> = p / d * (1 + e) ^ 3" by (simp add: power3_eq_cube power2_eq_square)
  also have "\<dots> \<le> (q * (1 + 1 / 2 ^ 29)) * (1 + e) ^ 3"
    using assms(5) e unfolding approx_def by (intro mult_right_mono) auto
  also have "\<dots> = q * ((1 + 1 / 2 ^ 29) * (1 + e) ^ 3)" by simp
  also have "\<dots> \<le> q * (1 + 1 / 2 ^ 28)"
    using assms(10) by (intro mult_left_mono) (simp_all add: e_def power3_eq_cube)
  finally show "R * T / D \<le> q * (1 + 1 / 2 ^ 28)" .
qed

text \<open>
  The exact new difficulty is \<open>ref * dtTrg_s / (dtSrc_s * dh)\<close>.  The computed one agrees with it
  to one part in \<open>2 ^ 23\<close>, unless it leaves the representable range.
\<close>

lemma norm_nz: "2 ^ 31 \<le> unat (m_Value f) \<Longrightarrow> m_Value f \<noteq> 0"
  by auto

lemma norm_pos: "2 ^ 31 \<le> unat (m_Value f) \<Longrightarrow> 0 < bf_val f"
  by (rule bf_val_pos [OF norm_nz])

lemma Calculate_quotient:
  fixes dh dtTrg_s dtSrc_s :: u32
  assumes "length ref = 32" and "be_val ref \<noteq> 0" and "dtTrg_s \<noteq> 0" and "dh \<noteq> 0" and "dtSrc_s \<noteq> 0"
    and X: "X = real (be_val ref) * real (unat dtTrg_s) / (real (unat dtSrc_s) * real (unat dh))"
  shows "\<exists>q. BigFloat_div (BigFloat_mul (BigFloat_of ref) (BigFloat_of (uintBigFrom dtTrg_s)))
      (BigFloat_of (uintBigFrom (ucast dtSrc_s * ucast dh :: u64))) = Some q \<and>
    2 ^ 31 \<le> unat (m_Value q) \<and> m_Order q \<le> 288 \<and>
    bf_val q \<le> X * (1 + 1 / 2 ^ 31) \<and> X \<le> bf_val q * (1 + 1 / 2 ^ 28)"
proof -
  define r where "r = BigFloat_of ref"
  define t where "t = BigFloat_of (uintBigFrom dtTrg_s)"
  define dv where "dv = (ucast dtSrc_s * ucast dh :: u64)"
  define d where "d = BigFloat_of (uintBigFrom dv)"
  define p where "p = BigFloat_mul r t"
  have dv: "be_val (uintBigFrom dv) = unat dtSrc_s * unat dh"
    by (simp add: dv_def uintBigFrom_u64 unat_mul_32_64)
  have nz: "be_val (uintBigFrom dtTrg_s) \<noteq> 0" "be_val (uintBigFrom dv) \<noteq> 0"
    using assms(3-5) by (simp_all add: dv uintBigFrom_u32 unat_eq_zero)
  have R: "2 ^ 31 \<le> unat (m_Value r)" "m_Order r \<le> 224" "approx (1 / 2 ^ 31) (bf_val r) (real (be_val ref))"
    using BigFloat_of_norm [OF assms(2)] GetOrder_le [of ref] assms(1) by (auto simp: r_def)
  have T: "2 ^ 31 \<le> unat (m_Value t)" "m_Order t \<le> 0" "approx (1 / 2 ^ 31) (bf_val t) (real (unat dtTrg_s))"
    using BigFloat_of_norm [OF nz(1)] GetOrder_le [of "uintBigFrom dtTrg_s"]
    unfolding uintBigFrom_u32 by (auto simp: t_def)
  have D: "2 ^ 31 \<le> unat (m_Value d)" "- 32 \<le> m_Order d"
      "approx (1 / 2 ^ 31) (bf_val d) (real (unat dtSrc_s) * real (unat dh))"
    using BigFloat_of_norm [OF nz(2)] unfolding dv of_nat_mult by (auto simp: d_def)
  have P: "2 ^ 31 \<le> unat (m_Value p)" "m_Order p \<le> 256" "approx (1 / 2 ^ 31) (bf_val p) (bf_val r * bf_val t)"
    using BigFloat_mul_approx [OF norm_nz [OF R(1)] norm_nz [OF T(1)]] R(2) T(2)
    unfolding p_def by linarith+
  obtain q where q: "BigFloat_div p d = Some q" and Q: "2 ^ 31 \<le> unat (m_Value q)"
      "approx (1 / 2 ^ 29) (bf_val q) (bf_val p / bf_val d)" "m_Order q \<le> 288"
    using BigFloat_div_approx [OF P(1) D(1)] P(2) D(2) by fastforce
  have "bf_val q \<le> X * (1 + 1 / 2 ^ 31)" "X \<le> bf_val q * (1 + 1 / 2 ^ 28)"
    using quotient_approx [OF R(3) T(3) D(3) P(3) Q(2)] norm_pos R(1) T(1) D(1) P(1) Q(1)
    unfolding X by blast+
  then show ?thesis using q Q unfolding p_def r_def t_def d_def dv_def by blast
qed

lemma norm_order_nonneg:
  assumes "2 ^ 24 \<le> bf_val q"
  shows "0 \<le> m_Order q + 7"
proof (rule ccontr)
  assume "\<not> ?thesis"
  then have "(2::real) powi m_Order q \<le> 2 powi (- 8)" by (intro power_int_increasing) simp_all
  moreover have "real (unat (m_Value q)) < 2 ^ 32" using unat_u32_less [of "m_Value q"]
    by (simp only: of_nat_less_iff [symmetric, where 'a = real] of_nat_power of_nat_numeral)
  ultimately have "bf_val q < 2 ^ 32 * 2 powi (- 8)"
    unfolding bf_val_def by (intro mult_less_le_imp_less) (simp_all del: of_nat_unat)
  then show False using assms by (simp add: power_int_minus)
qed

text \<open>The last step of \<open>Calculate\<close>: truncating a normalised quotient to a mantissa of 24 bits.\<close>

lemma Pack_quotient:
  assumes q: "2 ^ 31 \<le> unat (m_Value q)" and o: "0 \<le> m_Order q + 7" "m_Order q \<le> 288"
    and e: "e = Pack (of_int (m_Order q + 7)) (drop_bit 7 (m_Value q))"
  shows "m_Packed e < s_Inf \<and> approx (1 / 2 ^ 24) (real (be_val (UnpackRaw e))) (bf_val q) \<or>
    m_Packed e = s_Inf \<and> 2 ^ 256 \<le> bf_val q"
proof -
  let ?o = "m_Order q + 7"
  define m where "m = drop_bit 7 (m_Value q)"
  have mv: "unat m = unat (m_Value q) div 2 ^ 7" by (simp only: m_def unat_drop_bit_div)
  then have m24: "unat m div 2 ^ 24 = 1" using q unat_u32_less [of "m_Value q"] by simp
  have ou: "unat (of_int ?o :: u32) = nat ?o"
  proof -
    have "(of_int ?o :: u32) = of_nat (nat ?o)" using o by (metis of_int_of_nat_eq int_nat_eq)
    moreover have "nat ?o < 2 ^ 32" using o(2) by simp
    ultimately show ?thesis by (simp only: unat_of_nat_u32)
  qed
  show ?thesis
  proof (cases "?o \<le> 231")
    case True
    then have om: "of_int ?o \<le> s_MaxOrder" using ou o by (simp add: packed_consts word_le_nat_alt)
    have lt: "m_Packed e < s_Inf"
      using Pack_packed [OF om, of m] ou True o
      by (simp add: e m_def [symmetric] word_less_nat_alt packed_consts)
    have "drop_bit s_MantissaBits m = 1"
      using m24 by (simp add: s_MantissaBits_def word_unat_eq_iff unat_drop_bit_div)
    then have "Unpack e = (of_int ?o, m)" unfolding e m_def [symmetric] using om by (rule Unpack_Pack [rotated])
    then have "be_val (UnpackRaw e) = unat m * 2 ^ nat ?o"
      using Unpack_val [of e] lt ou by (simp add: UnpackRaw_val)
    then have u: "real (be_val (UnpackRaw e)) = real (unat m) * 2 ^ nat ?o" by (simp del: of_nat_unat)
    show ?thesis using mantissa_approx [OF q o(1)] lt unfolding u mv by blast
  next
    case False
    then have "m_Packed e = s_Inf"
      using ou nat_mono [of 232 ?o] by (simp add: e Pack_def packed_consts word_le_nat_alt)
    moreover have "(2::real) powi 225 \<le> 2 powi m_Order q" using False by (intro power_int_increasing) simp_all
    moreover have "(2::real) ^ 31 \<le> real (unat (m_Value q))" using q
      by (simp only: of_nat_le_iff [symmetric, where 'a = real] of_nat_power of_nat_numeral)
    ultimately show ?thesis using mult_mono [of "2 ^ 31" "real (unat (m_Value q))" "2 powi 225" "2 powi m_Order q"]
      by (simp add: bf_val_def)
  qed
qed

text \<open>
  The exact new difficulty is \<open>ref * dtTrg_s / (dtSrc_s * dh)\<close>.  The computed one agrees with it
  to one part in \<open>2 ^ 23\<close>, unless it leaves the representable range.
\<close>

lemma Calculate_precision:
  assumes A: "length ref = 32" "be_val ref \<noteq> 0" "dtTrg_s \<noteq> 0" "dh \<noteq> 0" "dtSrc_s \<noteq> 0"
    and X: "X = real (be_val ref) * real (unat dtTrg_s) / (real (unat dtSrc_s) * real (unat dh))"
    and big: "2 ^ 24 * (1 + 1 / 2 ^ 28) \<le> X"
  shows "\<exists>d. Calculate ref dh dtTrg_s dtSrc_s = Some d \<and>
    (m_Packed d < s_Inf \<and> real (be_val (UnpackRaw d)) \<le> X * (1 + 1 / 2 ^ 31) \<and>
       X \<le> real (be_val (UnpackRaw d)) * (1 + 1 / 2 ^ 23) \<or>
     m_Packed d = s_Inf \<and> 2 ^ 256 \<le> X * (1 + 1 / 2 ^ 31))"
proof -
  obtain q where q: "BigFloat_div (BigFloat_mul (BigFloat_of ref) (BigFloat_of (uintBigFrom dtTrg_s)))
      (BigFloat_of (uintBigFrom (ucast dtSrc_s * ucast dh :: u64))) = Some q"
    and Q: "2 ^ 31 \<le> unat (m_Value q)" "m_Order q \<le> 288"
      "bf_val q \<le> X * (1 + 1 / 2 ^ 31)" "X \<le> bf_val q * (1 + 1 / 2 ^ 28)"
    using Calculate_quotient [OF A X] by blast
  have "2 ^ 24 * (1 + 1 / 2 ^ 28) \<le> bf_val q * (1 + 1 / 2 ^ 28)" using big Q(4) by (rule order_trans)
  then have "2 ^ 24 \<le> bf_val q" by simp
  then have o: "0 \<le> m_Order q + 7" by (rule norm_order_nonneg)
  define e where "e = Pack (of_int (m_Order q + 7)) (drop_bit 7 (m_Value q))"
  have C: "Calculate ref dh dtTrg_s dtSrc_s = Some e"
    using o q norm_nz [OF Q(1)]
    by (simp add: Calculate_def Let_def BigFloat_nBits_def s_MantissaBits_def e_def)
  define u where "u = real (be_val (UnpackRaw e))"
  have up: "X \<le> u * (1 + 1 / 2 ^ 23)" if "bf_val q \<le> u * (1 + 1 / 2 ^ 24)"
  proof -
    have "X \<le> (u * (1 + 1 / 2 ^ 24)) * (1 + 1 / 2 ^ 28)"
      by (rule order_trans [OF Q(4)], rule mult_right_mono [OF that]) simp
    moreover have "(u * (1 + 1 / 2 ^ 24)) * (1 + 1 / 2 ^ 28) \<le> u * (1 + 1 / 2 ^ 23)"
      unfolding mult.assoc by (intro mult_left_mono) (simp_all add: u_def)
    ultimately show ?thesis by (rule order_trans)
  qed
  have lo: "y \<le> X * (1 + 1 / 2 ^ 31)" if "y \<le> bf_val q" for y using that Q(3) by (rule order_trans)
  from Pack_quotient [OF Q(1) o Q(2) e_def] show ?thesis
    unfolding approx_def u_def [symmetric] using C up [unfolded u_def] lo u_def by metis
qed

lemma Calculate_zero_divisor: "dh = 0 \<or> dtSrc_s = 0 \<Longrightarrow> Calculate ref dh dtTrg_s dtSrc_s = None"
  using BigFloat_of_zero [of "uintBigFrom (0 :: u64)"]
  by (auto simp: Calculate_def Let_def BigFloat_div_def uintBigFrom_u64)

subsection \<open>Properties\<close>

text \<open>
  C30: the packed form is lossless: every order up to \<open>s_MaxOrder\<close> with a normalised mantissa (25 bits)
  unpacks to itself, and every finite packed difficulty is the packing of what it unpacks to.
\<close>

theorem Pack_roundtrip:
  "(order \<le> s_MaxOrder \<longrightarrow> drop_bit s_MantissaBits mantissa = 1 \<longrightarrow>
      Unpack (Pack order mantissa) = (order, mantissa)) \<and>
   (m_Packed d < s_Inf \<longrightarrow> Pack (fst (Unpack d)) (snd (Unpack d)) = d)"
  using Unpack_Pack Pack_Unpack by blast

theorem Pack_roundtrip_witness:
  "Unpack (Pack 3 0x1000007) = (3, 0x1000007) \<and>
   Pack (fst (Unpack \<lparr>m_Packed = 0x03000007\<rparr>)) (snd (Unpack \<lparr>m_Packed = 0x03000007\<rparr>)) = \<lparr>m_Packed = 0x03000007\<rparr>"
  using Pack_roundtrip [where order = 3 and mantissa = "0x1000007" and d = "\<lparr>m_Packed = 0x03000007\<rparr>"]
  by (simp add: packed_consts s_MantissaBits_def)

text \<open>
  C29: a 256-bit hash value meets a finite difficulty exactly when its product with the difficulty, read as the
  mantissa with its implied leading one shifted by the order, stays below \<open>2 ^ 280\<close> (the difficulty counts
  \<open>2 ^ 24\<close> units per expected hash), which is exactly when the hash does not exceed the target that
  \<open>get_Target\<close> computes by division.  The packed value \<open>s_Inf\<close> is excluded: there the code accepts small nonzero
  hashes, though its comment allows only the zero hash.
\<close>

theorem IsTargetReached_correct:
  assumes "m_Packed d < s_Inf" and "length hv = 32"
  shows "(IsTargetReached d hv \<longleftrightarrow>
       be_val hv * ((2 ^ 24 + unat (m_Packed d) mod 2 ^ 24) * 2 ^ (unat (m_Packed d) div 2 ^ 24)) < 2 ^ 280) \<and>
    (IsTargetReached d hv \<longleftrightarrow> be_val hv \<le> be_val (fst (get_Target d)))"
  using IsTargetReached_iff [OF assms(2)] target_equiv [OF order.strict_implies_order [OF assms(1)] assms(2)] assms(1)
  unfolding UnpackRaw_val by auto

theorem IsTargetReached_correct_witness:
  "IsTargetReached \<lparr>m_Packed = 0x10000000\<rparr> (replicate 29 0 @ [1, 0, 0]) \<and>
   \<not> IsTargetReached \<lparr>m_Packed = 0x10000000\<rparr> (replicate 29 0xff @ [1, 0, 0])"
  using IsTargetReached_correct [of "\<lparr>m_Packed = 0x10000000\<rparr>" "replicate 29 0 @ [1, 0, 0]"]
    IsTargetReached_correct [of "\<lparr>m_Packed = 0x10000000\<rparr>" "replicate 29 0xff @ [1, 0, 0]"] be_val_ones [of 29]
  by (simp add: packed_consts be_val_append be_val_replicate_0)

text \<open>The infinite difficulty does not refuse all nonzero hashes.\<close>

lemma Inf_accepts_nonzero:
  "IsTargetReached \<lparr>m_Packed = s_Inf\<rparr> (replicate 28 0 @ [1, 0, 0, 0])"
  using IsTargetReached_iff [of "replicate 28 0 @ [1, 0, 0, 0]" "\<lparr>m_Packed = s_Inf\<rparr>"]
  by (simp add: UnpackRaw_val be_val_append be_val_replicate_0)

text \<open>
  C31: accumulating a difficulty into a 256-bit chainwork adds its raw value modulo \<open>2 ^ 256\<close>, and
  subtracting it again restores the chainwork.
\<close>

theorem chainwork_plus_minus:
  assumes "length base = 32"
  shows "be_val (raw_plus base d) = (be_val base + be_val (UnpackRaw d)) mod 2 ^ 256 \<and>
    raw_minus (raw_plus base d) d = base"
  using raw_plus_val [OF assms] raw_minus_plus [OF assms] by blast

theorem chainwork_plus_minus_witness:
  "raw_minus (raw_plus (replicate 32 7) \<lparr>m_Packed = 0x05000001\<rparr>) \<lparr>m_Packed = 0x05000001\<rparr> = replicate 32 7"
  using chainwork_plus_minus [of "replicate 32 7" "\<lparr>m_Packed = 0x05000001\<rparr>"] by simp

text \<open>
  C28: the difficulty adjustment.  With \<open>X = ref * dtTrg_s / (dtSrc_s * dh)\<close> the exact rational
  value, the packed result is \<open>X\<close> to within a relative error of \<open>2 ^ -31\<close> upwards and \<open>2 ^ -23\<close>
  downwards, or it saturates to \<open>s_Inf\<close> because \<open>X\<close> does not fit 256 bits; the last hypothesis
  excludes results below the smallest normalised difficulty.
\<close>

theorem Calculate_correct:
  assumes "length ref = 32" "be_val ref \<noteq> 0" "dtTrg_s \<noteq> 0" "dh \<noteq> 0" "dtSrc_s \<noteq> 0"
    and "X = real (be_val ref) * real (unat dtTrg_s) / (real (unat dtSrc_s) * real (unat dh))"
    and "2 ^ 24 * (1 + 1 / 2 ^ 28) \<le> X"
  shows "\<exists>d. Calculate ref dh dtTrg_s dtSrc_s = Some d \<and>
    (m_Packed d < s_Inf \<and> real (be_val (UnpackRaw d)) \<le> X * (1 + 1 / 2 ^ 31) \<and>
       X \<le> real (be_val (UnpackRaw d)) * (1 + 1 / 2 ^ 23) \<or>
     m_Packed d = s_Inf \<and> 2 ^ 256 \<le> X * (1 + 1 / 2 ^ 31))"
  using assms by (rule Calculate_precision)

theorem Calculate_correct_witness:
  "\<exists>d. Calculate (replicate 27 0 @ [30, 0, 0, 0, 0]) 10 60 50 = Some d \<and>
    (m_Packed d < s_Inf \<and> real (be_val (UnpackRaw d)) \<le> (15461882265.6::real) * (1 + 1 / 2 ^ 31) \<and>
       (15461882265.6::real) \<le> real (be_val (UnpackRaw d)) * (1 + 1 / 2 ^ 23) \<or>
     m_Packed d = s_Inf \<and> 2 ^ 256 \<le> (15461882265.6::real) * (1 + 1 / 2 ^ 31))"
  by (rule Calculate_correct) (simp_all add: be_val_append be_val_replicate_0)

text \<open>
  C37: the adjustment has a result exactly when neither the number of blocks nor the elapsed time is
  zero; otherwise it divides by zero.
\<close>

theorem Calculate_defined_iff:
  "(\<exists>d. Calculate ref dh dtTrg_s dtSrc_s = Some d) \<longleftrightarrow> dh \<noteq> 0 \<and> dtSrc_s \<noteq> 0"
proof (cases "dh = 0 \<or> dtSrc_s = 0")
  case True
  then show ?thesis using Calculate_zero_divisor [OF True] by auto
next
  case False
  then have "be_val (uintBigFrom (ucast dtSrc_s * ucast dh :: u64)) \<noteq> 0"
    by (simp add: uintBigFrom_u64 unat_mul_32_64 unat_eq_zero)
  from norm_nz [OF conjunct1 [OF BigFloat_of_norm [OF this]]]
  show ?thesis using False by (simp add: Calculate_def BigFloat_div_def Let_def)
qed

end
