(* ===== verification/Merkle.thy ===== *)
theory Merkle
  imports Grimm_Prelude
begin
unbundle bit_operations_syntax

section \<open>Merkle mountain ranges (core/merkle.cpp)\<close>

text \<open>
  The hash of two concatenated values is the parameter \<open>hp\<close> of the definitions: the code feeds both
  to the SHA-256 of the third-party curve library.  Hash values are any type with a zero, and nothing is
  assumed of \<open>hp\<close>: where a claim needs collision resistance, the collision is an alternative of its conclusion.
 
  Element counts and positions are natural numbers; for a counter below \<open>2 ^ 63\<close> no expression of
  the code wraps.

  The virtual \<open>LoadElement\<close> and \<open>SaveElement\<close> of the range are the parameters \<open>load\<close> and \<open>save\<close>.
\<close>

record Position =
  pos_H :: nat
  pos_X :: nat

type_synonym 'h Node = "bool \<times> 'h"
type_synonym 'h Proof = "'h Node list"

definition Interpret_pair :: "('h \<Rightarrow> 'h \<Rightarrow> 'h) \<Rightarrow> 'h \<Rightarrow> 'h \<Rightarrow> 'h" where
  "Interpret_pair hp hLeft hRight = hp hLeft hRight"

definition Interpret_new :: "('h \<Rightarrow> 'h \<Rightarrow> 'h) \<Rightarrow> 'h \<Rightarrow> 'h \<Rightarrow> bool \<Rightarrow> 'h" where
  "Interpret_new hp hOld hNew bNewOnRight =
     (if bNewOnRight then Interpret_pair hp hOld hNew else Interpret_pair hp hNew hOld)"

definition Interpret_node :: "('h \<Rightarrow> 'h \<Rightarrow> 'h) \<Rightarrow> 'h \<Rightarrow> 'h Node \<Rightarrow> 'h" where
  "Interpret_node hp hash n = Interpret_new hp hash (snd n) (fst n)"

primrec Interpret :: "('h \<Rightarrow> 'h \<Rightarrow> 'h) \<Rightarrow> 'h \<Rightarrow> 'h Proof \<Rightarrow> 'h" where
  "Interpret hp hash [] = hash"
| "Interpret hp hash (n # p) = Interpret hp (Interpret_node hp hash n) p"

subsection \<open>The range over a store of nodes\<close>

lemma xor_one_odd: "odd n \<Longrightarrow> (n :: nat) XOR 1 = n - 1"
  by (simp add: xor_Suc_0_eq)

lemma xor_one_even: "even n \<Longrightarrow> (n :: nat) XOR 1 = n + 1"
  by (simp add: xor_Suc_0_eq)

text \<open>The loop of \<open>Mmr::Append\<close>: the state is the store.\<close>

function Mmr_Append_loop ::
  "('h \<Rightarrow> 'h \<Rightarrow> 'h) \<Rightarrow> ('s \<Rightarrow> Position \<Rightarrow> 'h) \<Rightarrow> ('h \<Rightarrow> Position \<Rightarrow> 's \<Rightarrow> 's) \<Rightarrow>
   nat \<Rightarrow> nat \<Rightarrow> 'h \<Rightarrow> 's \<Rightarrow> 's" where
  "Mmr_Append_loop hp load save H X hv1 st =
     (let st1 = save hv1 \<lparr>pos_H = H, pos_X = X\<rparr> st in
      if \<not> odd X then st1
      else
        let X1 = X XOR 1;
            hv0 = load st1 \<lparr>pos_H = H, pos_X = X1\<rparr>
        in Mmr_Append_loop hp load save (Suc H) (X1 div 2) (Interpret_new hp hv1 hv0 False) st1)"
  by pat_completeness auto
termination
  by (relation "measure (\<lambda>(hp, load, save, H, X, hv1, st). X)") (auto simp: xor_one_odd [simplified] elim: oddE)

declare Mmr_Append_loop.simps [simp del]

text \<open>A range: the element count and the store of the implementing class.\<close>

record 's Mmr =
  m_Count :: nat
  m_Store :: 's

definition Mmr_Append ::
  "('h \<Rightarrow> 'h \<Rightarrow> 'h) \<Rightarrow> ('s \<Rightarrow> Position \<Rightarrow> 'h) \<Rightarrow> ('h \<Rightarrow> Position \<Rightarrow> 's \<Rightarrow> 's) \<Rightarrow> 'h \<Rightarrow> 's Mmr \<Rightarrow> 's Mmr" where
  "Mmr_Append hp load save hv m =
     m\<lparr>m_Store := Mmr_Append_loop hp load save 0 (m_Count m) hv (m_Store m), m_Count := m_Count m + 1\<rparr>"

function PredictedHash_loop :: "('h \<Rightarrow> 'h \<Rightarrow> 'h) \<Rightarrow> (Position \<Rightarrow> 'h) \<Rightarrow> nat \<Rightarrow> nat \<Rightarrow> 'h \<Rightarrow> 'h" where
  "PredictedHash_loop hp load H X hv =
     (if X = 0 then hv
      else if odd X then
        let X1 = X XOR 1
        in PredictedHash_loop hp load (Suc H) (X1 div 2)
             (Interpret_new hp hv (load \<lparr>pos_H = H, pos_X = X1\<rparr>) False)
      else PredictedHash_loop hp load (Suc H) (X div 2) hv)"
  by pat_completeness auto
termination
  by (relation "measure (\<lambda>(hp, load, H, X, hv). X)") (auto simp: xor_one_odd [simplified] elim: oddE)

declare PredictedHash_loop.simps [simp del]

definition Mmr_get_PredictedHash :: "('h \<Rightarrow> 'h \<Rightarrow> 'h) \<Rightarrow> (Position \<Rightarrow> 'h) \<Rightarrow> nat \<Rightarrow> 'h \<Rightarrow> 'h" where
  "Mmr_get_PredictedHash hp load count hvAppend = PredictedHash_loop hp load 0 count hvAppend"

text \<open>\<open>None\<close> is the value of \<open>hv\<close> while \<open>bEmpty\<close> is set.\<close>

fun HashForRange_loop ::
  "('h \<Rightarrow> 'h \<Rightarrow> 'h) \<Rightarrow> (Position \<Rightarrow> 'h) \<Rightarrow> nat \<Rightarrow> nat \<Rightarrow> nat \<Rightarrow> 'h option \<Rightarrow> 'h option" where
  "HashForRange_loop hp load H n0 n acc =
     (if n = 0 then acc
      else
        HashForRange_loop hp load (Suc H) (n0 div 2) (n div 2)
          (if odd n then
             let hv0 = load \<lparr>pos_H = H, pos_X = (n0 + n) XOR 1\<rparr>
             in Some (case acc of None \<Rightarrow> hv0 | Some hv \<Rightarrow> Interpret_new hp hv hv0 False)
           else acc))"

declare HashForRange_loop.simps [simp del]

definition Mmr_get_HashForRange :: "('h \<Rightarrow> 'h \<Rightarrow> 'h) \<Rightarrow> (Position \<Rightarrow> 'h) \<Rightarrow> nat \<Rightarrow> nat \<Rightarrow> 'h option" where
  "Mmr_get_HashForRange hp load n0 n = HashForRange_loop hp load 0 n0 n None"

definition Mmr_get_Hash :: "('h::zero \<Rightarrow> 'h \<Rightarrow> 'h) \<Rightarrow> (Position \<Rightarrow> 'h) \<Rightarrow> nat \<Rightarrow> 'h" where
  "Mmr_get_Hash hp load count =
     (case Mmr_get_HashForRange hp load 0 count of None \<Rightarrow> 0 | Some hv \<Rightarrow> hv)"

text \<open>
  \<open>Mmr::get_Proof\<close> drives an \<open>IProofBuilder\<close>: \<open>add\<close> is its \<open>AppendNode\<close>, which may refuse to go on.
  \<open>the\<close> stands under the source's own check that the rest of the range is not empty.
\<close>

definition proof_node ::
  "('h \<Rightarrow> 'h \<Rightarrow> 'h) \<Rightarrow> (Position \<Rightarrow> 'h) \<Rightarrow> nat \<Rightarrow> nat \<Rightarrow> nat \<Rightarrow> 'h Node option" where
  "proof_node hp load count H i =
     (let pos = \<lparr>pos_H = H, pos_X = i XOR 1\<rparr> in
      if odd i then Some (False, load pos)
      else
        let n0 = push_bit H (i XOR 1) in
        if n0 \<ge> count then None
        else
          let nRemaining = count - n0 in
          if drop_bit H nRemaining \<noteq> 0 then Some (True, load pos)
          else Some (True, the (Mmr_get_HashForRange hp load n0 nRemaining)))"

fun get_Proof_loop ::
  "('h \<Rightarrow> 'h \<Rightarrow> 'h) \<Rightarrow> (Position \<Rightarrow> 'h) \<Rightarrow> nat \<Rightarrow> ('h Node \<Rightarrow> Position \<Rightarrow> 'b \<Rightarrow> 'b \<times> bool) \<Rightarrow>
   nat \<Rightarrow> nat \<Rightarrow> nat \<Rightarrow> 'b \<Rightarrow> 'b \<times> bool" where
  "get_Proof_loop hp load count add H n i b =
     (if n = 0 then (b, True)
      else
        case proof_node hp load count H i of
          None \<Rightarrow> get_Proof_loop hp load count add (Suc H) (n div 2) (i div 2) b
        | Some node \<Rightarrow>
            (case add node \<lparr>pos_H = H, pos_X = i XOR 1\<rparr> b of (b1, ok) \<Rightarrow>
               if \<not> ok then (b1, False)
               else get_Proof_loop hp load count add (Suc H) (n div 2) (i div 2) b1))"

declare get_Proof_loop.simps [simp del]

definition Mmr_get_Proof_with ::
  "('h \<Rightarrow> 'h \<Rightarrow> 'h) \<Rightarrow> (Position \<Rightarrow> 'h) \<Rightarrow> nat \<Rightarrow> ('h Node \<Rightarrow> Position \<Rightarrow> 'b \<Rightarrow> 'b \<times> bool) \<Rightarrow>
   nat \<Rightarrow> 'b \<Rightarrow> 'b \<times> bool" where
  "Mmr_get_Proof_with hp load count add i b = get_Proof_loop hp load count add 0 count i b"

definition ProofBuilderStd_AppendNode :: "'h Node \<Rightarrow> Position \<Rightarrow> 'h Proof \<Rightarrow> 'h Proof \<times> bool" where
  "ProofBuilderStd_AppendNode n pos p = (p @ [n], True)"

definition ProofBuilderHard_AppendNode :: "'h Node \<Rightarrow> Position \<Rightarrow> 'h list \<Rightarrow> 'h list \<times> bool" where
  "ProofBuilderHard_AppendNode n pos p = (p @ [snd n], True)"

definition Mmr_get_Proof :: "('h \<Rightarrow> 'h \<Rightarrow> 'h) \<Rightarrow> (Position \<Rightarrow> 'h) \<Rightarrow> nat \<Rightarrow> 'h Proof \<Rightarrow> nat \<Rightarrow> 'h Proof" where
  "Mmr_get_Proof hp load count p i =
     fst (Mmr_get_Proof_with hp load count ProofBuilderStd_AppendNode i p)"

subsection \<open>On-the-fly evaluation (FlyMmr)\<close>

text \<open>\<open>FlyMmr::Inner::Calculate\<close>: the hash of a full subtree from the elements below it.\<close>

fun Fly_Calculate_at :: "('h \<Rightarrow> 'h \<Rightarrow> 'h) \<Rightarrow> (nat \<Rightarrow> 'h) \<Rightarrow> nat \<Rightarrow> nat \<Rightarrow> 'h" where
  "Fly_Calculate_at hp leaf 0 X = leaf X"
| "Fly_Calculate_at hp leaf (Suc H) X =
     Interpret_new hp (Fly_Calculate_at hp leaf H (push_bit 1 X))
       (Fly_Calculate_at hp leaf H (push_bit 1 X + 1)) True"

definition Fly_Calculate :: "('h \<Rightarrow> 'h \<Rightarrow> 'h) \<Rightarrow> (nat \<Rightarrow> 'h) \<Rightarrow> Position \<Rightarrow> 'h" where
  "Fly_Calculate hp leaf pos = Fly_Calculate_at hp leaf (pos_H pos) (pos_X pos)"

definition Fly_get_Hash :: "('h::zero \<Rightarrow> 'h \<Rightarrow> 'h) \<Rightarrow> (nat \<Rightarrow> 'h) \<Rightarrow> nat \<Rightarrow> 'h" where
  "Fly_get_Hash hp leaf count = Mmr_get_Hash hp (Fly_Calculate hp leaf) count"

definition Fly_get_Proof ::
  "('h \<Rightarrow> 'h \<Rightarrow> 'h) \<Rightarrow> (nat \<Rightarrow> 'h) \<Rightarrow> nat \<Rightarrow> ('h Node \<Rightarrow> Position \<Rightarrow> 'b \<Rightarrow> 'b \<times> bool) \<Rightarrow> nat \<Rightarrow> 'b \<Rightarrow> 'b \<times> bool" where
  "Fly_get_Proof hp leaf count add i b = Mmr_get_Proof_with hp (Fly_Calculate hp leaf) count add i b"

subsection \<open>The range of bounded size in a flat array (FixedMmmr)\<close>

record 'h FixedMmmr =
  m_vHashes :: "'h list"
  m_Total :: nat

fun Reset_loop :: "nat \<Rightarrow> nat \<Rightarrow> nat" where
  "Reset_loop nTotal nHashes =
     (if nTotal div 2 = 0 then nHashes else Reset_loop (nTotal div 2) (nHashes + nTotal div 2))"

declare Reset_loop.simps [simp del]

text \<open>The vector is resized: kept hashes stay, new ones are zero.\<close>

definition Fixed_Reset :: "nat \<Rightarrow> 'h::zero FixedMmmr \<Rightarrow> 'h FixedMmmr" where
  "Fixed_Reset nTotal f =
     (let nHashes = Reset_loop nTotal nTotal
      in f\<lparr>m_Total := nTotal,
          m_vHashes := take nHashes (m_vHashes f) @ replicate (nHashes - length (m_vHashes f)) 0\<rparr>)"

fun Pos2Idx_loop :: "nat \<Rightarrow> nat \<Rightarrow> nat \<Rightarrow> nat" where
  "Pos2Idx_loop 0 nTotal ret = ret"
| "Pos2Idx_loop (Suc H) nTotal ret = Pos2Idx_loop H (nTotal div 2) (ret + nTotal)"

definition Pos2Idx :: "nat \<Rightarrow> Position \<Rightarrow> nat" where
  "Pos2Idx nTotal pos = Pos2Idx_loop (pos_H pos) nTotal (pos_X pos)"

definition Fixed_LoadElement :: "'h FixedMmmr \<Rightarrow> Position \<Rightarrow> 'h" where
  "Fixed_LoadElement f pos = m_vHashes f ! Pos2Idx (m_Total f) pos"

definition Fixed_SaveElement :: "'h \<Rightarrow> Position \<Rightarrow> 'h FixedMmmr \<Rightarrow> 'h FixedMmmr" where
  "Fixed_SaveElement hv pos f = f\<lparr>m_vHashes := (m_vHashes f)[Pos2Idx (m_Total f) pos := hv]\<rparr>"

subsection \<open>The rightmost branch only (CompactMmr)\<close>

record 'h CompactMmr =
  cm_Count :: nat
  m_vNodes :: "'h list"

text \<open>\<open>for (hv = m_vNodes[--i]; i; ) Interpret(hv, m_vNodes[--i], false)\<close>\<close>

primrec Compact_fold :: "('h \<Rightarrow> 'h \<Rightarrow> 'h) \<Rightarrow> 'h list \<Rightarrow> nat \<Rightarrow> 'h \<Rightarrow> 'h" where
  "Compact_fold hp v 0 hv = hv"
| "Compact_fold hp v (Suc i) hv = Compact_fold hp v i (Interpret_new hp hv (v ! i) False)"

definition Compact_get_Hash :: "('h::zero \<Rightarrow> 'h \<Rightarrow> 'h) \<Rightarrow> 'h CompactMmr \<Rightarrow> 'h" where
  "Compact_get_Hash hp m =
     (let v = m_vNodes m; i = length v
      in if i \<noteq> 0 then Compact_fold hp v (i - 1) (v ! (i - 1)) else 0)"

fun Compact_Predicted_loop :: "('h \<Rightarrow> 'h \<Rightarrow> 'h) \<Rightarrow> 'h list \<Rightarrow> nat \<Rightarrow> nat \<Rightarrow> 'h \<Rightarrow> 'h" where
  "Compact_Predicted_loop hp v n iPos hv =
     (if n = 0 then hv
      else if odd n then Compact_Predicted_loop hp v (n div 2) (iPos - 1) (Interpret_new hp hv (v ! (iPos - 1)) False)
      else Compact_Predicted_loop hp v (n div 2) iPos hv)"

declare Compact_Predicted_loop.simps [simp del]

definition Compact_get_PredictedHash :: "('h \<Rightarrow> 'h \<Rightarrow> 'h) \<Rightarrow> 'h CompactMmr \<Rightarrow> 'h \<Rightarrow> 'h" where
  "Compact_get_PredictedHash hp m hvAppend =
     Compact_Predicted_loop hp (m_vNodes m) (cm_Count m) (length (m_vNodes m)) hvAppend"

function Compact_Append_loop :: "('h \<Rightarrow> 'h \<Rightarrow> 'h) \<Rightarrow> nat \<Rightarrow> 'h \<Rightarrow> 'h list \<Rightarrow> 'h list" where
  "Compact_Append_loop hp n hv1 v =
     (if \<not> odd n then v @ [hv1]
      else Compact_Append_loop hp (n div 2) (Interpret_new hp hv1 (last v) False) (butlast v))"
  by pat_completeness auto
termination
  by (relation "measure (\<lambda>(hp, n, hv1, v). n)") (auto elim: oddE)

declare Compact_Append_loop.simps [simp del]

definition Compact_Append :: "('h \<Rightarrow> 'h \<Rightarrow> 'h) \<Rightarrow> 'h \<Rightarrow> 'h CompactMmr \<Rightarrow> 'h CompactMmr" where
  "Compact_Append hp hv m =
     m\<lparr>m_vNodes := Compact_Append_loop hp (cm_Count m) hv (m_vNodes m), cm_Count := cm_Count m + 1\<rparr>"

subsection \<open>Specification: the balanced binary hash tree\<close>

text \<open>
  \<open>split_pt n\<close> is the largest power of two below \<open>n\<close> (for \<open>n > 1\<close>), and \<open>mth\<close> the tree hash of
  RFC 6962: the elements \<open>lo, \<dots>, lo + n - 1\<close> are split there.
\<close>

fun split_pt :: "nat \<Rightarrow> nat" where
  "split_pt n = (if n \<le> 2 then 1 else 2 * split_pt (Suc n div 2))"

declare split_pt.simps [simp del]

lemma split_pt_eq: "2 ^ h < n \<Longrightarrow> n \<le> 2 ^ Suc h \<Longrightarrow> split_pt n = 2 ^ h"
proof (induction h arbitrary: n)
  case 0
  then show ?case by (subst split_pt.simps) simp
next
  case (Suc h)
  have "split_pt (Suc n div 2) = 2 ^ h"
    using Suc.prems by (intro Suc.IH) auto
  moreover have "(1::nat) \<le> 2 ^ h" by simp
  with Suc.prems(1) have "2 < n" unfolding power_Suc by linarith
  ultimately show ?case by (subst split_pt.simps) simp
qed

lemma power_bracket: "1 < n \<Longrightarrow> \<exists>h. 2 ^ h < n \<and> n \<le> (2::nat) ^ Suc h"
proof (induction n rule: less_induct)
  case (less n)
  show ?case
  proof (cases "n = 2")
    case True
    then show ?thesis by (intro exI [of _ 0]) simp
  next
    case False
    then have "Suc n div 2 < n" "1 < Suc n div 2" using less.prems by auto
    from less.IH [OF this] obtain h where "2 ^ h < Suc n div 2" "Suc n div 2 \<le> 2 ^ Suc h" by blast
    then show ?thesis by (intro exI [of _ "Suc h"]) auto
  qed
qed

lemma split_pt_bounds: "1 < n \<Longrightarrow> 0 < split_pt n \<and> split_pt n < n"
  using power_bracket [of n] split_pt_eq by fastforce

function mth :: "('h::zero \<Rightarrow> 'h \<Rightarrow> 'h) \<Rightarrow> (nat \<Rightarrow> 'h) \<Rightarrow> nat \<Rightarrow> nat \<Rightarrow> 'h" where
  "mth hp leaf lo n =
     (if n = 0 then 0
      else if n = 1 then leaf lo
      else hp (mth hp leaf lo (split_pt n)) (mth hp leaf (lo + split_pt n) (n - split_pt n)))"
  by pat_completeness auto
termination
  by (relation "measure (\<lambda>(hp, leaf, lo, n). n)") (use split_pt_bounds in auto)

declare mth.simps [simp del]

text \<open>The hash of the full subtree at height \<open>h\<close>, position \<open>x\<close>.\<close>

fun node_hash :: "('h \<Rightarrow> 'h \<Rightarrow> 'h) \<Rightarrow> (nat \<Rightarrow> 'h) \<Rightarrow> nat \<Rightarrow> nat \<Rightarrow> 'h" where
  "node_hash hp leaf 0 x = leaf x"
| "node_hash hp leaf (Suc h) x = hp (node_hash hp leaf h (2 * x)) (node_hash hp leaf h (2 * x + 1))"

lemma mth_zero [simp]: "mth hp leaf lo 0 = 0"
  by (simp add: mth.simps)

lemma mth_one [simp]: "mth hp leaf lo (Suc 0) = leaf lo"
  by (simp add: mth.simps)

lemma mth_branch: "0 < r \<Longrightarrow> r \<le> 2 ^ h \<Longrightarrow>
    mth hp leaf lo (2 ^ h + r) = hp (mth hp leaf lo (2 ^ h)) (mth hp leaf (lo + 2 ^ h) r)"
  using split_pt_eq [of h "2 ^ h + r"] one_le_power [of "2::nat" h] by (subst mth.simps) auto

lemma mth_full: "mth hp leaf (x * 2 ^ h) (2 ^ h) = node_hash hp leaf h x"
proof (induction h arbitrary: x)
  case (Suc h)
  have "mth hp leaf (x * 2 ^ Suc h) (2 ^ h + 2 ^ h) =
      hp (mth hp leaf (2 * x * 2 ^ h) (2 ^ h)) (mth hp leaf ((2 * x + 1) * 2 ^ h) (2 ^ h))"
    by (subst mth_branch) (simp_all add: algebra_simps)
  then show ?case by (simp only: Suc.IH node_hash.simps power_Suc mult_2)
qed simp

lemma mth_split:
  assumes "0 < r" and "r \<le> 2 ^ h"
  shows "mth hp leaf (x * 2 ^ h) (2 ^ h + r) = hp (node_hash hp leaf h x) (mth hp leaf (Suc x * 2 ^ h) r)"
  using mth_branch [OF assms, of hp leaf "x * 2 ^ h"] by (simp add: mth_full algebra_simps)

lemma node_hash_cong:
  "(\<And>i. i < (x + 1) * 2 ^ h \<Longrightarrow> leaf i = leaf' i) \<Longrightarrow> node_hash hp leaf h x = node_hash hp leaf' h x"
proof (induction h arbitrary: x)
  case (Suc h)
  have "node_hash hp leaf h y = node_hash hp leaf' h y" if "y + 1 \<le> 2 * (x + 1)" for y
  proof (rule Suc.IH)
    fix i assume "i < (y + 1) * 2 ^ h"
    also have "\<dots> \<le> 2 * (x + 1) * 2 ^ h" using that by (rule mult_right_mono) simp
    finally show "leaf i = leaf' i" using Suc.prems [of i] by (simp add: algebra_simps)
  qed
  then show ?case by simp
qed simp

lemma mth_cong:
  "(\<And>i. lo \<le> i \<Longrightarrow> i < lo + n \<Longrightarrow> leaf i = leaf' i) \<Longrightarrow> mth hp leaf lo n = mth hp leaf' lo n"
proof (induction hp leaf lo n rule: mth.induct)
  case (1 hp leaf lo n)
  show ?case
  proof (cases "n \<le> 1")
    case True
    then show ?thesis using "1.prems" [of lo] by (cases "n = 0") (auto simp: le_Suc_eq)
  next
    case False
    then have "0 < split_pt n \<and> split_pt n < n" using split_pt_bounds [of n] by simp
    then have "mth hp leaf lo (split_pt n) = mth hp leaf' lo (split_pt n)"
        "mth hp leaf (lo + split_pt n) (n - split_pt n) = mth hp leaf' (lo + split_pt n) (n - split_pt n)"
      using False by (auto intro!: "1.IH" "1.prems")
    then show ?thesis using False by (subst (1 2) mth.simps) simp
  qed
qed

lemma half_below: "i * 2 ^ H < count \<Longrightarrow> i div 2 * 2 ^ Suc H < (count :: nat)"
proof -
  assume "i * 2 ^ H < count"
  moreover have "i div 2 * 2 * 2 ^ H \<le> i * 2 ^ H" by (rule mult_right_mono) simp_all
  ultimately show ?thesis unfolding power_Suc mult.assoc by (rule le_less_trans [rotated])
qed

lemma Fly_Calculate_at_eq: "Fly_Calculate_at hp leaf h x = node_hash hp leaf h x"
  by (induction h arbitrary: x) (simp_all add: Interpret_new_def Interpret_pair_def mult.commute)


subsection \<open>Reading: what every implementation of the virtual loader gives\<close>

text \<open>
  The contract between the range and the class that implements \<open>LoadElement\<close>: for \<open>count\<close> elements
  \<open>leaf\<close>, the loader returns the hash of every full subtree that lies within the range.
\<close>

locale mmr_reader =
  fixes hp :: "'h::zero \<Rightarrow> 'h \<Rightarrow> 'h" and load :: "Position \<Rightarrow> 'h" and leaf :: "nat \<Rightarrow> 'h" and count :: nat
  assumes load_node: "Suc x * 2 ^ h \<le> count \<Longrightarrow> load \<lparr>pos_H = h, pos_X = x\<rparr> = node_hash hp leaf h x"
begin

lemma HashForRange_loop_eq:
  assumes "n < 2 ^ K" and "2 ^ K dvd n0" and "(n0 + n) * 2 ^ H + r \<le> count" and "r < 2 ^ H"
    and "acc = (if r = 0 then None else Some (mth hp leaf ((n0 + n) * 2 ^ H) r))"
  shows "HashForRange_loop hp load H n0 n acc =
    (if n * 2 ^ H + r = 0 then None else Some (mth hp leaf (n0 * 2 ^ H) (n * 2 ^ H + r)))"
  using assms
proof (induction n arbitrary: H n0 K r acc rule: less_induct)
  case (less n)
  show ?case
  proof (cases "n = 0")
    case True
    then show ?thesis using less.prems(5) by (subst HashForRange_loop.simps) simp
  next
    case False
    then obtain k where K: "K = Suc k" using less.prems(1) by (cases K) auto
    with less.prems(2) obtain m0 where m0: "n0 = 2 * m0" "2 ^ k dvd m0"
      by (auto elim!: dvdE simp: mult.assoc)
    have nk: "n div 2 < n" "n div 2 < 2 ^ k" using False less.prems(1) K by auto
    show ?thesis
    proof (cases "even n")
      case True
      then obtain m where m: "n = 2 * m" by (auto elim: evenE)
      have "HashForRange_loop hp load (Suc H) m0 m acc =
          (if m * 2 ^ Suc H + r = 0 then None else Some (mth hp leaf (m0 * 2 ^ Suc H) (m * 2 ^ Suc H + r)))"
        using less.prems(3-5) nk m0 m
        by (intro less.IH [of m k]) (simp_all add: algebra_simps)
      then show ?thesis using False m m0 by (subst HashForRange_loop.simps) (simp add: algebra_simps)
    next
      case odd: False
      then obtain m where m: "n = 2 * m + 1" by (auto elim: oddE)
      let ?x = "2 * m0 + 2 * m"
      have x: "(n0 + n) XOR 1 = ?x" by (subst xor_one_odd) (simp_all add: m m0)
      have load: "load \<lparr>pos_H = H, pos_X = ?x\<rparr> = node_hash hp leaf H ?x"
        using less.prems(3) m m0 by (intro load_node) (simp add: algebra_simps)
      have acc': "Some (case acc of None \<Rightarrow> node_hash hp leaf H ?x | Some hv \<Rightarrow> Interpret_new hp hv (node_hash hp leaf H ?x) False)
          = Some (mth hp leaf ((m0 + m) * 2 ^ Suc H) (2 ^ H + r))"
      proof (cases "r = 0")
        case True
        then show ?thesis using less.prems(5) mth_full [of hp leaf ?x H] by (simp add: algebra_simps)
      next
        case False
        then show ?thesis using less.prems(4,5) m m0 mth_split [of r H hp leaf ?x]
          by (simp add: Interpret_new_def Interpret_pair_def algebra_simps)
      qed
      have "HashForRange_loop hp load (Suc H) m0 m (Some (mth hp leaf ((m0 + m) * 2 ^ Suc H) (2 ^ H + r))) =
          (if m * 2 ^ Suc H + (2 ^ H + r) = 0 then None
           else Some (mth hp leaf (m0 * 2 ^ Suc H) (m * 2 ^ Suc H + (2 ^ H + r))))"
        using less.prems(3,4) nk m0 m
        by (intro less.IH [of m k]) (simp_all add: algebra_simps)
      moreover have "HashForRange_loop hp load H n0 n acc =
          HashForRange_loop hp load (Suc H) (n0 div 2) (n div 2)
            (Some (case acc of None \<Rightarrow> load \<lparr>pos_H = H, pos_X = (n0 + n) XOR 1\<rparr>
              | Some hv \<Rightarrow> Interpret_new hp hv (load \<lparr>pos_H = H, pos_X = (n0 + n) XOR 1\<rparr>) False))"
        using False odd by (subst HashForRange_loop.simps) (simp only: Let_def if_False if_True not_False_eq_True)
      moreover have "n0 div 2 = m0" "n div 2 = m" "n0 * 2 ^ H = m0 * 2 ^ Suc H"
          "n * 2 ^ H + r = m * 2 ^ Suc H + (2 ^ H + r)"
        by (simp_all add: m m0)
      ultimately show ?thesis by (simp only: x load acc')
    qed
  qed
qed

lemma HashForRange_eq:
  assumes "n < 2 ^ K" and "2 ^ K dvd n0" and "n0 + n \<le> count"
  shows "Mmr_get_HashForRange hp load n0 n = (if n = 0 then None else Some (mth hp leaf n0 n))"
  using HashForRange_loop_eq [of n K n0 0 0 None] assms by (simp add: Mmr_get_HashForRange_def)

lemma PredictedHash_loop_eq:
  assumes "r < 2 ^ H" and "X * 2 ^ H + r = count" and "leaf' = leaf(count := hvAppend)"
  shows "PredictedHash_loop hp load H X (mth hp leaf' (X * 2 ^ H) (Suc r)) = mth hp leaf' 0 (Suc count)"
  using assms
proof (induction X arbitrary: H r rule: less_induct)
  case (less X)
  show ?case
  proof (cases "X = 0")
    case True
    then show ?thesis using less.prems(2) by (subst PredictedHash_loop.simps) simp
  next
    case False
    show ?thesis
    proof (cases "even X")
      case True
      then obtain x where x: "X = 2 * x" by (auto elim: evenE)
      then have "PredictedHash_loop hp load (Suc H) x (mth hp leaf' (x * 2 ^ Suc H) (Suc r)) = mth hp leaf' 0 (Suc count)"
        using False less.prems by (intro less.IH) auto
      then show ?thesis using False x by (subst PredictedHash_loop.simps) (simp add: mult_ac)
    next
      case odd: False
      then obtain x where x: "X = Suc (2 * x)" by (auto elim: oddE)
      have xor: "X XOR 1 = 2 * x" using xor_one_odd [OF odd] x by simp
      have fit: "Suc (2 * x) * 2 ^ H \<le> count" using less.prems(2) x by simp
      have "node_hash hp leaf H (2 * x) = node_hash hp leaf' H (2 * x)"
        using fit less.prems(3) by (intro node_hash_cong) auto
      with load_node [OF fit] have load: "load \<lparr>pos_H = H, pos_X = 2 * x\<rparr> = node_hash hp leaf' H (2 * x)" by simp
      have "Interpret_new hp (mth hp leaf' (X * 2 ^ H) (Suc r)) (node_hash hp leaf' H (2 * x)) False
          = mth hp leaf' (2 * x * 2 ^ H) (2 ^ H + Suc r)"
        using mth_split [of "Suc r" H hp leaf' "2 * x"] less.prems(1)
        by (simp add: Interpret_new_def Interpret_pair_def x)
      moreover have "PredictedHash_loop hp load (Suc H) x (mth hp leaf' (x * 2 ^ Suc H) (Suc (2 ^ H + r)))
          = mth hp leaf' 0 (Suc count)"
        using x less.prems by (intro less.IH) auto
      moreover have "2 * x * 2 ^ H = x * 2 ^ Suc H" "Suc (2 ^ H + r) = 2 ^ H + Suc r" "2 * x div 2 = x" by simp_all
      ultimately show ?thesis using False odd load
        by (subst PredictedHash_loop.simps) (simp only: xor Let_def if_False if_True not_False_eq_True)
    qed
  qed
qed

lemma get_PredictedHash_eq:
  "Mmr_get_PredictedHash hp load count hvAppend = mth hp (leaf(count := hvAppend)) 0 (Suc count)"
  using PredictedHash_loop_eq [of 0 0 count _ hvAppend] by (simp add: Mmr_get_PredictedHash_def)

text \<open>The hash of the part of the range below the node at height \<open>H\<close> above element \<open>i\<close>.\<close>

lemma proof_node_step:
  assumes "i * 2 ^ H < count" and "r = min (2 ^ H) (count - i * 2 ^ H)"
    and "R = mth hp leaf (i div 2 * 2 ^ Suc H) (min (2 ^ Suc H) (count - i div 2 * 2 ^ Suc H))"
  shows "(case proof_node hp load count H i of None \<Rightarrow> mth hp leaf (i * 2 ^ H) r
      | Some node \<Rightarrow> Interpret_node hp (mth hp leaf (i * 2 ^ H) r) node) = R"
proof (cases "odd i")
  case True
  then obtain x where x: "i = Suc (2 * x)" by (auto elim: oddE)
  have xor: "i XOR 1 = 2 * x" using xor_one_odd [OF True] x by simp
  have r: "0 < r" "r \<le> 2 ^ H" "min (2 ^ Suc H) (count - x * 2 ^ Suc H) = 2 ^ H + r"
    using assms(1,2) x by (auto simp: min_def)
  have "load \<lparr>pos_H = H, pos_X = 2 * x\<rparr> = node_hash hp leaf H (2 * x)"
    using assms(1) x by (intro load_node) simp
  then show ?thesis
    using mth_split [OF r(1,2), of hp leaf "2 * x"] True assms(3) r(3)
    by (simp only: proof_node_def Let_def xor)
      (simp add: x Interpret_node_def Interpret_new_def Interpret_pair_def mult_ac)
next
  case False
  then obtain x where x: "i = 2 * x" by (auto elim: evenE)
  have xor: "i XOR 1 = Suc (2 * x)" using xor_one_even [of i] x by simp
  have n0: "push_bit H (Suc (2 * x)) = Suc (2 * x) * 2 ^ H" by (simp add: push_bit_eq_mult)
  let ?n0 = "Suc (2 * x) * 2 ^ H"
  show ?thesis
  proof (cases "?n0 \<ge> count")
    case True
    then have "min (2 ^ Suc H) (count - x * 2 ^ Suc H) = r" using assms(1,2) x by (auto simp: min_def)
    then show ?thesis using True False assms(3)
      by (simp only: proof_node_def Let_def xor n0) (simp add: x mult_ac)
  next
    case nt: False
    let ?s = "min (2 ^ H) (count - ?n0)"
    have s: "0 < ?s" "?s \<le> 2 ^ H" "min (2 ^ Suc H) (count - x * 2 ^ Suc H) = 2 ^ H + ?s" "r = 2 ^ H"
      using nt assms(1,2) x by (auto simp: min_def)
    have R: "R = hp (node_hash hp leaf H (2 * x)) (mth hp leaf ?n0 ?s)"
      using mth_split [OF s(1,2), of hp leaf "2 * x"] assms(3) s(3) by (simp add: x mult_ac)
    have "(if drop_bit H (count - ?n0) \<noteq> 0 then load \<lparr>pos_H = H, pos_X = Suc (2 * x)\<rparr>
        else the (Mmr_get_HashForRange hp load ?n0 (count - ?n0))) = mth hp leaf ?n0 ?s"
    proof (cases "2 ^ H \<le> count - ?n0")
      case True
      then have "load \<lparr>pos_H = H, pos_X = Suc (2 * x)\<rparr> = mth hp leaf ?n0 (2 ^ H)"
        using nt unfolding mth_full by (intro load_node) (simp add: algebra_simps)
      then show ?thesis using True by (simp add: drop_bit_eq_div div_eq_0_iff min_def)
    next
      case lt: False
      then have "Mmr_get_HashForRange hp load ?n0 (count - ?n0) = Some (mth hp leaf ?n0 (count - ?n0))"
        using HashForRange_eq [of "count - ?n0" H ?n0] nt by simp
      then show ?thesis using lt by (simp add: drop_bit_eq_div div_eq_0_iff min_def)
    qed
    then show ?thesis using nt False R s(4) mth_full [of hp leaf "2 * x" H]
      by (simp only: proof_node_def Let_def xor n0)
        (simp add: x Interpret_node_def Interpret_new_def Interpret_pair_def split: if_splits)
  qed
qed

lemma get_Proof_loop_eq:
  assumes "i * 2 ^ H < count" and "n = count div 2 ^ H"
  shows "\<exists>ps. get_Proof_loop hp load count ProofBuilderStd_AppendNode H n i b = (b @ ps, True) \<and>
    Interpret hp (mth hp leaf (i * 2 ^ H) (min (2 ^ H) (count - i * 2 ^ H))) ps = mth hp leaf 0 count"
  using assms
proof (induction n arbitrary: H i b rule: less_induct)
  case (less n)
  show ?case
  proof (cases "n = 0")
    case True
    then have "count < 2 ^ H" using less.prems(2) by (simp add: div_eq_0_iff)
    then have "i = 0" using less.prems(1) by (cases i) auto
    then show ?thesis using True \<open>count < 2 ^ H\<close> by (subst get_Proof_loop.simps) simp
  next
    case False
    let ?r = "min (2 ^ H) (count - i * 2 ^ H)"
    note i2 = half_below [OF less.prems(1)]
    have n2: "n div 2 < n" "n div 2 = count div 2 ^ Suc H"
      using False by simp (simp add: less.prems(2) div_mult2_eq [symmetric] mult.commute)
    note IH = less.IH [OF n2(1) i2 n2(2)]
    note step = proof_node_step [OF less.prems(1) refl refl]
    show ?thesis
    proof (cases "proof_node hp load count H i")
      case None
      then show ?thesis using step IH [of b] False by (subst get_Proof_loop.simps) simp
    next
      case (Some node)
      from IH [of "b @ [node]"] obtain ps where
        "get_Proof_loop hp load count ProofBuilderStd_AppendNode (Suc H) (n div 2) (i div 2) (b @ [node]) = (b @ (node # ps), True)"
        "Interpret hp (mth hp leaf (i div 2 * 2 ^ Suc H) (min (2 ^ Suc H) (count - i div 2 * 2 ^ Suc H))) ps = mth hp leaf 0 count"
        by auto
      then show ?thesis using step Some False
        by (intro exI [of _ "node # ps"], subst get_Proof_loop.simps) (simp add: ProofBuilderStd_AppendNode_def)
    qed
  qed
qed

lemma get_Proof_eq:
  assumes "i < count"
  shows "\<exists>ps. Mmr_get_Proof hp load count p i = p @ ps \<and> Interpret hp (leaf i) ps = mth hp leaf 0 count"
  using get_Proof_loop_eq [of i 0 count p] assms by (auto simp: Mmr_get_Proof_def Mmr_get_Proof_with_def)

lemma get_Hash_eq: "Mmr_get_Hash hp load count = mth hp leaf 0 count"
  using HashForRange_eq [of count count 0] by (simp add: Mmr_get_Hash_def)

end


interpretation fly: mmr_reader hp "Fly_Calculate hp leaf" leaf count for hp leaf count
  by unfold_locales (simp add: Fly_Calculate_def Fly_Calculate_at_eq)

subsection \<open>Writing: what every implementation of the virtual store gives\<close>

text \<open>
  The contract of a store: within the positions \<open>ok\<close> of a state, a saved element is read back and
  the others stay.
\<close>

locale mmr_store =
  fixes load :: "'s \<Rightarrow> Position \<Rightarrow> 'h::zero" and save :: "'h \<Rightarrow> Position \<Rightarrow> 's \<Rightarrow> 's"
    and ok :: "'s \<Rightarrow> Position \<Rightarrow> bool"
  assumes load_save: "ok st p \<Longrightarrow> ok st q \<Longrightarrow> load (save hv p st) q = (if q = p then hv else load st q)"
    and ok_save: "ok (save hv p st) q = ok st q"
begin

text \<open>The store holds the hashes of all full subtrees of the first \<open>n\<close> elements \<open>leaf\<close>.\<close>

definition holds :: "('h \<Rightarrow> 'h \<Rightarrow> 'h) \<Rightarrow> (nat \<Rightarrow> 'h) \<Rightarrow> nat \<Rightarrow> 's \<Rightarrow> bool" where
  "holds hp leaf n st \<longleftrightarrow> (\<forall>h x. Suc x * 2 ^ h \<le> n \<longrightarrow> load st \<lparr>pos_H = h, pos_X = x\<rparr> = node_hash hp leaf h x)"

definition room :: "nat \<Rightarrow> 's \<Rightarrow> bool" where
  "room n st \<longleftrightarrow> (\<forall>h x. Suc x * 2 ^ h \<le> n \<longrightarrow> ok st \<lparr>pos_H = h, pos_X = x\<rparr>)"

lemma holds_reader: "holds hp leaf n st \<Longrightarrow> mmr_reader hp (load st) leaf n"
  by unfold_locales (simp add: holds_def)

lemma room_save [simp]: "room n (save hv p st) = room n st"
  by (simp add: room_def ok_save)

lemma Append_loop_room: "room n (Mmr_Append_loop hp load save H X hv st) = room n st"
proof (induction X arbitrary: H hv st rule: less_induct)
  case (less X)
  show ?case
  proof (cases "odd X")
    case True
    then have "(X XOR 1) div 2 < X" unfolding xor_one_odd [OF True] by (auto elim: oddE)
    then show ?thesis using True less.IH by (subst Mmr_Append_loop.simps) (simp add: Let_def)
  qed (subst Mmr_Append_loop.simps, simp)
qed

lemma Append_loop_holds:
  assumes "Suc n = Suc X * 2 ^ H" and "room (Suc n) st"
    and "\<And>h x. Suc x * 2 ^ h \<le> n \<or> h < H \<and> Suc x * 2 ^ h \<le> Suc n \<Longrightarrow>
      load st \<lparr>pos_H = h, pos_X = x\<rparr> = node_hash hp leaf h x"
  shows "holds hp leaf (Suc n) (Mmr_Append_loop hp load save H X (node_hash hp leaf H X) st)"
  using assms
proof (induction X arbitrary: H st rule: less_induct)
  case (less X)
  let ?p = "\<lparr>pos_H = H, pos_X = X\<rparr>" and ?hv = "node_hash hp leaf H X"
  let ?st = "save ?hv ?p st"
  have okp: "ok st ?p" using less.prems(1,2) by (simp add: room_def)
  have ld: "load ?st \<lparr>pos_H = h, pos_X = x\<rparr> = node_hash hp leaf h x"
    if "Suc x * 2 ^ h \<le> n \<or> h \<le> H \<and> Suc x * 2 ^ h \<le> Suc n" for h x
  proof -
    have "ok st \<lparr>pos_H = h, pos_X = x\<rparr>" using that less.prems(2) by (auto simp: room_def)
    moreover have "x = X" if "h = H" "\<not> Suc x * 2 ^ h \<le> n" "Suc x * 2 ^ h \<le> Suc n"
    proof -
      have "Suc x * 2 ^ H = Suc X * 2 ^ H" using that(2,3) less.prems(1) unfolding that(1) by linarith
      then show ?thesis by simp
    qed
    ultimately show ?thesis
      using that less.prems(3) [of x h] load_save [OF okp, of "\<lparr>pos_H = h, pos_X = x\<rparr>"]
      by (cases "h = H") auto
  qed
  show ?case
  proof (cases "odd X")
    case False
    have "Suc x * 2 ^ h \<le> n \<or> h \<le> H" if "Suc x * 2 ^ h \<le> Suc n" for h x
    proof (rule ccontr)
      assume c: "\<not> ?thesis"
      then obtain d where "h = Suc (H + d)" using less_imp_Suc_add [of H h] by auto
      moreover have "Suc x * 2 ^ h = Suc X * 2 ^ H" using c that less.prems(1) by linarith
      ultimately have "Suc x * 2 ^ Suc d * 2 ^ H = Suc X * 2 ^ H" by (simp add: power_add algebra_simps)
      then have "Suc x * 2 ^ Suc d = Suc X" by (simp only: mult_cancel2) simp
      then have "even (Suc X)" by (metis dvd_mult dvd_triv_left power_Suc)
      then show False using False by simp
    qed
    then show ?thesis using False ld by (subst Mmr_Append_loop.simps) (auto simp: holds_def)
  next
    case True
    then obtain y where y: "X = Suc (2 * y)" by (auto elim: oddE)
    have xor: "X XOR 1 = 2 * y" using xor_one_odd [OF True] y by simp
    have "load ?st \<lparr>pos_H = H, pos_X = 2 * y\<rparr> = node_hash hp leaf H (2 * y)"
      using less.prems(1) y by (intro ld) simp
    then have "Mmr_Append_loop hp load save H X ?hv st =
        Mmr_Append_loop hp load save (Suc H) y (node_hash hp leaf (Suc H) y) ?st"
      using True by (subst Mmr_Append_loop.simps) (simp only: Let_def xor if_False simp_thms, simp add: y Interpret_new_def Interpret_pair_def)
    moreover have "holds hp leaf (Suc n) (Mmr_Append_loop hp load save (Suc H) y (node_hash hp leaf (Suc H) y) ?st)"
      using less.prems(1,2) y by (intro less.IH ld) auto
    ultimately show ?thesis by simp
  qed
qed

lemma Append_holds:
  assumes "holds hp leaf n (m_Store m)" and "room (Suc n) (m_Store m)" and "m_Count m = n"
    and "leaf n = hv"
  shows "holds hp leaf (Suc n) (m_Store (Mmr_Append hp load save hv m)) \<and>
    room k (m_Store (Mmr_Append hp load save hv m)) = room k (m_Store m) \<and>
    m_Count (Mmr_Append hp load save hv m) = Suc n"
  using Append_loop_holds [of n n 0 "m_Store m" hp leaf] assms
  by (simp add: Mmr_Append_def Append_loop_room holds_def)

text \<open>What a range over such a store returns.\<close>

lemmas reader = mmr_reader.get_Hash_eq mmr_reader.get_PredictedHash_eq mmr_reader.get_Proof_eq

end

subsubsection \<open>The flat array\<close>

text \<open>The rows of the array: row \<open>h\<close> has \<open>total div 2 ^ h\<close> elements and starts at \<open>row_start\<close>.\<close>

fun row_start :: "nat \<Rightarrow> nat \<Rightarrow> nat" where
  "row_start nTotal 0 = 0"
| "row_start nTotal (Suc h) = nTotal + row_start (nTotal div 2) h"

lemma Pos2Idx_eq: "Pos2Idx nTotal pos = row_start nTotal (pos_H pos) + pos_X pos"
proof -
  have "Pos2Idx_loop h nTotal r = row_start nTotal h + r" for h r
    by (induction h arbitrary: nTotal r) simp_all
  then show ?thesis by (simp add: Pos2Idx_def)
qed

lemma row_start_Suc: "row_start nTotal (Suc h) = row_start nTotal h + nTotal div 2 ^ h"
  by (induction h arbitrary: nTotal) (simp_all add: div_mult2_eq)

lemma row_start_mono: "h \<le> h' \<Longrightarrow> row_start nTotal h \<le> row_start nTotal h'"
  by (rule lift_Suc_mono_le) (simp_all only: row_start_Suc le_add1)

lemma Reset_loop_eq: "0 < nTotal \<Longrightarrow> \<exists>h. Reset_loop nTotal k = k + row_start (nTotal div 2) h \<and> nTotal div 2 ^ Suc h = 0"
proof (induction nTotal k rule: Reset_loop.induct)
  case (1 nTotal k)
  show ?case
  proof (cases "nTotal div 2 = 0")
    case True
    then show ?thesis by (subst Reset_loop.simps) (auto intro!: exI [of _ 0])
  next
    case False
    then obtain h where "Reset_loop (nTotal div 2) (k + nTotal div 2) = k + nTotal div 2 + row_start (nTotal div 2 div 2) h"
        "nTotal div 2 div 2 ^ Suc h = 0"
      using "1.IH" by auto
    then show ?thesis using False
      by (subst Reset_loop.simps) (auto intro!: exI [of _ "Suc h"] simp: div_mult2_eq)
  qed
qed

lemma row_start_0: "row_start 0 h = 0"
  by (induction h) simp_all

lemma row_start_limit: "nTotal div 2 ^ h = 0 \<Longrightarrow> row_start nTotal h' \<le> row_start nTotal h"
proof (induction h' arbitrary: h nTotal)
  case (Suc k)
  show ?case
  proof (cases h)
    case 0
    then show ?thesis using Suc.prems by (simp add: row_start_0)
  next
    case (Suc j)
    then show ?thesis using Suc.IH [of "nTotal div 2" j] Suc.prems by (simp add: div_mult2_eq)
  qed
qed simp

lemma Reset_covers:
  assumes "x < nTotal div 2 ^ h"
  shows "row_start nTotal h + x < Reset_loop nTotal nTotal"
proof -
  have "0 < nTotal" using assms by (cases nTotal) simp_all
  from Reset_loop_eq [OF this, of nTotal] obtain k where
    k: "Reset_loop nTotal nTotal = row_start nTotal (Suc k)" "nTotal div 2 ^ Suc k = 0" by auto
  have "row_start nTotal h + x < row_start nTotal (Suc h)" using assms by (simp only: row_start_Suc)
  also have "\<dots> \<le> row_start nTotal (Suc k)" using k(2) by (rule row_start_limit)
  finally show ?thesis by (simp only: k)
qed

lemma Pos2Idx_inj:
  assumes "x < nTotal div 2 ^ h" and "x' < nTotal div 2 ^ h'"
    and "row_start nTotal h + x = row_start nTotal h' + x'"
  shows "h = h' \<and> x = x'"
proof (cases h h' rule: linorder_cases)
  case less
  then have "row_start nTotal (Suc h) \<le> row_start nTotal h'" by (intro row_start_mono) simp
  then show ?thesis using assms unfolding row_start_Suc by linarith
next
  case greater
  then have "row_start nTotal (Suc h') \<le> row_start nTotal h" by (intro row_start_mono) simp
  then show ?thesis using assms unfolding row_start_Suc by linarith
qed (use assms in simp)

definition Fixed_ok :: "'h FixedMmmr \<Rightarrow> Position \<Rightarrow> bool" where
  "Fixed_ok f pos \<longleftrightarrow> pos_X pos < m_Total f div 2 ^ pos_H pos \<and>
     length (m_vHashes f) = Reset_loop (m_Total f) (m_Total f)"

interpretation fixed: mmr_store Fixed_LoadElement Fixed_SaveElement Fixed_ok
proof
  fix st :: "'h FixedMmmr" and p q hv
  assume A: "Fixed_ok st p" "Fixed_ok st q"
  let ?i = "\<lambda>p. Pos2Idx (m_Total st) p"
  have "?i q < length (m_vHashes st)"
    using A Reset_covers [of "pos_X q" "m_Total st" "pos_H q"] by (simp add: Fixed_ok_def Pos2Idx_eq)
  moreover have "?i p = ?i q \<longleftrightarrow> q = p"
    using A Pos2Idx_inj [of "pos_X p" "m_Total st" "pos_H p" "pos_X q" "pos_H q"]
    by (cases p; cases q) (auto simp: Fixed_ok_def Pos2Idx_eq)
  ultimately show "Fixed_LoadElement (Fixed_SaveElement hv p st) q = (if q = p then hv else Fixed_LoadElement st q)"
    by (auto simp: Fixed_LoadElement_def Fixed_SaveElement_def nth_list_update)
next
  show "Fixed_ok (Fixed_SaveElement hv p st) q = Fixed_ok st q" for hv p and st :: "'h FixedMmmr" and q
    by (simp add: Fixed_ok_def Fixed_SaveElement_def)
qed


lemma Fixed_room: "n \<le> m_Total f \<Longrightarrow> length (m_vHashes f) = Reset_loop (m_Total f) (m_Total f) \<Longrightarrow> fixed.room n f"
  unfolding fixed.room_def Fixed_ok_def
  by (auto simp: Suc_le_eq [symmetric] less_eq_div_iff_mult_less_eq intro: order_trans)

subsection \<open>The rightmost branch\<close>

text \<open>The peaks of a range of \<open>X * 2 ^ H\<close> elements, the lowest first.\<close>

fun peaks :: "('h \<Rightarrow> 'h \<Rightarrow> 'h) \<Rightarrow> (nat \<Rightarrow> 'h) \<Rightarrow> nat \<Rightarrow> nat \<Rightarrow> 'h list" where
  "peaks hp leaf H X =
     (if X = 0 then []
      else (if odd X then [node_hash hp leaf H (X - 1)] else []) @ peaks hp leaf (Suc H) (X div 2))"

declare peaks.simps [simp del]

lemma peaks_0 [simp]: "peaks hp leaf H 0 = []"
  by (simp add: peaks.simps)

lemma peaks_even: "peaks hp leaf H (2 * x) = peaks hp leaf (Suc H) x"
  by (cases "x = 0") (simp_all add: peaks.simps [of _ _ H])

lemma peaks_odd: "peaks hp leaf H (Suc (2 * x)) = node_hash hp leaf H (2 * x) # peaks hp leaf (Suc H) x"
  by (simp add: peaks.simps [of _ _ H])

lemma peaks_cong:
  "(\<And>i. i < X * 2 ^ H \<Longrightarrow> leaf i = leaf' i) \<Longrightarrow> peaks hp leaf H X = peaks hp leaf' H X"
proof (induction X arbitrary: H rule: less_induct)
  case (less X)
  show ?case
  proof (cases "even X")
    case True
    then obtain x where x: "X = 2 * x" by (auto elim: evenE)
    then show ?thesis using less.IH [of x "Suc H"] less.prems by (cases "x = 0") (auto simp: peaks_even)
  next
    case False
    then obtain x where x: "X = Suc (2 * x)" by (auto elim: oddE)
    then show ?thesis using less.IH [of x "Suc H"] less.prems node_hash_cong [of "2 * x" H leaf leaf' hp]
      by (auto simp: peaks_odd)
  qed
qed

text \<open>Folding an element into the peaks, the way the root and the predicted root are computed.\<close>

lemma foldl_peaks:
  assumes "0 < r" and "r \<le> 2 ^ H"
  shows "foldl (\<lambda>hv p. hp p hv) (mth hp leaf (X * 2 ^ H) r) (peaks hp leaf H X) = mth hp leaf 0 (X * 2 ^ H + r)"
  using assms
proof (induction X arbitrary: H r rule: less_induct)
  case (less X)
  show ?case
  proof (cases "even X")
    case True
    then obtain x where x: "X = 2 * x" by (auto elim: evenE)
    show ?thesis
    proof (cases "x = 0")
      case False
      then show ?thesis using less.IH [of x r "Suc H"] less.prems unfolding x peaks_even by (simp add: mult_ac)
    qed (simp add: x)
  next
    case False
    then obtain x where x: "X = Suc (2 * x)" by (auto elim: oddE)
    then show ?thesis using less.IH [of x "2 ^ H + r" "Suc H"] less.prems mth_split [of r H hp leaf "2 * x"]
      unfolding x peaks_odd by (simp add: algebra_simps)
  qed
qed


text \<open>The stored branch is the list of peaks, top-down.\<close>

definition Compact_inv :: "('h \<Rightarrow> 'h \<Rightarrow> 'h) \<Rightarrow> (nat \<Rightarrow> 'h) \<Rightarrow> 'h CompactMmr \<Rightarrow> bool" where
  "Compact_inv hp leaf m \<longleftrightarrow> m_vNodes m = rev (peaks hp leaf 0 (cm_Count m))"

lemma Compact_fold_eq: "i \<le> length v \<Longrightarrow> Compact_fold hp v i hv = foldl (\<lambda>hv p. hp p hv) hv (rev (take i v))"
  by (induction i arbitrary: hv) (simp_all add: take_Suc_conv_app_nth Interpret_new_def Interpret_pair_def)

lemma peaks_nonempty: "0 < X \<Longrightarrow> peaks hp leaf H X \<noteq> []"
proof (induction X arbitrary: H rule: less_induct)
  case (less X)
  then show ?case by (cases "even X") (auto elim!: evenE oddE simp: peaks_even peaks_odd)
qed

text \<open>The lowest peak and the rest: the root of a range is the fold of its other peaks.\<close>

lemma foldl_tl_peaks:
  "0 < X \<Longrightarrow> foldl (\<lambda>hv p. hp p hv) (hd (peaks hp leaf H X)) (tl (peaks hp leaf H X)) = mth hp leaf 0 (X * 2 ^ H)"
proof (induction X arbitrary: H rule: less_induct)
  case (less X)
  show ?case
  proof (cases "even X")
    case True
    then obtain x where x: "X = 2 * x" by (auto elim: evenE)
    then show ?thesis using less.IH [of x "Suc H"] less.prems unfolding x peaks_even by (simp add: mult_ac)
  next
    case False
    then obtain x where x: "X = Suc (2 * x)" by (auto elim: oddE)
    then show ?thesis using foldl_peaks [of "2 ^ H" "Suc H" hp leaf x] mth_full [of hp leaf "2 * x" H]
      unfolding x peaks_odd by (simp add: algebra_simps)
  qed
qed

lemma Compact_get_Hash_eq:
  assumes "Compact_inv hp leaf m"
  shows "Compact_get_Hash hp m = mth hp leaf 0 (cm_Count m)"
proof (cases "cm_Count m = 0")
  case True
  then show ?thesis using assms by (simp add: Compact_inv_def Compact_get_Hash_def)
next
  case False
  let ?P = "peaks hp leaf 0 (cm_Count m)"
  have ne: "?P \<noteq> []" using False by (simp add: peaks_nonempty)
  then obtain p ps where P: "?P = p # ps" by (cases ?P) auto
  then have "Compact_get_Hash hp m = foldl (\<lambda>hv p. hp p hv) p ps"
    using assms by (simp add: Compact_get_Hash_def Compact_inv_def Compact_fold_eq nth_append Let_def)
  then show ?thesis using foldl_tl_peaks [of "cm_Count m" hp leaf 0] False P by simp
qed

lemma Compact_Predicted_loop_eq:
  "i = length (peaks hp leaf H n) \<Longrightarrow> take i v = rev (peaks hp leaf H n) \<Longrightarrow> i \<le> length v \<Longrightarrow>
   Compact_Predicted_loop hp v n i hv = foldl (\<lambda>hv p. hp p hv) hv (peaks hp leaf H n)"
proof (induction n arbitrary: H i hv rule: less_induct)
  case (less n)
  show ?case
  proof (cases "even n")
    case True
    then obtain x where x: "n = 2 * x" by (auto elim: evenE)
    then show ?thesis using less.IH [of x i "Suc H"] less.prems
      by (cases "x = 0"; subst Compact_Predicted_loop.simps) (auto simp: peaks_even)
  next
    case False
    then obtain x where x: "n = Suc (2 * x)" by (auto elim: oddE)
    let ?j = "length (peaks hp leaf (Suc H) x)"
    have i: "i = Suc ?j" using less.prems(1) x by (simp add: peaks_odd)
    then have "take ?j v @ [v ! ?j] = rev (peaks hp leaf (Suc H) x) @ [node_hash hp leaf H (2 * x)]"
      using less.prems x by (simp add: peaks_odd take_Suc_conv_app_nth)
    then have "take ?j v = rev (peaks hp leaf (Suc H) x)" "v ! ?j = node_hash hp leaf H (2 * x)" by simp_all
    then show ?thesis using less.IH [of x ?j "Suc H"] less.prems(3) x i False
      by (subst Compact_Predicted_loop.simps) (simp add: peaks_odd Interpret_new_def Interpret_pair_def)
  qed
qed

lemma Compact_get_PredictedHash_eq:
  assumes "Compact_inv hp leaf m"
  shows "Compact_get_PredictedHash hp m hv = mth hp (leaf(cm_Count m := hv)) 0 (Suc (cm_Count m))"
proof -
  let ?l = "leaf(cm_Count m := hv)"
  have P: "peaks hp leaf 0 (cm_Count m) = peaks hp ?l 0 (cm_Count m)" by (rule peaks_cong) simp
  show ?thesis
    using foldl_peaks [of 1 0 hp ?l "cm_Count m"] assms
      Compact_Predicted_loop_eq [of "length (m_vNodes m)" hp ?l 0 "cm_Count m" "m_vNodes m" hv]
    by (simp add: Compact_get_PredictedHash_def Compact_inv_def P)
qed

lemma Compact_Append_loop_eq:
  "v = rev (peaks hp leaf H n) \<Longrightarrow>
   Compact_Append_loop hp n (node_hash hp leaf H n) v = rev (peaks hp leaf H (Suc n))"
proof (induction n arbitrary: H v rule: less_induct)
  case (less n)
  show ?case
  proof (cases "even n")
    case True
    then obtain x where x: "n = 2 * x" by (auto elim: evenE)
    then show ?thesis using less.prems by (subst Compact_Append_loop.simps) (simp add: peaks_odd peaks_even)
  next
    case False
    then obtain x where x: "n = Suc (2 * x)" by (auto elim: oddE)
    have "Suc n = 2 * Suc x" by (simp add: x)
    then have "peaks hp leaf H (Suc n) = peaks hp leaf (Suc H) (Suc x)" by (simp only: peaks_even)
    then show ?thesis using less.IH [of x "rev (peaks hp leaf (Suc H) x)" "Suc H"] less.prems x False
      by (subst Compact_Append_loop.simps) (simp add: peaks_odd Interpret_new_def Interpret_pair_def)
  qed
qed

lemma Compact_Append_inv:
  assumes "Compact_inv hp leaf m" and "leaf (cm_Count m) = hv"
  shows "Compact_inv hp leaf (Compact_Append hp hv m) \<and> cm_Count (Compact_Append hp hv m) = Suc (cm_Count m)"
  using assms Compact_Append_loop_eq [of "m_vNodes m" hp leaf 0 "cm_Count m"]
  by (simp add: Compact_inv_def Compact_Append_def)

subsection \<open>Whole sequences of elements\<close>

definition Mmr_Appends ::
  "('h \<Rightarrow> 'h \<Rightarrow> 'h) \<Rightarrow> ('s \<Rightarrow> Position \<Rightarrow> 'h) \<Rightarrow> ('h \<Rightarrow> Position \<Rightarrow> 's \<Rightarrow> 's) \<Rightarrow> 'h list \<Rightarrow> 's \<Rightarrow> 's Mmr" where
  "Mmr_Appends hp load save hvs st = fold (Mmr_Append hp load save) hvs \<lparr>m_Count = 0, m_Store = st\<rparr>"

context mmr_store
begin

lemma room_mono: "room n st \<Longrightarrow> k \<le> n \<Longrightarrow> room k st"
  by (auto simp: room_def intro: order_trans)

lemma Appends_holds:
  assumes "room (length hvs) st" and "hvs = xs @ ys"
  shows "holds hp ((!) hvs) (length xs) (m_Store (Mmr_Appends hp load save xs st)) \<and>
    m_Count (Mmr_Appends hp load save xs st) = length xs \<and>
    room (length hvs) (m_Store (Mmr_Appends hp load save xs st))"
  using assms(2)
proof (induction xs arbitrary: ys rule: rev_induct)
  case Nil
  then show ?case using assms(1) by (simp add: Mmr_Appends_def holds_def)
next
  case (snoc x xs)
  note IH = snoc.IH [of "x # ys"]
  show ?case
    using IH snoc.prems room_mono [of "length hvs" _ "Suc (length xs)"]
      Append_holds [of hp "(!) hvs" "length xs" "Mmr_Appends hp load save xs st" x "length hvs"]
    by (simp add: Mmr_Appends_def)
qed

lemma Appends_reader:
  assumes "room (length hvs) st"
  shows "mmr_reader hp (load (m_Store (Mmr_Appends hp load save hvs st))) ((!) hvs) (length hvs)"
    and "m_Count (Mmr_Appends hp load save hvs st) = length hvs"
  using Appends_holds [OF assms, of hvs "[]"] holds_reader by auto

end

lemma Fixed_Reset_room: "n \<le> nTotal \<Longrightarrow> fixed.room n (Fixed_Reset nTotal f)"
  by (rule Fixed_room) (simp_all add: Fixed_Reset_def Let_def)

definition Compact_Appends :: "('h \<Rightarrow> 'h \<Rightarrow> 'h) \<Rightarrow> 'h list \<Rightarrow> 'h CompactMmr" where
  "Compact_Appends hp hvs = fold (Compact_Append hp) hvs \<lparr>cm_Count = 0, m_vNodes = []\<rparr>"

lemma Compact_Appends_inv:
  "hvs = xs @ ys \<Longrightarrow> Compact_inv hp ((!) hvs) (Compact_Appends hp xs) \<and> cm_Count (Compact_Appends hp xs) = length xs"
proof (induction xs arbitrary: ys rule: rev_induct)
  case Nil
  then show ?case by (simp add: Compact_Appends_def Compact_inv_def)
next
  case (snoc x xs)
  then show ?case using snoc.IH [of "x # ys"] Compact_Append_inv [of hp "(!) hvs" "Compact_Appends hp xs" x]
    by (simp add: Compact_Appends_def)
qed

lemma Interpret_append: "Interpret hp h (p @ q) = Interpret hp (Interpret hp h p) q"
  by (induction p arbitrary: h) simp_all

text \<open>
  The pairs of values that the evaluation of a proof hashes, and a collision between two lists of such pairs.
\<close>

definition node_pair :: "'h \<Rightarrow> 'h Node \<Rightarrow> 'h \<times> 'h" where
  "node_pair h n = (if fst n then (h, snd n) else (snd n, h))"

primrec hashed_pairs :: "('h \<Rightarrow> 'h \<Rightarrow> 'h) \<Rightarrow> 'h \<Rightarrow> 'h Proof \<Rightarrow> ('h \<times> 'h) list" where
  "hashed_pairs hp h [] = []"
| "hashed_pairs hp h (n # p) = node_pair h n # hashed_pairs hp (Interpret_node hp h n) p"

definition collision :: "('h \<Rightarrow> 'h \<Rightarrow> 'h) \<Rightarrow> ('h \<times> 'h) list \<Rightarrow> ('h \<times> 'h) list \<Rightarrow> bool" where
  "collision hp xs ys \<longleftrightarrow> list_ex (\<lambda>(a, b). list_ex (\<lambda>(c, d). (a, b) \<noteq> (c, d) \<and> hp a b = hp c d) ys) xs"

lemma no_collision:
  "\<not> collision hp xs ys \<Longrightarrow> (a, b) \<in> set xs \<Longrightarrow> (c, d) \<in> set ys \<Longrightarrow> hp a b = hp c d \<Longrightarrow> a = c \<and> b = d"
  by (fastforce simp: collision_def list_ex_iff)

lemma no_collision_sub:
  "\<not> collision hp xs ys \<Longrightarrow> set xs' \<subseteq> set xs \<Longrightarrow> set ys' \<subseteq> set ys \<Longrightarrow> \<not> collision hp xs' ys'"
  by (fastforce simp: collision_def list_ex_iff)

lemma Interpret_node_pair: "Interpret_node hp h n = case_prod hp (node_pair h n)"
  by (simp add: Interpret_node_def Interpret_new_def Interpret_pair_def node_pair_def)

lemma node_pair_eq: "fst n = fst n' \<Longrightarrow> node_pair h n = node_pair h' n' \<longleftrightarrow> h = h' \<and> n = n'"
  by (cases n; cases n') (auto simp: node_pair_def split: if_splits)

lemma Interpret_node_bind:
  assumes "\<not> collision hp xs ys" and "node_pair h n \<in> set xs" "node_pair h' n' \<in> set ys"
    and "Interpret_node hp h n = Interpret_node hp h' n'" and "fst n = fst n'"
  shows "h = h' \<and> n = n'"
proof -
  have "node_pair h n = node_pair h' n'"
    using no_collision [OF assms(1), of "fst (node_pair h n)" "snd (node_pair h n)" "fst (node_pair h' n')" "snd (node_pair h' n')"] assms(2-4)
    by (simp add: Interpret_node_pair prod_eq_iff split_beta)
  then show ?thesis using node_pair_eq [OF assms(5)] by simp
qed

lemma Interpret_bind:
  assumes "\<not> collision hp xs ys"
  shows "map fst p = map fst p' \<Longrightarrow> Interpret hp h p = Interpret hp h' p' \<Longrightarrow>
    set (hashed_pairs hp h p) \<subseteq> set xs \<Longrightarrow> set (hashed_pairs hp h' p') \<subseteq> set ys \<Longrightarrow> h = h' \<and> p = p'"
proof (induction p arbitrary: h h' p')
  case (Cons n p)
  from Cons.prems obtain n' q where p': "p' = n' # q" "fst n = fst n'" "map fst p = map fst q" by (cases p') auto
  have IH: "Interpret_node hp h n = Interpret_node hp h' n' \<and> p = q"
    using Cons.IH [OF p'(3), of "Interpret_node hp h n" "Interpret_node hp h' n'"] Cons.prems(2-4) p'(1) by simp
  have "h = h' \<and> n = n'"
    using Interpret_node_bind [OF assms _ _ _ p'(2), of h h'] IH Cons.prems(3,4) p'(1) by simp
  then show ?case using p'(1) IH by simp
qed simp

subsection \<open>Properties\<close>

text \<open>
  C5: after appending a sequence of hashes to an empty fixed-size range (within its capacity), the root
  is the balanced tree hash of the sequence, the proof of every element evaluates to that root, and
  the predicted hash is the tree hash of the sequence extended by the new element.
\<close>

theorem FixedMmmr_correct:
  assumes "length hvs \<le> nTotal"
    and "m = Mmr_Appends hp Fixed_LoadElement Fixed_SaveElement hvs (Fixed_Reset nTotal f)"
  shows "Mmr_get_Hash hp (Fixed_LoadElement (m_Store m)) (m_Count m) = mth hp ((!) hvs) 0 (length hvs) \<and>
    (\<forall>i < length hvs. Interpret hp (hvs ! i) (Mmr_get_Proof hp (Fixed_LoadElement (m_Store m)) (m_Count m) [] i)
       = mth hp ((!) hvs) 0 (length hvs)) \<and>
    Mmr_get_PredictedHash hp (Fixed_LoadElement (m_Store m)) (m_Count m) hv
       = mth hp ((!) (hvs @ [hv])) 0 (length hvs + 1)"
proof -
  note A = fixed.Appends_reader [OF Fixed_Reset_room [OF assms(1), of f], of hp]
  have R: "mmr_reader hp (Fixed_LoadElement (m_Store m)) ((!) hvs) (length hvs)"
    unfolding assms(2) by (rule A)
  have "mth hp (((!) hvs)(length hvs := hv)) 0 (Suc (length hvs)) = mth hp ((!) (hvs @ [hv])) 0 (Suc (length hvs))"
    by (rule mth_cong) (auto simp: nth_append less_Suc_eq)
  then show ?thesis
    using A(2) mmr_reader.get_Hash_eq [OF R] mmr_reader.get_Proof_eq [OF R, of _ "[]"]
      mmr_reader.get_PredictedHash_eq [OF R, of hv]
    by (auto simp: assms(2))
qed


theorem FixedMmmr_correct_witness:
  "Mmr_get_Hash (\<lambda>a b. 2 * a + 3 * b :: nat)
     (Fixed_LoadElement (m_Store (Mmr_Appends (\<lambda>a b. 2 * a + 3 * b :: nat) Fixed_LoadElement Fixed_SaveElement [5, 7, 11]
        (Fixed_Reset 4 \<lparr>m_vHashes = [], m_Total = 0\<rparr>))))
     (m_Count (Mmr_Appends (\<lambda>a b. 2 * a + 3 * b :: nat) Fixed_LoadElement Fixed_SaveElement [5, 7, 11]
        (Fixed_Reset 4 \<lparr>m_vHashes = [], m_Total = 0\<rparr>))) = 95"
  using FixedMmmr_correct [of "[5, 7, 11]" 4 _ "\<lambda>a b. 2 * a + 3 * b :: nat" "\<lparr>m_vHashes = [], m_Total = 0\<rparr>" 0, OF _ refl]
  by (simp add: mth.simps split_pt.simps)

text \<open>
  C6: the compact range keeps only its peaks, and yet computes the same roots: for every sequence of
  appended hashes its root is the tree hash of the sequence, and its predicted hash the tree hash of
  the sequence extended by the new element.
\<close>

theorem CompactMmr_correct:
  "Compact_get_Hash hp (Compact_Appends hp hvs) = mth hp ((!) hvs) 0 (length hvs) \<and>
   Compact_get_PredictedHash hp (Compact_Appends hp hvs) hv = Compact_get_Hash hp (Compact_Append hp hv (Compact_Appends hp hvs))"
proof -
  note A = Compact_Appends_inv [of hvs hvs "[]" hp, simplified]
  have B: "Compact_get_Hash hp (Compact_Appends hp (hvs @ [hv])) = mth hp ((!) (hvs @ [hv])) 0 (Suc (length hvs))"
    using Compact_Appends_inv [of "hvs @ [hv]" "hvs @ [hv]" "[]" hp]
      Compact_get_Hash_eq [of hp "(!) (hvs @ [hv])" "Compact_Appends hp (hvs @ [hv])"] by simp
  have "mth hp (((!) hvs)(length hvs := hv)) 0 (Suc (length hvs)) = mth hp ((!) (hvs @ [hv])) 0 (Suc (length hvs))"
    by (rule mth_cong) (auto simp: nth_append less_Suc_eq)
  then show ?thesis
    using A B Compact_get_Hash_eq [of hp "(!) hvs" "Compact_Appends hp hvs"]
      Compact_get_PredictedHash_eq [of hp "(!) hvs" "Compact_Appends hp hvs" hv]
    by (simp add: Compact_Appends_def)
qed

text \<open>
  C7: the on-the-fly range gives the tree hash of its elements, and the proof of every element \<open>i\<close> evaluates to it.
  Its proofs are binding: any hash value and any proof of the same shape as the proof of element \<open>i\<close>
  that evaluate to the root are the element and its proof, unless the two evaluations exhibit a collision of the
  node hash, two different pairs of values with the same hash.
\<close>

theorem FlyMmr_proof_binding:
  assumes "i < count" and "p = fst (Fly_get_Proof hp leaf count ProofBuilderStd_AppendNode i [])"
  shows "Fly_get_Hash hp leaf count = mth hp leaf 0 count \<and>
    Interpret hp (leaf i) p = Fly_get_Hash hp leaf count \<and>
    (map fst q = map fst p \<longrightarrow> Interpret hp hv q = Fly_get_Hash hp leaf count \<longrightarrow>
       hv = leaf i \<and> q = p \<or> collision hp (hashed_pairs hp hv q) (hashed_pairs hp (leaf i) p))"
proof -
  have p: "Interpret hp (leaf i) p = mth hp leaf 0 count"
    using fly.get_Proof_eq [OF assms(1), of hp leaf "[]"] assms(2)
    by (simp add: Fly_get_Proof_def Mmr_get_Proof_def)
  moreover have "Fly_get_Hash hp leaf count = mth hp leaf 0 count"
    by (simp add: Fly_get_Hash_def fly.get_Hash_eq)
  moreover have "hv = leaf i \<and> q = p"
    if "\<not> collision hp (hashed_pairs hp hv q) (hashed_pairs hp (leaf i) p)" "map fst q = map fst p" "Interpret hp hv q = Interpret hp (leaf i) p"
    by (rule Interpret_bind [OF that]) simp_all
  ultimately show ?thesis by metis
qed

theorem FlyMmr_proof_binding_witness:
  "let hp = (\<lambda>a b. 3 * a + b :: u8); leaf = (\<lambda>i. 10 * of_nat i); p = fst (Fly_get_Proof hp leaf 5 ProofBuilderStd_AppendNode 3 [])
   in Interpret hp 30 p = Fly_get_Hash hp leaf 5 \<and> Interpret hp 33 [(False, 19), (False, 10), (True, 40)] = Fly_get_Hash hp leaf 5 \<and>
      collision hp (hashed_pairs hp 33 [(False, 19), (False, 10), (True, 40)]) (hashed_pairs hp 30 p)"
proof -
  let ?hp = "\<lambda>a b. 3 * a + b :: u8" and ?leaf = "\<lambda>i. 10 * of_nat i :: u8" and ?q = "[(False, 19), (False, 10), (True, 40)] :: u8 Proof"
  let ?p = "fst (Fly_get_Proof ?hp ?leaf 5 ProofBuilderStd_AppendNode 3 [])"
  have "map fst ?q = map fst ?p" "Interpret ?hp 33 ?q = Fly_get_Hash ?hp ?leaf 5" by (code_simp, code_simp)
  then show ?thesis using FlyMmr_proof_binding [of 3 5 ?p ?hp ?leaf ?q 33] by (simp add: Let_def)
qed

end
