(* ===== verification/MultiProof.thy ===== *)
theory MultiProof
  imports Merkle
begin
unbundle bit_operations_syntax

section \<open>Proofs of many elements at once (Merkle::MultiProof)\<close>

text \<open>
  The vectors \<open>m_vLast\<close> and \<open>m_vLastRev\<close> are used as stacks only; they are lists with their back
  element first.  The iterator pair \<open>m_itPos, m_itEnd\<close> of the verifier is the list of hashes left.
  The virtual \<open>get_Proof\<close> of the builder is that of the range the proof is for, the virtual
  \<open>IsRootValid\<close> of the verifier is the parameter \<open>rootok\<close>.
\<close>

record 'h Builder =
  m_vData :: "'h list"
  m_vLast :: "Position list"
  m_vLastRev :: "Position list"
  m_bSkipSibling :: bool

definition Builder_new :: "'h Builder" where
  "Builder_new = \<lparr>m_vData = [], m_vLast = [], m_vLastRev = [], m_bSkipSibling = False\<rparr>"

text \<open>The loop that drops the entries below a position; the flag tells that it met the position itself.\<close>

fun Builder_pop :: "Position \<Rightarrow> Position list \<Rightarrow> bool \<times> Position list" where
  "Builder_pop pos [] = (False, [])"
| "Builder_pop pos (pos0 # rest) =
     (if pos_H pos0 > pos_H pos then (False, pos0 # rest)
      else if pos_H pos0 = pos_H pos \<and> pos_X pos0 = pos_X pos then (True, pos0 # rest)
      else Builder_pop pos rest)"

definition Builder_AppendNode :: "'h Node \<Rightarrow> Position \<Rightarrow> 'h Builder \<Rightarrow> 'h Builder \<times> bool" where
  "Builder_AppendNode n pos b =
     (case Builder_pop pos (m_vLast b) of (same, rest) \<Rightarrow>
        let b1 = b\<lparr>m_vLast := rest\<rparr> in
        if same then (b1, False)
        else
          let b2 = (if pos_H pos \<noteq> 0 then b1\<lparr>m_vLastRev := pos # m_vLastRev b1\<rparr> else b1);
              b3 = (if pos_H pos \<noteq> 0 \<or> \<not> m_bSkipSibling b2 then b2\<lparr>m_vData := m_vData b2 @ [snd n]\<rparr> else b2)
          in (b3, True))"

definition Builder_Add :: "('h \<Rightarrow> 'h \<Rightarrow> 'h) \<Rightarrow> (Position \<Rightarrow> 'h) \<Rightarrow> nat \<Rightarrow> nat \<Rightarrow> 'h Builder \<Rightarrow> 'h Builder" where
  "Builder_Add hp load count i b =
     (let b1 = fst (Mmr_get_Proof_with hp load count Builder_AppendNode i b)
      in b1\<lparr>m_vLast := fold (#) (m_vLastRev b1) (m_vLast b1), m_vLastRev := [], m_bSkipSibling := False\<rparr>)"

record 'h MyNode =
  m_hv :: 'h
  m_Pos :: Position

record 'h Verifier =
  m_it :: "'h list"
  v_Last :: "'h MyNode list"
  v_LastRev :: "'h MyNode list"
  m_hvPos :: 'h
  m_phvSibling :: "'h option"
  m_bVerify :: bool
  v_Count :: nat

definition Verifier_new :: "'h::zero list \<Rightarrow> nat \<Rightarrow> 'h Verifier" where
  "Verifier_new x nCount =
     \<lparr>m_it = x, v_Last = [], v_LastRev = [], m_hvPos = 0, m_phvSibling = None, m_bVerify = True, v_Count = nCount\<rparr>"

text \<open>The loop of the verifier; it ends with the entry it met, if any.\<close>

fun Verifier_pop :: "Position \<Rightarrow> 'h MyNode list \<Rightarrow> 'h MyNode option \<times> 'h MyNode list" where
  "Verifier_pop pos [] = (None, [])"
| "Verifier_pop pos (mn # rest) =
     (if pos_H (m_Pos mn) > pos_H pos then (None, mn # rest)
      else if pos_H (m_Pos mn) = pos_H pos \<and> pos_X (m_Pos mn) = pos_X pos then (Some mn, mn # rest)
      else Verifier_pop pos rest)"

definition Verifier_AppendNode :: "('h \<Rightarrow> 'h \<Rightarrow> 'h) \<Rightarrow> 'h Node \<Rightarrow> Position \<Rightarrow> 'h Verifier \<Rightarrow> 'h Verifier \<times> bool" where
  "Verifier_AppendNode hp n pos v =
     (case Verifier_pop pos (v_Last v) of
        (Some mn, rest) \<Rightarrow>
          (v\<lparr>v_Last := rest, m_bVerify := (if m_bVerify v \<and> m_hv mn \<noteq> m_hvPos v then False else m_bVerify v)\<rparr>, False)
      | (None, rest) \<Rightarrow>
          let v1 = v\<lparr>v_Last := rest\<rparr>;
              v2 = (if pos_H pos \<noteq> 0
                    then v1\<lparr>v_LastRev := \<lparr>m_hv = m_hvPos v1, m_Pos = pos\<rparr> # v_LastRev v1\<rparr> else v1)
          in case (m_phvSibling v2, m_it v2) of
               (None, []) \<Rightarrow> (v2\<lparr>m_bVerify := False\<rparr>, False)
             | (None, h # it) \<Rightarrow>
                 (v2\<lparr>m_it := it, m_hvPos := (if m_bVerify v2 then Interpret_new hp (m_hvPos v2) h (fst n) else m_hvPos v2)\<rparr>, True)
             | (Some h, it) \<Rightarrow>
                 (v2\<lparr>m_hvPos := (if m_bVerify v2 then Interpret_new hp (m_hvPos v2) h (fst n) else m_hvPos v2),
                     m_phvSibling := None\<rparr>, True))"

text \<open>The verifier is a range without a store: its \<open>LoadElement\<close> leaves the hash as it is.\<close>

definition Verifier_Process :: "('h::zero \<Rightarrow> 'h \<Rightarrow> 'h) \<Rightarrow> ('h \<Rightarrow> bool) \<Rightarrow> nat \<Rightarrow> 'h Verifier \<Rightarrow> 'h Verifier" where
  "Verifier_Process hp rootok i v =
     (if i \<ge> v_Count v then v\<lparr>m_bVerify := False\<rparr>
      else
        case Mmr_get_Proof_with hp (\<lambda>pos. 0) (v_Count v) (Verifier_AppendNode hp) i v of (v1, full) \<Rightarrow>
          let v2 = (if full \<and> m_bVerify v1 \<and> \<not> rootok (m_hvPos v1) then v1\<lparr>m_bVerify := False\<rparr> else v1)
          in v2\<lparr>v_Last := fold (#) (v_LastRev v2) (v_Last v2), v_LastRev := []\<rparr>)"

subsection \<open>The proof of one element as a list\<close>

fun proof_entries :: "('h \<Rightarrow> 'h \<Rightarrow> 'h) \<Rightarrow> (Position \<Rightarrow> 'h) \<Rightarrow> nat \<Rightarrow> nat \<Rightarrow> nat \<Rightarrow> nat \<Rightarrow> ('h Node \<times> Position) list" where
  "proof_entries hp load count H n i =
     (if n = 0 then []
      else
        (case proof_node hp load count H i of None \<Rightarrow> [] | Some node \<Rightarrow> [(node, \<lparr>pos_H = H, pos_X = i XOR 1\<rparr>)])
        @ proof_entries hp load count (Suc H) (n div 2) (i div 2))"

declare proof_entries.simps [simp del]

fun run_builder :: "('h Node \<Rightarrow> Position \<Rightarrow> 'b \<Rightarrow> 'b \<times> bool) \<Rightarrow> ('h Node \<times> Position) list \<Rightarrow> 'b \<Rightarrow> 'b \<times> bool" where
  "run_builder add [] b = (b, True)"
| "run_builder add ((n, pos) # es) b =
     (case add n pos b of (b1, ok) \<Rightarrow> if \<not> ok then (b1, False) else run_builder add es b1)"

lemma get_Proof_loop_run:
  "get_Proof_loop hp load count add H n i b = run_builder add (proof_entries hp load count H n i) b"
proof (induction n arbitrary: H i b rule: less_induct)
  case (less n)
  then show ?case
    by (subst get_Proof_loop.simps, subst proof_entries.simps) (auto split: option.splits prod.splits)
qed

text \<open>Directions and positions do not depend on the hashes.\<close>

definition shape :: "('h Node \<times> Position) list \<Rightarrow> (bool \<times> Position) list" where
  "shape es = map (\<lambda>(n, pos). (fst n, pos)) es"

lemma shape_simps [simp]: "shape [] = []" "shape (e # es) = (fst (fst e), snd e) # shape es"
  "shape (es @ es') = shape es @ shape es'"
  by (auto simp: shape_def split: prod.splits)

lemma proof_entries_shape:
  "shape (proof_entries hp load count H n i) = shape (proof_entries hp' load' count H n i)"
proof (induction n arbitrary: H i rule: less_induct)
  case (less n)
  have "map_option fst (proof_node hp load count H i) = map_option fst (proof_node hp' load' count H i)"
    by (simp add: proof_node_def Let_def)
  then show ?case using less [of "n div 2"]
    by (subst (1 2) proof_entries.simps) (auto split: option.splits)
qed


text \<open>The hash of the part of the range below height \<open>H\<close>, position \<open>x\<close> (which may be cut at its end).\<close>

definition rng :: "('h::zero \<Rightarrow> 'h \<Rightarrow> 'h) \<Rightarrow> (nat \<Rightarrow> 'h) \<Rightarrow> nat \<Rightarrow> nat \<Rightarrow> nat \<Rightarrow> 'h" where
  "rng hp leaf count H x = mth hp leaf (x * 2 ^ H) (min (2 ^ H) (count - x * 2 ^ H))"

definition sibling_val :: "('h::zero \<Rightarrow> 'h \<Rightarrow> 'h) \<Rightarrow> (nat \<Rightarrow> 'h) \<Rightarrow> nat \<Rightarrow> Position \<Rightarrow> 'h" where
  "sibling_val hp leaf count pos = rng hp leaf count (pos_H pos) (pos_X pos XOR 1)"

text \<open>\<open>cur\<close> is the value met at each entry when the entries are evaluated up to the root.\<close>

fun chain :: "('h \<Rightarrow> 'h \<Rightarrow> 'h) \<Rightarrow> (Position \<Rightarrow> 'h) \<Rightarrow> 'h \<Rightarrow> ('h Node \<times> Position) list \<Rightarrow> 'h \<Rightarrow> bool" where
  "chain hp val root [] cur \<longleftrightarrow> cur = root"
| "chain hp val root ((n, pos) # es) cur \<longleftrightarrow> cur = val pos \<and> chain hp val root es (Interpret_node hp cur n)"

lemma xor_one_twice: "(i XOR 1) XOR 1 = (i :: nat)"
  by (simp add: xor.assoc)

context mmr_reader
begin

lemma entries_chain:
  assumes "i * 2 ^ H < count" and "n = count div 2 ^ H"
  shows "chain hp (sibling_val hp leaf count) (mth hp leaf 0 count)
    (proof_entries hp load count H n i) (rng hp leaf count H i)"
  using assms
proof (induction n arbitrary: H i rule: less_induct)
  case (less n)
  show ?case
  proof (cases "n = 0")
    case True
    then have "count < 2 ^ H" using less.prems(2) by (simp add: div_eq_0_iff)
    then have "i = 0" using less.prems(1) by (cases i) auto
    then show ?thesis using True \<open>count < 2 ^ H\<close> by (simp add: proof_entries.simps rng_def)
  next
    case False
    note i2 = half_below [OF less.prems(1)]
    have n2: "n div 2 < n" "n div 2 = count div 2 ^ Suc H"
      using False by simp (simp add: less.prems(2) div_mult2_eq [symmetric] mult.commute)
    have v: "sibling_val hp leaf count \<lparr>pos_H = H, pos_X = i XOR 1\<rparr> = rng hp leaf count H i"
      unfolding sibling_val_def Position.simps xor_one_twice ..
    show ?thesis
      using proof_node_step [OF less.prems(1) refl refl, folded rng_def] less.IH [OF n2(1) i2 n2(2)] False v
      by (subst proof_entries.simps) (auto split: option.splits)
  qed
qed

lemma entries_chain_leaf:
  "i < count \<Longrightarrow> chain hp (sibling_val hp leaf count) (mth hp leaf 0 count) (proof_entries hp load count 0 count i) (leaf i)"
  using entries_chain [of i 0 count] by (simp add: rng_def)

end

subsection \<open>Completeness\<close>

abbreviation my_nodes :: "(Position \<Rightarrow> 'h) \<Rightarrow> Position list \<Rightarrow> 'h MyNode list" where
  "my_nodes val ps \<equiv> map (\<lambda>p. \<lparr>m_hv = val p, m_Pos = p\<rparr>) ps"

lemma Verifier_pop_my_nodes:
  "Verifier_pop pos (my_nodes val ps) =
     (case Builder_pop pos ps of (same, rest) \<Rightarrow>
        (if same then Some \<lparr>m_hv = val pos, m_Pos = pos\<rparr> else None, my_nodes val rest))"
proof (induction ps)
  case (Cons p ps)
  have "p = pos \<longleftrightarrow> pos_H p = pos_H pos \<and> pos_X p = pos_X pos" by (cases p; cases pos) simp
  then show ?case using Cons by (cases "p = pos") auto
qed simp

definition in_step :: "(Position \<Rightarrow> 'h) \<Rightarrow> 'h Builder \<Rightarrow> 'h Verifier \<Rightarrow> bool" where
  "in_step val b v \<longleftrightarrow> v_Last v = my_nodes val (m_vLast b) \<and> v_LastRev v = my_nodes val (m_vLastRev b) \<and>
     m_bVerify v \<and> m_phvSibling v = None \<and> \<not> m_bSkipSibling b"

lemma run_complete:
  assumes "chain hp val root es cur" and "shape es' = shape es"
    and "run_builder Builder_AppendNode es b = (b', ok)" and "\<not> m_bSkipSibling b"
  shows "\<exists>d. m_vData b' = m_vData b @ d \<and>
    (\<forall>v rest. in_step val b v \<longrightarrow> m_hvPos v = cur \<longrightarrow> m_it v = d @ rest \<longrightarrow>
      (\<exists>v'. run_builder (Verifier_AppendNode hp) es' v = (v', ok) \<and> in_step val b' v' \<and>
        m_it v' = rest \<and> v_Count v' = v_Count v \<and> (ok \<longrightarrow> m_hvPos v' = root)))"
  using assms
proof (induction es arbitrary: es' b cur)
  case Nil
  then show ?case by (auto simp: shape_def)
next
  case (Cons e es)
  obtain n pos where e: "e = (n, pos)" by (cases e)
  obtain h' fs where es': "es' = ((fst n, h'), pos) # fs" "shape fs = shape es"
    using Cons.prems(2) e by (cases es') (auto simp: shape_def)
  have ch: "cur = val pos" "chain hp val root es (Interpret_node hp cur n)" using Cons.prems(1) e by auto
  obtain same rest where pop: "Builder_pop pos (m_vLast b) = (same, rest)" by (cases "Builder_pop pos (m_vLast b)")
  show ?case
  proof (cases same)
    case True
    then show ?thesis using Cons.prems(3,4) e es' pop ch(1)
      by (auto simp: Builder_AppendNode_def Verifier_AppendNode_def Verifier_pop_my_nodes in_step_def)
  next
    case False
    define b1 where "b1 = fst (Builder_AppendNode n pos b)"
    have b1: "Builder_AppendNode n pos b = (b1, True)" "m_vData b1 = m_vData b @ [snd n]" "\<not> m_bSkipSibling b1"
      using False pop Cons.prems(4) by (auto simp: b1_def Builder_AppendNode_def Let_def)
    have step: "\<exists>v1. Verifier_AppendNode hp (fst n, h') pos v = (v1, True) \<and> in_step val b1 v1 \<and> m_it v1 = rst \<and>
        v_Count v1 = v_Count v \<and> m_hvPos v1 = Interpret_node hp cur n"
      if "in_step val b v" "m_hvPos v = cur" "m_it v = snd n # rst" for v rst
      using that False pop ch(1)
      by (auto simp: Verifier_AppendNode_def Builder_AppendNode_def b1_def Verifier_pop_my_nodes in_step_def
          Let_def Interpret_node_def)
    have "run_builder Builder_AppendNode es b1 = (b', ok)" using Cons.prems(3) e b1(1) by simp
    from Cons.IH [OF ch(2) es'(2) this b1(3)] obtain d where d: "m_vData b' = m_vData b1 @ d"
      "\<forall>v rest. in_step val b1 v \<longrightarrow> m_hvPos v = Interpret_node hp cur n \<longrightarrow> m_it v = d @ rest \<longrightarrow>
        (\<exists>v'. run_builder (Verifier_AppendNode hp) fs v = (v', ok) \<and> in_step val b' v' \<and>
          m_it v' = rest \<and> v_Count v' = v_Count v \<and> (ok \<longrightarrow> m_hvPos v' = root))" by blast
    show ?thesis
    proof (intro exI [of _ "snd n # d"] conjI allI impI)
      show "m_vData b' = m_vData b @ snd n # d" using d(1) b1(2) by simp
      fix v rst assume "in_step val b v" "m_hvPos v = cur" "m_it v = (snd n # d) @ rst"
      with step [of v "d @ rst"] obtain v1 where
        v1: "Verifier_AppendNode hp (fst n, h') pos v = (v1, True)" "in_step val b1 v1" "m_it v1 = d @ rst"
          "v_Count v1 = v_Count v" "m_hvPos v1 = Interpret_node hp cur n" by auto
      with d(2) show "\<exists>v'. run_builder (Verifier_AppendNode hp) es' v = (v', ok) \<and> in_step val b' v' \<and>
          m_it v' = rst \<and> v_Count v' = v_Count v \<and> (ok \<longrightarrow> m_hvPos v' = root)"
        by (auto simp: es'(1))
    qed
  qed
qed


text \<open>All elements of a list, through the builder and through the verifier.\<close>

definition Builder_Adds :: "('h \<Rightarrow> 'h \<Rightarrow> 'h) \<Rightarrow> (Position \<Rightarrow> 'h) \<Rightarrow> nat \<Rightarrow> nat list \<Rightarrow> 'h Builder \<Rightarrow> 'h Builder" where
  "Builder_Adds hp load count is b = fold (Builder_Add hp load count) is b"

definition Verifier_run :: "('h::zero \<Rightarrow> 'h \<Rightarrow> 'h) \<Rightarrow> ('h \<Rightarrow> bool) \<Rightarrow> (nat \<times> 'h) list \<Rightarrow> 'h Verifier \<Rightarrow> 'h Verifier" where
  "Verifier_run hp rootok ihs v = fold (\<lambda>(i, hv) v. Verifier_Process hp rootok i (v\<lparr>m_hvPos := hv\<rparr>)) ihs v"

context mmr_reader
begin

lemma Add_Process:
  assumes "i < count" and "\<not> m_bSkipSibling b" and "b' = Builder_Add hp load count i b"
  shows "\<exists>d. m_vData b' = m_vData b @ d \<and> \<not> m_bSkipSibling b' \<and>
    (\<forall>v rest. in_step (sibling_val hp leaf count) b v \<longrightarrow> m_it v = d @ rest \<longrightarrow> v_Count v = count \<longrightarrow>
      (let v' = Verifier_Process hp ((=) (mth hp leaf 0 count)) i (v\<lparr>m_hvPos := leaf i\<rparr>)
       in in_step (sibling_val hp leaf count) b' v' \<and> m_it v' = rest \<and> v_Count v' = count))"
proof -
  let ?es = "proof_entries hp load count 0 count i" and ?es' = "proof_entries hp (\<lambda>pos. 0) count 0 count i"
  obtain b1 ok where b1: "run_builder Builder_AppendNode ?es b = (b1, ok)" by (cases "run_builder Builder_AppendNode ?es b")
  from run_complete [OF entries_chain_leaf [OF assms(1)] proof_entries_shape b1 assms(2), of hp "\<lambda>pos. 0"]
  obtain d where d: "m_vData b1 = m_vData b @ d"
    "\<And>v rest. in_step (sibling_val hp leaf count) b v \<Longrightarrow> m_hvPos v = leaf i \<Longrightarrow> m_it v = d @ rest \<Longrightarrow>
      \<exists>v'. run_builder (Verifier_AppendNode hp) ?es' v = (v', ok) \<and> in_step (sibling_val hp leaf count) b1 v' \<and>
        m_it v' = rest \<and> v_Count v' = v_Count v \<and> (ok \<longrightarrow> m_hvPos v' = mth hp leaf 0 count)" by blast
  have b': "b' = b1\<lparr>m_vLast := fold (#) (m_vLastRev b1) (m_vLast b1), m_vLastRev := [], m_bSkipSibling := False\<rparr>"
    by (simp add: assms(3) Builder_Add_def Mmr_get_Proof_with_def get_Proof_loop_run b1)
  have fm: "fold (#) (map f xs) (map f ys) = map f (fold (#) xs ys)" for f :: "Position \<Rightarrow> 'h MyNode" and xs ys
    by (simp add: fold_Cons_rev rev_map)
  show ?thesis
  proof (intro exI [of _ d] conjI allI impI)
    fix v rest
    assume A: "in_step (sibling_val hp leaf count) b v" "m_it v = d @ rest" "v_Count v = count"
    then have "in_step (sibling_val hp leaf count) b (v\<lparr>m_hvPos := leaf i\<rparr>)" by (simp add: in_step_def)
    from d(2) [OF this] A obtain v1 where v1:
      "run_builder (Verifier_AppendNode hp) ?es' (v\<lparr>m_hvPos := leaf i\<rparr>) = (v1, ok)"
      "in_step (sibling_val hp leaf count) b1 v1" "m_it v1 = rest" "v_Count v1 = count" "ok \<longrightarrow> m_hvPos v1 = mth hp leaf 0 count"
      by auto
    then show "let v' = Verifier_Process hp ((=) (mth hp leaf 0 count)) i (v\<lparr>m_hvPos := leaf i\<rparr>)
       in in_step (sibling_val hp leaf count) b' v' \<and> m_it v' = rest \<and> v_Count v' = count"
      using A(3) assms(1)
      by (auto simp: Verifier_Process_def Mmr_get_Proof_with_def get_Proof_loop_run in_step_def b' fm Let_def)
  qed (simp_all add: b' d(1))
qed

lemma Adds_run:
  assumes "\<forall>i \<in> set is. i < count" and "\<not> m_bSkipSibling b" and "b' = Builder_Adds hp load count is b"
  shows "\<exists>d. m_vData b' = m_vData b @ d \<and>
    (\<forall>v rest. in_step (sibling_val hp leaf count) b v \<longrightarrow> m_it v = d @ rest \<longrightarrow> v_Count v = count \<longrightarrow>
      (let v' = Verifier_run hp ((=) (mth hp leaf 0 count)) (map (\<lambda>i. (i, leaf i)) is) v
       in m_bVerify v' \<and> m_it v' = rest))"
  using assms
proof (induction "is" arbitrary: b)
  case Nil
  then show ?case by (auto simp: Builder_Adds_def Verifier_run_def in_step_def)
next
  case (Cons i "is")
  define b1 where "b1 = Builder_Add hp load count i b"
  from Add_Process [OF _ Cons.prems(2) b1_def] Cons.prems(1) obtain d1 where
    d1: "m_vData b1 = m_vData b @ d1" "\<not> m_bSkipSibling b1"
      "\<And>v rest. in_step (sibling_val hp leaf count) b v \<Longrightarrow> m_it v = d1 @ rest \<Longrightarrow> v_Count v = count \<Longrightarrow>
        (let v' = Verifier_Process hp ((=) (mth hp leaf 0 count)) i (v\<lparr>m_hvPos := leaf i\<rparr>)
         in in_step (sibling_val hp leaf count) b1 v' \<and> m_it v' = rest \<and> v_Count v' = count)" by auto
  have "b' = Builder_Adds hp load count is b1" using Cons.prems(3) by (simp add: Builder_Adds_def b1_def)
  from Cons.IH [OF _ d1(2) this] Cons.prems(1) obtain d2 where
    d2: "m_vData b' = m_vData b1 @ d2"
      "\<And>v rest. in_step (sibling_val hp leaf count) b1 v \<Longrightarrow> m_it v = d2 @ rest \<Longrightarrow> v_Count v = count \<Longrightarrow>
        (let v' = Verifier_run hp ((=) (mth hp leaf 0 count)) (map (\<lambda>i. (i, leaf i)) is) v
         in m_bVerify v' \<and> m_it v' = rest)" by auto
  show ?case
    using d1(1,3) d2 by (intro exI [of _ "d1 @ d2"]) (simp add: Verifier_run_def Let_def)
qed

end

subsection \<open>Soundness\<close>

definition entry_ok :: "(Position \<Rightarrow> 'h) \<Rightarrow> 'h MyNode \<Rightarrow> bool" where
  "entry_ok val mn \<longleftrightarrow> m_hv mn = val (m_Pos mn)"

lemma Verifier_pop_spec:
  "Verifier_pop pos l = (r, l') \<Longrightarrow> list_all (entry_ok val) l \<Longrightarrow>
     list_all (entry_ok val) l' \<and> (\<forall>mn. r = Some mn \<longrightarrow> m_hv mn = val pos)"
proof (induction l)
  case (Cons mn l)
  have "m_Pos mn = pos \<longleftrightarrow> pos_H (m_Pos mn) = pos_H pos \<and> pos_X (m_Pos mn) = pos_X pos"
    by (cases "m_Pos mn"; cases pos) simp
  then show ?case using Cons by (cases "m_Pos mn = pos") (auto simp: entry_ok_def split: if_splits)
qed simp

text \<open>The sibling the verifier takes next.\<close>

definition next_sibling :: "'h Verifier \<Rightarrow> 'h" where
  "next_sibling v = (case m_phvSibling v of None \<Rightarrow> hd (m_it v) | Some h \<Rightarrow> h)"

lemma Verifier_AppendNode_cases:
  assumes "Verifier_AppendNode hp n pos v = (v1, ok)" and "list_all (entry_ok val) (v_Last v)"
  shows "list_all (entry_ok val) (v_Last v1) \<and> v_Count v1 = v_Count v \<and> (m_bVerify v1 \<longrightarrow> m_bVerify v \<and>
    (\<not> ok \<and> m_hvPos v = val pos \<and> v_LastRev v1 = v_LastRev v \<or>
     ok \<and> m_hvPos v1 = Interpret_new hp (m_hvPos v) (next_sibling v) (fst n) \<and>
       v_LastRev v1 = (if pos_H pos \<noteq> 0 then \<lparr>m_hv = m_hvPos v, m_Pos = pos\<rparr> # v_LastRev v else v_LastRev v)))"
proof -
  obtain r l where pop: "Verifier_pop pos (v_Last v) = (r, l)" by (cases "Verifier_pop pos (v_Last v)")
  note P = Verifier_pop_spec [OF pop assms(2)]
  show ?thesis using assms(1) P pop
    by (cases r; cases "m_phvSibling v"; cases "m_it v") (auto simp: Verifier_AppendNode_def next_sibling_def Let_def split: if_splits)
qed

text \<open>The pairs of values the verifier hashes, for one node, for one element, and for a sequence of claims.\<close>

fun run_pairs :: "('h \<Rightarrow> 'h \<Rightarrow> 'h) \<Rightarrow> ('h Node \<times> Position) list \<Rightarrow> 'h Verifier \<Rightarrow> ('h \<times> 'h) list" where
  "run_pairs hp [] v = []"
| "run_pairs hp ((n, pos) # es) v =
     (case Verifier_AppendNode hp n pos v of (v1, ok) \<Rightarrow>
        if \<not> ok then []
        else (if m_bVerify v then [node_pair (m_hvPos v) (fst n, next_sibling v)] else [])
             @ run_pairs hp es v1)"

definition Process_pairs :: "('h::zero \<Rightarrow> 'h \<Rightarrow> 'h) \<Rightarrow> nat \<Rightarrow> 'h Verifier \<Rightarrow> ('h \<times> 'h) list" where
  "Process_pairs hp i v =
     (if i \<ge> v_Count v then [] else run_pairs hp (proof_entries hp (\<lambda>pos. 0) (v_Count v) 0 (v_Count v) i) v)"

primrec Verifier_run_pairs :: "('h::zero \<Rightarrow> 'h \<Rightarrow> 'h) \<Rightarrow> ('h \<Rightarrow> bool) \<Rightarrow> (nat \<times> 'h) list \<Rightarrow> 'h Verifier \<Rightarrow> ('h \<times> 'h) list" where
  "Verifier_run_pairs hp rootok [] v = []"
| "Verifier_run_pairs hp rootok (ih # ihs) v =
     Process_pairs hp (fst ih) (v\<lparr>m_hvPos := snd ih\<rparr>) @
     Verifier_run_pairs hp rootok ihs (Verifier_Process hp rootok (fst ih) (v\<lparr>m_hvPos := snd ih\<rparr>))"

lemma Verifier_run_pairs_append:
  "Verifier_run_pairs hp rootok (xs @ ys) v = Verifier_run_pairs hp rootok xs v @ Verifier_run_pairs hp rootok ys (Verifier_run hp rootok xs v)"
  by (induction xs arbitrary: v) (simp_all add: Verifier_run_def split_beta)

text \<open>The pairs hashed in the tree: those of the honest proofs of all its elements.\<close>

definition tree_pairs :: "('h::zero \<Rightarrow> 'h \<Rightarrow> 'h) \<Rightarrow> (nat \<Rightarrow> 'h) \<Rightarrow> nat \<Rightarrow> ('h \<times> 'h) list" where
  "tree_pairs hp leaf count =
     concat (map (\<lambda>i. hashed_pairs hp (leaf i) (fst (Fly_get_Proof hp leaf count ProofBuilderStd_AppendNode i []))) [0..<count])"

lemma run_builder_Std: "run_builder ProofBuilderStd_AppendNode es p = (p @ map fst es, True)"
  by (induction es arbitrary: p) (auto simp: ProofBuilderStd_AppendNode_def)

lemma tree_pairs_proof:
  "i < count \<Longrightarrow> set (hashed_pairs hp (leaf i) (map fst (proof_entries hp (Fly_Calculate hp leaf) count 0 count i))) \<subseteq> set (tree_pairs hp leaf count)"
  by (auto simp: tree_pairs_def Fly_get_Proof_def Mmr_get_Proof_with_def get_Proof_loop_run run_builder_Std)

lemma run_sound:
  assumes nc: "\<not> collision hp xs ys"
    and "chain hp val root es cur" and "shape es' = shape es"
    and "run_builder (Verifier_AppendNode hp) es' v = (v', ok)" and "m_bVerify v'"
    and "list_all (entry_ok val) (v_Last v)" and "ok \<longrightarrow> m_hvPos v' = root"
    and "set (run_pairs hp es' v) \<subseteq> set xs" and "set (hashed_pairs hp cur (map fst es)) \<subseteq> set ys"
  shows "m_bVerify v \<and> v_Count v' = v_Count v \<and> m_hvPos v = cur \<and> list_all (entry_ok val) (v_Last v') \<and>
    (list_all (entry_ok val) (v_LastRev v) \<longrightarrow> list_all (entry_ok val) (v_LastRev v'))"
  using assms(2-)
proof (induction es arbitrary: es' v cur)
  case Nil
  then show ?case by (auto simp: shape_def)
next
  case (Cons e es)
  obtain n pos where e: "e = (n, pos)" by (cases e)
  obtain n' fs where es': "es' = (n', pos) # fs" "fst n' = fst n" "shape fs = shape es"
    using Cons.prems(2) e by (cases es') (auto simp: shape_def)
  have ch: "cur = val pos" "chain hp val root es (Interpret_node hp cur n)" using Cons.prems(1) e by auto
  obtain v1 ok1 where s: "Verifier_AppendNode hp n' pos v = (v1, ok1)" by (cases "Verifier_AppendNode hp n' pos v")
  note C = Verifier_AppendNode_cases [OF s Cons.prems(5)]
  show ?case
  proof (cases ok1)
    case False
    then have "v' = v1" using Cons.prems(3) es' s by simp
    then show ?thesis using C Cons.prems(4) False ch(1) by auto
  next
    case True
    have r: "run_builder (Verifier_AppendNode hp) fs v1 = (v', ok)" using Cons.prems(3) es' s True by simp
    have ps: "m_bVerify v \<Longrightarrow> node_pair (m_hvPos v) (fst n, next_sibling v) \<in> set xs" "set (run_pairs hp fs v1) \<subseteq> set xs"
      "node_pair cur n \<in> set ys" "set (hashed_pairs hp (Interpret_node hp cur n) (map fst es)) \<subseteq> set ys"
      using Cons.prems(7,8) True s e es'(1,2) by simp_all
    have IH: "m_bVerify v1 \<and> v_Count v' = v_Count v1 \<and> m_hvPos v1 = Interpret_node hp cur n \<and> list_all (entry_ok val) (v_Last v') \<and>
        (list_all (entry_ok val) (v_LastRev v1) \<longrightarrow> list_all (entry_ok val) (v_LastRev v'))"
      by (rule Cons.IH [OF ch(2) es'(3) r Cons.prems(4) _ Cons.prems(6) ps(2,4)]) (use C in simp)
    then have b: "m_bVerify v" "m_hvPos v1 = Interpret_node hp (m_hvPos v) (fst n, next_sibling v)" using C True es'(2) by (simp_all add: Interpret_node_def)
    have "Interpret_node hp (m_hvPos v) (fst n, next_sibling v) = Interpret_node hp cur n" using b(2) IH by simp
    from Interpret_node_bind [OF nc ps(1) [OF b(1)] ps(3) this] have "m_hvPos v = cur" by simp
    moreover from this have "entry_ok val \<lparr>m_hv = m_hvPos v, m_Pos = pos\<rparr>" using ch(1) by (simp add: entry_ok_def)
    ultimately show ?thesis using C IH True by (auto split: if_splits)
  qed
qed

lemma run_verify_mono: "run_builder (Verifier_AppendNode hp) es v = (v', ok) \<Longrightarrow> m_bVerify v' \<Longrightarrow> m_bVerify v"
proof (induction es arbitrary: v)
  case (Cons e es)
  obtain n pos where e: "e = (n, pos)" by (cases e)
  obtain v1 ok1 where s: "Verifier_AppendNode hp n pos v = (v1, ok1)" by (cases "Verifier_AppendNode hp n pos v")
  have "m_bVerify v1 \<Longrightarrow> m_bVerify v" using s
    by (auto simp: Verifier_AppendNode_def Let_def split: prod.splits option.splits list.splits if_splits)
  moreover have "m_bVerify v1" using Cons e s by (cases ok1) auto
  ultimately show ?case by simp
qed simp

lemma Process_verify_mono: "m_bVerify (Verifier_Process hp rootok i v) \<Longrightarrow> m_bVerify v"
  using run_verify_mono [of hp _ v]
  by (auto simp: Verifier_Process_def Mmr_get_Proof_with_def get_Proof_loop_run Let_def split: prod.splits if_splits)

context mmr_reader
begin

definition verifier_ok :: "'h Verifier \<Rightarrow> bool" where
  "verifier_ok v \<longleftrightarrow> list_all (entry_ok (sibling_val hp leaf count)) (v_Last v) \<and> v_LastRev v = [] \<and> v_Count v = count"

lemma Process_sound:
  assumes nc: "\<not> collision hp xs ys"
    and "v' = Verifier_Process hp ((=) (mth hp leaf 0 count)) i (v\<lparr>m_hvPos := hv\<rparr>)" and "m_bVerify v'" and "verifier_ok v"
    and "set (Process_pairs hp i (v\<lparr>m_hvPos := hv\<rparr>)) \<subseteq> set xs"
    and "\<And>i. i < count \<Longrightarrow> set (hashed_pairs hp (leaf i) (map fst (proof_entries hp load count 0 count i))) \<subseteq> set ys"
  shows "i < count \<and> hv = leaf i \<and> verifier_ok v'"
proof -
  let ?val = "sibling_val hp leaf count" and ?v = "v\<lparr>m_hvPos := hv\<rparr>"
  let ?es = "proof_entries hp (\<lambda>pos. 0) count 0 count i"
  have i: "i < count" using assms(2-4) by (auto simp: Verifier_Process_def verifier_ok_def split: if_splits)
  obtain v1 ok where r: "run_builder (Verifier_AppendNode hp) ?es ?v = (v1, ok)"
    by (cases "run_builder (Verifier_AppendNode hp) ?es ?v")
  have v': "v' = (let v2 = (if ok \<and> m_bVerify v1 \<and> \<not> mth hp leaf 0 count = m_hvPos v1 then v1\<lparr>m_bVerify := False\<rparr> else v1)
      in v2\<lparr>v_Last := fold (#) (v_LastRev v2) (v_Last v2), v_LastRev := []\<rparr>)"
    using assms(2,4) i r by (simp add: Verifier_Process_def Mmr_get_Proof_with_def get_Proof_loop_run verifier_ok_def)
  then have m: "m_bVerify v1" "ok \<longrightarrow> m_hvPos v1 = mth hp leaf 0 count"
    using assms(3) by (auto simp: Let_def split: if_splits)
  have sh: "shape ?es = shape (proof_entries hp load count 0 count i)" by (rule proof_entries_shape)
  have "m_bVerify ?v \<and> v_Count v1 = v_Count ?v \<and> m_hvPos ?v = leaf i \<and> list_all (entry_ok ?val) (v_Last v1) \<and>
      (list_all (entry_ok ?val) (v_LastRev ?v) \<longrightarrow> list_all (entry_ok ?val) (v_LastRev v1))"
    using assms(4,5) assms(6) [OF i] m i by (intro run_sound [OF nc entries_chain_leaf [OF i] sh r]) (simp_all add: verifier_ok_def Process_pairs_def)
  then show ?thesis using i v' m assms(4)
    by (auto simp: verifier_ok_def Let_def fold_Cons_rev)
qed

lemma run_all_sound:
  assumes nc: "\<not> collision hp xs ys" and "verifier_ok v"
    and pr: "\<And>i. i < count \<Longrightarrow> set (hashed_pairs hp (leaf i) (map fst (proof_entries hp load count 0 count i))) \<subseteq> set ys"
  shows "m_bVerify (Verifier_run hp ((=) (mth hp leaf 0 count)) ihs v) \<Longrightarrow>
    set (Verifier_run_pairs hp ((=) (mth hp leaf 0 count)) ihs v) \<subseteq> set xs \<Longrightarrow>
    verifier_ok (Verifier_run hp ((=) (mth hp leaf 0 count)) ihs v) \<and> (\<forall>(i, hv) \<in> set ihs. i < count \<and> hv = leaf i)"
proof (induction ihs rule: rev_induct)
  case Nil
  then show ?case using assms(2) by (simp add: Verifier_run_def)
next
  case (snoc ih ihs)
  obtain i hv where ih: "ih = (i, hv)" by (cases ih)
  let ?v = "Verifier_run hp ((=) (mth hp leaf 0 count)) ihs v"
  define w where "w = Verifier_Process hp ((=) (mth hp leaf 0 count)) i (?v\<lparr>m_hvPos := hv\<rparr>)"
  have w: "Verifier_run hp ((=) (mth hp leaf 0 count)) (ihs @ [ih]) v = w"
    by (simp add: Verifier_run_def ih w_def)
  then have "m_bVerify w" using snoc.prems(1) by simp
  moreover have "m_bVerify (?v\<lparr>m_hvPos := hv\<rparr>)" using calculation unfolding w_def by (rule Process_verify_mono)
  moreover have "set (Process_pairs hp i (?v\<lparr>m_hvPos := hv\<rparr>)) \<subseteq> set xs" "set (Verifier_run_pairs hp ((=) (mth hp leaf 0 count)) ihs v) \<subseteq> set xs"
    using snoc.prems(2) by (simp_all add: Verifier_run_pairs_append ih)
  ultimately show ?case unfolding w using Process_sound [OF nc w_def _ _ _ pr] snoc.IH by (auto simp: ih)
qed

end

subsection \<open>Properties\<close>

text \<open>
  C9: completeness of multi-proofs.  For any sequence of elements of a range, the data the builder
  collects makes the verifier accept the true hashes of these elements in the same order, and
  consumes the data exactly.
\<close>

theorem MultiProof_complete:
  assumes "\<forall>i \<in> set is. i < count"
    and "v = Verifier_run hp ((=) (Fly_get_Hash hp leaf count)) (map (\<lambda>i. (i, leaf i)) is)
      (Verifier_new (m_vData (Builder_Adds hp (Fly_Calculate hp leaf) count is Builder_new)) count)"
  shows "m_bVerify v \<and> m_it v = []"
proof -
  from fly.Adds_run [OF assms(1) _ refl, of Builder_new hp leaf] obtain d where
    "m_vData (Builder_Adds hp (Fly_Calculate hp leaf) count is Builder_new) = d"
    "\<And>v rest. in_step (sibling_val hp leaf count) Builder_new v \<Longrightarrow> m_it v = d @ rest \<Longrightarrow> v_Count v = count \<Longrightarrow>
      (let v' = Verifier_run hp ((=) (mth hp leaf 0 count)) (map (\<lambda>i. (i, leaf i)) is) v in m_bVerify v' \<and> m_it v' = rest)"
    by (auto simp: Builder_new_def)
  moreover have "Fly_get_Hash hp leaf count = mth hp leaf 0 count" by (simp add: Fly_get_Hash_def fly.get_Hash_eq)
  ultimately show ?thesis
    using assms(2) by (simp add: Let_def in_step_def Builder_new_def Verifier_new_def)
qed

theorem MultiProof_complete_witness:
  "m_bVerify (Verifier_run (\<lambda>a b. 2 * a + 3 * b) ((=) (Fly_get_Hash (\<lambda>a b. 2 * a + 3 * b) (\<lambda>i. 10 * i) 7)) [(2, 20 :: nat), (5, 50)]
     (Verifier_new (m_vData (Builder_Adds (\<lambda>a b. 2 * a + 3 * b) (Fly_Calculate (\<lambda>a b. 2 * a + 3 * b) (\<lambda>i. 10 * i)) 7 [2, 5] Builder_new)) 7))"
  using MultiProof_complete [of "[2, 5]" 7 _ "\<lambda>a b. 2 * a + 3 * b" "\<lambda>i. 10 * i", OF _ refl] by simp

text \<open>
  C8: soundness of multi-proofs.  Whatever data the verifier is given, if it accepts a sequence of claimed
  elements against the root of a range, then every claimed index is in the range and every claimed hash is the
  element at that index, unless the node hash has a collision that the run exhibits: a pair of values the
  verifier hashed and a different pair of values of the tree with the same hash.
\<close>

theorem MultiProof_sound:
  assumes "m_bVerify (Verifier_run hp ((=) (Fly_get_Hash hp leaf count)) ihs (Verifier_new data count))"
  shows "(\<forall>(i, hv) \<in> set ihs. i < count \<and> hv = leaf i) \<or>
    collision hp (Verifier_run_pairs hp ((=) (Fly_get_Hash hp leaf count)) ihs (Verifier_new data count)) (tree_pairs hp leaf count)"
proof (rule disjCI)
  assume nc: "\<not> collision hp (Verifier_run_pairs hp ((=) (Fly_get_Hash hp leaf count)) ihs (Verifier_new data count)) (tree_pairs hp leaf count)"
  have h: "Fly_get_Hash hp leaf count = mth hp leaf 0 count" by (simp add: Fly_get_Hash_def fly.get_Hash_eq)
  have "fly.verifier_ok hp leaf count (Verifier_new data count)" by (simp add: fly.verifier_ok_def Verifier_new_def)
  from fly.run_all_sound [OF nc this tree_pairs_proof, of ihs, folded h, OF _ assms order_refl]
  show "\<forall>(i, hv) \<in> set ihs. i < count \<and> hv = leaf i" by blast
qed

theorem MultiProof_sound_witness:
  "let hp = (\<lambda>a b. 3 * a + b :: u8); leaf = (\<lambda>i. 10 * of_nat i); rootok = (=) (Fly_get_Hash hp leaf 3)
   in m_bVerify (Verifier_run hp rootok [(1, 10), (0, 0)] (Verifier_new [0, 20, 10] 3)) \<and>
      m_bVerify (Verifier_run hp rootok [(1, 13)] (Verifier_new [255, 20] 3)) \<and>
      collision hp (Verifier_run_pairs hp rootok [(1, 13)] (Verifier_new [255, 20] 3)) (tree_pairs hp leaf 3)"
proof -
  let ?hp = "\<lambda>a b. 3 * a + b :: u8" and ?leaf = "\<lambda>i. 10 * of_nat i :: u8"
  have "m_bVerify (Verifier_run ?hp ((=) (Fly_get_Hash ?hp ?leaf 3)) [(1, 10), (0, 0)] (Verifier_new [0, 20, 10] 3))"
    "m_bVerify (Verifier_run ?hp ((=) (Fly_get_Hash ?hp ?leaf 3)) [(1, 13)] (Verifier_new [255, 20] 3))" by (code_simp, code_simp)
  then show ?thesis using MultiProof_sound [of ?hp ?leaf 3 "[(1, 13)]" "[255, 20]"] by (simp add: Let_def)
qed

end
