(* ===== verification/RadixTree.thy ===== *)
theory RadixTree
  imports Merkle
begin
unbundle bit_operations_syntax

section \<open>The radix tree (core/radixtree.cpp: RadixTree, RadixHashTree)\<close>

text \<open>
  A node is a leaf or a joint with two children; a joint skips \<open>m_Bits\<close> bits that all keys below it
  share and then branches on the next bit.  Where the code keeps flags in the upper bits of
  \<open>m_Bits\<close>, the model has the constructor (\<open>s_Leaf\<close>) and a boolean (\<open>s_Clean\<close>).
  Pointers between nodes are the tree itself; the cursor's array of node pointers is the list of
  branches taken from the root.  \<open>m_pKeyPtr\<close> of a joint points to the key stored in some leaf; keys of
  different leaves differ, so the pointer is the key it points to.  The payload of a leaf besides its
  key is \<open>'d\<close>, the cached hash of a joint \<open>'h\<close>.
\<close>

datatype ('d, 'h) RNode =
  Leaf (m_Bits: nat) (m_Clean: bool) (m_Key: bytes) (leaf_data: 'd)
| Joint (m_Bits: nat) (m_Clean: bool) (m_KeyPtr: bytes) (m_Hash: 'h) (child0: "('d, 'h) RNode") (child1: "('d, 'h) RNode")

type_synonym ('d, 'h) Tree = "('d, 'h) RNode option"

definition get_NodeKey :: "('d, 'h) RNode \<Rightarrow> bytes" where
  "get_NodeKey n = (case n of Leaf b c k d \<Rightarrow> k | Joint b c k h l r \<Rightarrow> k)"

definition get_BitRawStat :: "bytes \<Rightarrow> nat \<Rightarrow> u8" where
  "get_BitRawStat p0 nBit = drop_bit (7 XOR (7 AND nBit)) (p0 ! (drop_bit 3 nBit))"

definition get_Bit :: "bytes \<Rightarrow> nat \<Rightarrow> bool" where
  "get_Bit p0 nBit = (1 AND get_BitRawStat p0 nBit \<noteq> 0)"

text \<open>\<open>m_pp\<close> is \<open>None\<close> when \<open>m_nPtrs\<close> is zero, otherwise the branches to the last node.\<close>

record Cursor =
  m_nBits :: nat
  m_nPosInLastNode :: nat
  m_pp :: "bool list option"

subsection \<open>Paths\<close>

fun node_at :: "bool list \<Rightarrow> ('d, 'h) RNode \<Rightarrow> ('d, 'h) RNode option" where
  "node_at [] n = Some n"
| "node_at (c # cs) (Joint b cl k h l r) = node_at cs (if c then r else l)"
| "node_at (c # cs) (Leaf b cl k d) = None"

text \<open>\<open>ReplaceTip\<close>: the pointer to the node at the end of the path is redirected.\<close>

fun ReplaceTip :: "bool list \<Rightarrow> ('d, 'h) RNode \<Rightarrow> ('d, 'h) RNode \<Rightarrow> ('d, 'h) RNode" where
  "ReplaceTip [] pNew n = pNew"
| "ReplaceTip (c # cs) pNew (Joint b cl k h l r) =
     (if c then Joint b cl k h l (ReplaceTip cs pNew r) else Joint b cl k h (ReplaceTip cs pNew l) r)"
| "ReplaceTip (c # cs) pNew (Leaf b cl k d) = Leaf b cl k d"

definition set_clean :: "bool \<Rightarrow> ('d, 'h) RNode \<Rightarrow> ('d, 'h) RNode" where
  "set_clean cl n = (case n of Leaf b _ k d \<Rightarrow> Leaf b cl k d | Joint b _ k h l r \<Rightarrow> Joint b cl k h l r)"

definition set_bits :: "nat \<Rightarrow> ('d, 'h) RNode \<Rightarrow> ('d, 'h) RNode" where
  "set_bits b n = (case n of Leaf _ cl k d \<Rightarrow> Leaf b cl k d | Joint _ cl k h l r \<Rightarrow> Joint b cl k h l r)"

text \<open>
  \<open>InvalidateElement\<close> clears the flags from the last node of the path upwards until it meets a node
  that is not clean; the boolean tells whether the loop goes on above.
\<close>

fun Invalidate :: "bool list \<Rightarrow> ('d, 'h) RNode \<Rightarrow> ('d, 'h) RNode \<times> bool" where
  "Invalidate [] n = (if m_Clean n then (set_clean False n, True) else (n, False))"
| "Invalidate (c # cs) (Joint b cl k h l r) =
     (case Invalidate cs (if c then r else l) of (n', go) \<Rightarrow>
        let j = (if c then Joint b cl k h l n' else Joint b cl k h n' r)
        in if go \<and> cl then (set_clean False j, True) else (j, False))"
| "Invalidate (c # cs) (Leaf b cl k d) = (Leaf b cl k d, False)"

definition InvalidateElement :: "bool list \<Rightarrow> ('d, 'h) RNode \<Rightarrow> ('d, 'h) RNode" where
  "InvalidateElement cs n = fst (Invalidate cs n)"

subsection \<open>Search\<close>

text \<open>
  The comparison loop within one node: the bit position and the position in the node where it stops,
  and whether the bits matched.
\<close>

function Goto_match :: "bytes \<Rightarrow> bytes \<Rightarrow> nat \<Rightarrow> nat \<Rightarrow> nat \<Rightarrow> nat \<times> nat \<times> bool" where
  "Goto_match pKey pKeyNode nThreshold nb pos =
     (if nb < nThreshold then
        (if get_Bit pKey nb \<noteq> get_Bit pKeyNode nb then (nb, pos, False)
         else Goto_match pKey pKeyNode nThreshold (Suc nb) (Suc pos))
      else (nb, pos, True))"
  by pat_completeness auto
termination by (relation "measure (\<lambda>(pKey, pKeyNode, nThreshold, nb, pos). nThreshold - nb)") auto

declare Goto_match.simps [simp del]

text \<open>
  The loop of \<open>Goto\<close> at a node.  \<open>None\<close> is the branch where a leaf would be read as a joint, which
  the code excludes by an assertion.
\<close>

fun Goto_node :: "bytes \<Rightarrow> nat \<Rightarrow> ('d, 'h) RNode \<Rightarrow> nat \<Rightarrow> bool list \<Rightarrow> (Cursor \<times> bool) option" where
  "Goto_node pKey nBits p nb path =
     (if \<not> nBits > nb then Some (\<lparr>m_nBits = nb, m_nPosInLastNode = 0, m_pp = Some path\<rparr>, True)
      else
        case Goto_match pKey (get_NodeKey p) (min (nb + m_Bits p) nBits) nb 0 of (nb1, pos, ok) \<Rightarrow>
          if \<not> ok then Some (\<lparr>m_nBits = nb1, m_nPosInLastNode = pos, m_pp = Some path\<rparr>, False)
          else if nb1 = nBits then Some (\<lparr>m_nBits = nb1, m_nPosInLastNode = pos, m_pp = Some path\<rparr>, True)
          else
            (case p of
               Leaf b cl k d \<Rightarrow> None
             | Joint b cl k h l r \<Rightarrow>
                 if get_Bit pKey nb1 then Goto_node pKey nBits r (Suc nb1) (path @ [True])
                 else Goto_node pKey nBits l (Suc nb1) (path @ [False])))"

declare Goto_node.simps [simp del]

definition Goto :: "('d, 'h) Tree \<Rightarrow> bytes \<Rightarrow> nat \<Rightarrow> (Cursor \<times> bool) option" where
  "Goto t pKey nBits =
     (case t of
        None \<Rightarrow> Some (\<lparr>m_nBits = 0, m_nPosInLastNode = 0, m_pp = None\<rparr>, \<not> nBits > 0)
      | Some p \<Rightarrow> Goto_node pKey nBits p 0 [])"

subsection \<open>Insertion\<close>

text \<open>
  The split of the node \<open>p\<close> at the cursor: a new joint takes its place, with the new leaf on the side
  of the key's bit.  The hash of a new joint is not set by the code; it is not clean.
\<close>

definition split_node :: "bytes \<Rightarrow> nat \<Rightarrow> 'd \<Rightarrow> Cursor \<Rightarrow> ('d, 'h::zero) RNode \<Rightarrow> ('d, 'h) RNode" where
  "split_node pKey nBits d0 cu p =
     (let iC = get_Bit pKey (m_nBits cu);
          pN = Leaf (nBits - (m_nBits cu + 1)) False pKey d0;
          p' = set_bits (m_Bits p - (m_nPosInLastNode cu + 1)) p
      in Joint (m_nPosInLastNode cu) False (get_NodeKey p) 0 (if iC then p' else pN) (if iC then pN else p'))"

text \<open>
  \<open>Find\<close> returns the tree, the cursor, whether a leaf is returned, and \<open>bCreate\<close>.  \<open>d0\<close> is the payload
  of the leaf that \<open>CreateLeaf\<close> makes.
\<close>

definition Find :: "('d, 'h::zero) Tree \<Rightarrow> bytes \<Rightarrow> nat \<Rightarrow> bool \<Rightarrow> 'd \<Rightarrow> (('d, 'h) Tree \<times> Cursor \<times> bool \<times> bool) option" where
  "Find t pKey nBits bCreate d0 =
     (case Goto t pKey nBits of
        None \<Rightarrow> None
      | Some (cu, True) \<Rightarrow> Some (t, cu, True, False)
      | Some (cu, False) \<Rightarrow>
          if \<not> bCreate then Some (t, cu, False, bCreate)
          else
            (case (t, m_pp cu) of
               (Some root, Some path) \<Rightarrow>
                 (case node_at path root of
                    None \<Rightarrow> None
                  | Some p0 \<Rightarrow>
                      let root1 = InvalidateElement path root;
                          p = the (node_at path root1);
                          root2 = ReplaceTip path (split_node pKey nBits d0 cu p) root1
                      in Some (Some root2,
                           \<lparr>m_nBits = nBits, m_nPosInLastNode = nBits - (m_nBits cu + 1),
                            m_pp = Some (path @ [get_Bit pKey (m_nBits cu)])\<rparr>, True, bCreate))
             | _ \<Rightarrow>
                 Some (Some (Leaf nBits False pKey d0),
                   \<lparr>m_nBits = nBits, m_nPosInLastNode = nBits, m_pp = Some []\<rparr>, True, bCreate)))"

subsection \<open>Deletion\<close>

text \<open>
  The loop that redirects the key pointers of the joints above, from the last joint of the path
  upwards until one does not point to the dead key.
\<close>

fun Rekey :: "bytes \<Rightarrow> bytes \<Rightarrow> bool list \<Rightarrow> ('d, 'h) RNode \<Rightarrow> ('d, 'h) RNode \<times> bool" where
  "Rekey dead new [] (Joint b cl k h l r) =
     (if k \<noteq> dead then (Joint b cl k h l r, False) else (Joint b cl new h l r, True))"
| "Rekey dead new (c # cs) (Joint b cl k h l r) =
     (case Rekey dead new cs (if c then r else l) of (n', go) \<Rightarrow>
        let k' = (if go \<and> k = dead then new else k)
        in (if c then Joint b cl k' h l n' else Joint b cl k' h n' r, go \<and> k = dead))"
| "Rekey dead new cs (Leaf b cl k d) = (Leaf b cl k d, False)"

text \<open>
  \<open>Delete\<close> of the leaf at a cursor: its sibling absorbs the bits of the joint and takes its place.
  \<open>None\<close> is the failure of the assertions (no leaf at the cursor).  The source adds the whole word \<open>m_Bits\<close> of the
  joint; its flags are zero there, a joint has no leaf flag and the cursor was invalidated before.
\<close>

definition Delete :: "('d, 'h) Tree \<Rightarrow> bool list \<Rightarrow> ('d, 'h) Tree option" where
  "Delete t path =
     (case t of
        None \<Rightarrow> None
      | Some root \<Rightarrow>
          let root1 = InvalidateElement path root in
          (case node_at path root1 of
             Some (Leaf b cl pKeyDead d) \<Rightarrow>
               if path = [] then Some None
               else
                 let up = butlast path in
                 (case node_at up root1 of
                    Some (Joint jb jcl jk jh l r) \<Rightarrow>
                      let pN = (if last path then l else r);
                          root2 = fst (Rekey pKeyDead (get_NodeKey pN) up root1)
                      in Some (Some (ReplaceTip up (set_bits (m_Bits pN + (jb + 1)) pN) root2))
                  | _ \<Rightarrow> None)
           | _ \<Rightarrow> None))"

subsection \<open>Hashes and proofs\<close>

fun get_Hash_node :: "('h \<Rightarrow> 'h \<Rightarrow> 'h) \<Rightarrow> (bytes \<Rightarrow> 'd \<Rightarrow> 'h) \<Rightarrow> ('d, 'h) RNode \<Rightarrow> ('d, 'h) RNode \<times> 'h" where
  "get_Hash_node hp get_LeafHash (Leaf b cl k d) = (Leaf b True k d, get_LeafHash k d)"
| "get_Hash_node hp get_LeafHash (Joint b cl k h l r) =
     (if \<not> cl then
        (case (get_Hash_node hp get_LeafHash l, get_Hash_node hp get_LeafHash r) of ((l', hl), (r', hr)) \<Rightarrow>
           (Joint b True k (hp hl hr) l' r', hp hl hr))
      else (Joint b cl k h l r, h))"

definition get_Hash :: "('h::zero \<Rightarrow> 'h \<Rightarrow> 'h) \<Rightarrow> (bytes \<Rightarrow> 'd \<Rightarrow> 'h) \<Rightarrow> ('d, 'h) Tree \<Rightarrow> ('d, 'h) Tree \<times> 'h" where
  "get_Hash hp get_LeafHash t =
     (case t of
        None \<Rightarrow> (None, 0)
      | Some p \<Rightarrow> (case get_Hash_node hp get_LeafHash p of (p', hv) \<Rightarrow> (Some p', hv)))"

text \<open>The proof goes from the leaf up; the sibling hashes are evaluated (and cached) on the way.\<close>

fun get_Proof_node ::
  "('h \<Rightarrow> 'h \<Rightarrow> 'h) \<Rightarrow> (bytes \<Rightarrow> 'd \<Rightarrow> 'h) \<Rightarrow> bool list \<Rightarrow> ('d, 'h) RNode \<Rightarrow> ('d, 'h) RNode \<times> 'h Proof" where
  "get_Proof_node hp get_LeafHash [] n = (n, [])"
| "get_Proof_node hp get_LeafHash (c # cs) (Joint b cl k h l r) =
     (case (get_Proof_node hp get_LeafHash cs (if c then r else l), get_Hash_node hp get_LeafHash (if c then l else r)) of
        ((n', proof), (s', hv)) \<Rightarrow>
          (if c then Joint b cl k h s' n' else Joint b cl k h n' s', proof @ [(\<not> c, hv)]))"
| "get_Proof_node hp get_LeafHash (c # cs) (Leaf b cl k d) = (Leaf b cl k d, [])"

definition get_Proof ::
  "('h \<Rightarrow> 'h \<Rightarrow> 'h) \<Rightarrow> (bytes \<Rightarrow> 'd \<Rightarrow> 'h) \<Rightarrow> 'h Proof \<Rightarrow> bool list \<Rightarrow> ('d, 'h) RNode \<Rightarrow> ('d, 'h) RNode \<times> 'h Proof" where
  "get_Proof hp get_LeafHash proof path root =
     (case get_Proof_node hp get_LeafHash path root of (root', p) \<Rightarrow> (root', proof @ p))"

subsection \<open>Traversal within bounds\<close>

text \<open>The result of a comparison of bits is \<open>-1\<close>, \<open>0\<close> or \<open>1\<close>.\<close>

definition cmp_bit :: "bool \<Rightarrow> bool \<Rightarrow> int" where
  "cmp_bit a b = (if \<not> a \<and> b then -1 else if a \<and> \<not> b then 1 else 0)"

fun Cmp_bits :: "bytes \<Rightarrow> bytes \<Rightarrow> nat \<Rightarrow> nat \<Rightarrow> int" where
  "Cmp_bits pKey pThreshold n0 0 = 0"
| "Cmp_bits pKey pThreshold n0 (Suc dn) =
     (let c = cmp_bit (get_Bit pKey n0) (get_Bit pThreshold n0)
      in if c \<noteq> 0 then c else Cmp_bits pKey pThreshold (Suc n0) dn)"

definition Cmp1 :: "bool \<Rightarrow> bytes \<Rightarrow> nat \<Rightarrow> int" where
  "Cmp1 n pThreshold n0 = cmp_bit n (get_Bit pThreshold n0)"

text \<open>
  One pass of the loop over the two bounds (\<open>lower\<close> tells the first from the second): \<open>None\<close> when the
  node is outside, otherwise the bound that still matters below.
\<close>

definition check_bound :: "bool \<Rightarrow> (bytes \<Rightarrow> int) \<Rightarrow> bytes option \<Rightarrow> bytes option option" where
  "check_bound lower cmp pB =
     (case pB of
        None \<Rightarrow> Some None
      | Some B \<Rightarrow>
          let nCmp = cmp B
          in if nCmp = 0 then Some (Some B) else if (nCmp < 0) = lower then None else Some None)"

definition check_bounds :: "(bytes \<Rightarrow> int) \<Rightarrow> bytes option \<times> bytes option \<Rightarrow> (bytes option \<times> bytes option) option" where
  "check_bounds cmp bnd =
     (case check_bound True cmp (fst bnd) of
        None \<Rightarrow> None
      | Some lo \<Rightarrow> (case check_bound False cmp (snd bnd) of None \<Rightarrow> None | Some hi \<Rightarrow> Some (lo, hi)))"

text \<open>
  \<open>OnLeaf\<close> gets the cursor (the branches \<open>pp\<close> taken to the leaf), the key, the payload and the state of
  the traveler; \<open>False\<close> stops the iteration.
\<close>

fun Traverse_node ::
  "(bool list \<Rightarrow> bytes \<Rightarrow> 'd \<Rightarrow> 's \<Rightarrow> 's \<times> bool) \<Rightarrow> bool list \<Rightarrow> ('d, 'h) RNode \<Rightarrow> nat \<Rightarrow> bytes option \<times> bytes option \<Rightarrow> 's \<Rightarrow>
     's \<times> bool" where
  "Traverse_node OnLeaf pp (Leaf b cl k d) nb bnd st =
     (case (if b \<noteq> 0 then check_bounds (\<lambda>B. Cmp_bits k B nb b) bnd else Some bnd) of
        None \<Rightarrow> (st, True)
      | Some bnd1 \<Rightarrow> OnLeaf pp k d st)"
| "Traverse_node OnLeaf pp (Joint b cl k h l r) nb bnd st =
     (case (if b \<noteq> 0 then check_bounds (\<lambda>B. Cmp_bits k B nb b) bnd else Some bnd) of
        None \<Rightarrow> (st, True)
      | Some bnd1 \<Rightarrow>
          (case (case check_bounds (\<lambda>B. Cmp1 False B (nb + b)) bnd1 of
                   None \<Rightarrow> (st, True)
                 | Some bl \<Rightarrow> Traverse_node OnLeaf (pp @ [False]) l (Suc (nb + b)) bl st) of
             (st1, go) \<Rightarrow>
               if \<not> go then (st1, False)
               else
                 (case check_bounds (\<lambda>B. Cmp1 True B (nb + b)) bnd1 of
                    None \<Rightarrow> (st1, True)
                  | Some br \<Rightarrow> Traverse_node OnLeaf (pp @ [True]) r (Suc (nb + b)) br st1)))"

definition Traverse ::
  "(bool list \<Rightarrow> bytes \<Rightarrow> 'd \<Rightarrow> 's \<Rightarrow> 's \<times> bool) \<Rightarrow> ('d, 'h) Tree \<Rightarrow> bytes option \<times> bytes option \<Rightarrow> 's \<Rightarrow> 's \<times> bool" where
  "Traverse OnLeaf t bnd st = (case t of None \<Rightarrow> (st, True) | Some p \<Rightarrow> Traverse_node OnLeaf [] p 0 bnd st)"

definition Count :: "('d, 'h) Tree \<Rightarrow> nat" where
  "Count t = fst (Traverse (\<lambda>pp k d n. (n + 1, True)) t (None, None) 0)"

subsection \<open>The flags in the upper bits\<close>

text \<open>How \<open>m_Bits\<close> is stored: the number of bits below three flags.\<close>

definition s_Clean :: u16 where "s_Clean = push_bit 15 1"
definition s_Leaf :: u16 where "s_Leaf = push_bit 14 1"
definition s_User :: u16 where "s_User = push_bit 13 1"

definition get_Bits :: "u16 \<Rightarrow> u16" where
  "get_Bits w = w AND NOT (s_Clean OR s_Leaf OR s_User)"

subsection \<open>Well-formed trees\<close>

fun leaves :: "('d, 'h) RNode \<Rightarrow> (bytes \<times> 'd) list" where
  "leaves (Leaf b cl k d) = [(k, d)]"
| "leaves (Joint b cl k h l r) = leaves l @ leaves r"

abbreviation keys :: "('d, 'h) RNode \<Rightarrow> bytes set" where
  "keys n \<equiv> fst ` set (leaves n)"

definition agree :: "nat \<Rightarrow> bytes \<Rightarrow> bytes \<Rightarrow> bool" where
  "agree b x y \<longleftrightarrow> (\<forall>i < b. get_Bit x i = get_Bit y i)"

text \<open>
  \<open>wf_node nB b n\<close>: the node \<open>n\<close>, reached after \<open>b\<close> bits in a tree of keys of \<open>nB\<close> bits, branches on
  the first bit where the keys below it differ, has its key pointer on the key of a child, and its
  leaves end at bit \<open>nB\<close>.
\<close>

fun wf_node :: "nat \<Rightarrow> nat \<Rightarrow> ('d, 'h) RNode \<Rightarrow> bool" where
  "wf_node nB b (Leaf bs cl k d) \<longleftrightarrow> b + bs = nB"
| "wf_node nB b (Joint bs cl k h l r) \<longleftrightarrow> b + bs < nB \<and>
     (\<forall>x \<in> keys l. \<not> get_Bit x (b + bs) \<and> agree (b + bs) x k) \<and>
     (\<forall>x \<in> keys r. get_Bit x (b + bs) \<and> agree (b + bs) x k) \<and>
     (k = get_NodeKey l \<or> k = get_NodeKey r) \<and>
     wf_node nB (Suc (b + bs)) l \<and> wf_node nB (Suc (b + bs)) r"

lemma get_NodeKey_simps [simp]:
  "get_NodeKey (Leaf b cl k d) = k" "get_NodeKey (Joint b cl k h l r) = k"
  by (simp_all add: get_NodeKey_def)

lemma agree_refl [simp]: "agree b x x"
  by (simp add: agree_def)

lemma agree_sym: "agree b x y \<Longrightarrow> agree b y x"
  by (simp add: agree_def)

lemma agree_trans: "agree b x y \<Longrightarrow> agree b y z \<Longrightarrow> agree b x z"
  by (simp add: agree_def)

lemma agree_mono: "agree b x y \<Longrightarrow> a \<le> b \<Longrightarrow> agree a x y"
  by (simp add: agree_def)

lemma agree_Suc: "agree (Suc b) x y \<longleftrightarrow> agree b x y \<and> get_Bit x b = get_Bit y b"
  by (auto simp: agree_def less_Suc_eq)

lemma agreeD: "agree b x y \<Longrightarrow> i < b \<Longrightarrow> get_Bit x i = get_Bit y i"
  by (simp add: agree_def)

lemma leaves_nonempty [simp]: "leaves n \<noteq> []"
  by (induction n) auto

lemma NodeKey_in: "wf_node nB b n \<Longrightarrow> get_NodeKey n \<in> keys n"
  by (induction nB b n rule: wf_node.induct) auto

lemma wf_bits: "wf_node nB b n \<Longrightarrow> b + m_Bits n \<le> nB"
  by (cases n) auto

text \<open>All keys of a node agree on the bits up to its end.\<close>

lemma wf_agree: "wf_node nB b n \<Longrightarrow> x \<in> keys n \<Longrightarrow> agree (b + m_Bits n) x (get_NodeKey n)"
  by (cases n) auto

text \<open>Keys of different leaves differ within \<open>nB\<close> bits.\<close>

lemma wf_distinct:
  "wf_node nB b n \<Longrightarrow> (k, d) \<in> set (leaves n) \<Longrightarrow> (k', d') \<in> set (leaves n) \<Longrightarrow> agree nB k k' \<Longrightarrow> k = k' \<and> d = d'"
proof (induction nB b n rule: wf_node.induct)
  case (2 nB b bs cl p h l r)
  then have "get_Bit k (b + bs) = get_Bit k' (b + bs)" by (auto dest: agreeD)
  then show ?case using 2 by (fastforce simp: image_iff)
qed simp

lemma Goto_match_spec:
  assumes "nb \<le> thr" and "Goto_match key nk thr nb pos = (nb1, pos1, ok)"
  shows "nb \<le> nb1 \<and> nb1 \<le> thr \<and> pos1 = pos + (nb1 - nb) \<and> (\<forall>i. nb \<le> i \<longrightarrow> i < nb1 \<longrightarrow> get_Bit key i = get_Bit nk i) \<and>
    (if ok then nb1 = thr else nb1 < thr \<and> get_Bit key nb1 \<noteq> get_Bit nk nb1)"
  using assms
proof (induction key nk thr nb pos rule: Goto_match.induct)
  case (1 key nk thr nb pos)
  show ?case
  proof (cases "nb < thr \<and> get_Bit key nb = get_Bit nk nb")
    case True
    then have "Goto_match key nk thr (Suc nb) (Suc pos) = (nb1, pos1, ok)"
      using "1.prems"(2) by (subst (asm) Goto_match.simps) simp
    then have IH: "Suc nb \<le> nb1 \<and> nb1 \<le> thr \<and> pos1 = Suc pos + (nb1 - Suc nb) \<and>
        (\<forall>i. Suc nb \<le> i \<longrightarrow> i < nb1 \<longrightarrow> get_Bit key i = get_Bit nk i) \<and>
        (if ok then nb1 = thr else nb1 < thr \<and> get_Bit key nb1 \<noteq> get_Bit nk nb1)"
      using "1.IH" True by simp
    moreover have "get_Bit key i = get_Bit nk i" if "nb \<le> i" "i < nb1" for i
      using that IH True by (cases "i = nb") auto
    ultimately show ?thesis by (auto split: if_splits)
  next
    case False
    then show ?thesis using "1.prems" Goto_match.simps [of key nk thr nb pos] by (auto split: if_splits)
  qed
qed


text \<open>The bit position of the node at the end of a path.\<close>

fun pos_at :: "nat \<Rightarrow> bool list \<Rightarrow> ('d, 'h) RNode \<Rightarrow> nat" where
  "pos_at b [] n = b"
| "pos_at b (c # cs) (Joint bs cl k h l r) = pos_at (Suc (b + bs)) cs (if c then r else l)"
| "pos_at b (c # cs) (Leaf bs cl k d) = b"

lemma pos_at_ge: "b \<le> pos_at b cs p"
  by (induction b cs p rule: pos_at.induct) auto

text \<open>
  What a search establishes: it ends at the node \<open>q\<close> below the start, which is the leaf of the key
  when it succeeds; otherwise \<open>q\<close> is where the key leaves the tree, at bit \<open>m_nBits\<close>.
\<close>

definition goto_post ::
  "nat \<Rightarrow> nat \<Rightarrow> bytes \<Rightarrow> ('d, 'h) RNode \<Rightarrow> bool list \<Rightarrow> Cursor \<Rightarrow> bool \<Rightarrow> bool list \<Rightarrow> ('d, 'h) RNode \<Rightarrow> bool" where
  "goto_post nB b key p path cu ok cs q \<longleftrightarrow> m_pp cu = Some (path @ cs) \<and> node_at cs p = Some q \<and>
    (if ok then (\<exists>bs cl k d. q = Leaf bs cl k d \<and> agree nB k key)
     else pos_at b cs p \<le> m_nBits cu \<and> m_nPosInLastNode cu = m_nBits cu - pos_at b cs p \<and> m_nPosInLastNode cu < m_Bits q \<and>
       m_nBits cu < nB \<and> agree (m_nBits cu) (get_NodeKey q) key \<and>
       get_Bit key (m_nBits cu) \<noteq> get_Bit (get_NodeKey q) (m_nBits cu) \<and> (\<forall>x \<in> keys p. \<not> agree nB x key))"

lemma Goto_node_here:
  assumes wf: "wf_node nB b p" and ag: "\<forall>x \<in> keys p. agree b x key"
  obtains
    (found) cl k d bs cu where "p = Leaf bs cl k d" "Goto_node key nB p b path = Some (cu, True)" "goto_post nB b key p path cu True [] p"
  | (miss) cu where "Goto_node key nB p b path = Some (cu, False)" "goto_post nB b key p path cu False [] p"
  | (down) bs cl k h l r c where "p = Joint bs cl k h l r" "c = get_Bit key (b + bs)" "agree (b + bs) k key"
      "Goto_node key nB p b path = Goto_node key nB (if c then r else l) (Suc (b + bs)) (path @ [c])"
proof -
  let ?m = "Goto_match key (get_NodeKey p) (b + m_Bits p) b 0"
  obtain nb1 pos ok where m: "?m = (nb1, pos, ok)" by (cases ?m)
  note M = Goto_match_spec [OF _ m, simplified]
  have bits: "b + m_Bits p \<le> nB" using wf by (rule wf_bits)
  have kin: "get_NodeKey p \<in> keys p" using wf by (rule NodeKey_in)
  have nk: "agree nb1 (get_NodeKey p) key"
    using M ag kin unfolding agree_def by (metis not_le)
  have unf: "Goto_node key nB p b path =
      (if \<not> b < nB then Some (\<lparr>m_nBits = b, m_nPosInLastNode = 0, m_pp = Some path\<rparr>, True)
       else if \<not> ok then Some (\<lparr>m_nBits = nb1, m_nPosInLastNode = pos, m_pp = Some path\<rparr>, False)
       else if nb1 = nB then Some (\<lparr>m_nBits = nb1, m_nPosInLastNode = pos, m_pp = Some path\<rparr>, True)
       else case p of Leaf b cl k d \<Rightarrow> None
         | Joint b cl k h l r \<Rightarrow>
             if get_Bit key nb1 then Goto_node key nB r (Suc nb1) (path @ [True])
             else Goto_node key nB l (Suc nb1) (path @ [False]))"
    by (subst Goto_node.simps) (simp add: min_absorb1 [OF bits] m)
  show thesis
  proof (cases "b < nB \<and> \<not> ok")
    case True
    have "\<not> agree nB x key" if "x \<in> keys p" for x
    proof
      assume "agree nB x key"
      moreover have "nb1 < b + m_Bits p" "get_Bit key nb1 \<noteq> get_Bit (get_NodeKey p) nb1" using M True by auto
      moreover have "get_Bit x nb1 = get_Bit (get_NodeKey p) nb1"
        using wf_agree [OF wf that] calculation(2) by (rule agreeD)
      ultimately show False using bits by (auto dest: agreeD [of _ _ _ nb1])
    qed
    then show ?thesis
      using True M nk bits unf by (intro miss [of "\<lparr>m_nBits = nb1, m_nPosInLastNode = pos, m_pp = Some path\<rparr>"])
        (auto simp: goto_post_def)
  next
    case False
    show ?thesis
    proof (cases p)
      case (Leaf bs cl k d)
      have "agree nB k key" using False M nk ag wf Leaf by (cases "b < nB") auto
      then have post: "goto_post nB b key p path \<lparr>m_nBits = n, m_nPosInLastNode = x, m_pp = Some path\<rparr> True [] p" for n x
        using Leaf by (simp add: goto_post_def)
      show ?thesis using False M wf unf Leaf
        by (cases "b < nB") (auto intro!: found [OF Leaf _ post])
    next
      case (Joint bs cl k h l r)
      then show ?thesis using False M nk wf unf by (intro down [OF Joint refl]) auto
    qed
  qed
qed

lemma Goto_node_spec:
  assumes "wf_node nB b p" and "\<forall>x \<in> keys p. agree b x key"
  shows "\<exists>cu ok cs q. Goto_node key nB p b path = Some (cu, ok) \<and> goto_post nB b key p path cu ok cs q"
  using assms
proof (induction p arbitrary: b path)
  case (Leaf bs cl k d)
  from Leaf.prems show ?case by (rule Goto_node_here [where path = path]) auto
next
  case (Joint bs cl k h l r)
  from Joint.prems show ?case
  proof (rule Goto_node_here [where path = path])
    fix bs' cl' k' h' l' r' c
    assume J: "Joint bs cl k h l r = Joint bs' cl' k' h' l' r'" "c = get_Bit key (b + bs')" "agree (b + bs') k' key"
      "Goto_node key nB (Joint bs cl k h l r) b path = Goto_node key nB (if c then r' else l') (Suc (b + bs')) (path @ [c])"
    let ?n = "if c then r else l" and ?b = "Suc (b + bs)"
    have "wf_node nB ?b ?n" "\<forall>x \<in> keys ?n. agree ?b x key"
      using Joint.prems(1) J by (auto simp: agree_Suc dest: agree_trans)
    then obtain cu ok cs q where G: "Goto_node key nB ?n ?b (path @ [c]) = Some (cu, ok)"
        "goto_post nB ?b key ?n (path @ [c]) cu ok cs q"
      using Joint.IH [of ?b "path @ [c]"] by (cases c) auto
    have other: "\<not> agree nB x key" if "x \<in> keys (if c then l else r)" for x
    proof
      assume "agree nB x key"
      then have "get_Bit x (b + bs) = get_Bit key (b + bs)" using Joint.prems(1) by (auto dest: agreeD)
      then show False using that Joint.prems(1) J(1,2) by (auto split: if_splits)
    qed
    have "goto_post nB b key (Joint bs cl k h l r) path cu ok (c # cs) q"
      using G(2) other by (auto simp: goto_post_def split: if_splits)
    moreover have "Goto_node key nB (Joint bs cl k h l r) b path = Some (cu, ok)"
      using G(1) J(1) unfolding J(4) by (cases c) simp_all
    ultimately show ?thesis by blast
  qed blast+
qed


subsection \<open>Replacing a subtree\<close>

lemma node_at_leaves:
  "node_at cs p = Some q \<Longrightarrow> \<exists>A B. leaves p = A @ leaves q @ B \<and> (\<forall>q'. leaves (ReplaceTip cs q' p) = A @ leaves q' @ B)"
proof (induction cs p rule: node_at.induct)
  case (1 n)
  then show ?case by (intro exI [of _ "[]"]) simp
next
  case (2 c cs b cl k h l r)
  then obtain A B where AB: "leaves (if c then r else l) = A @ leaves q @ B"
      "\<forall>q'. leaves (ReplaceTip cs q' (if c then r else l)) = A @ leaves q' @ B" by auto
  show ?case
  proof (cases c)
    case True
    then show ?thesis using AB by (intro exI [of _ "leaves l @ A"] exI [of _ B]) simp
  next
    case False
    then show ?thesis using AB by (intro exI [of _ A] exI [of _ "B @ leaves r"]) simp
  qed
qed simp

lemma keys_node_at: "node_at cs p = Some q \<Longrightarrow> keys q \<subseteq> keys p"
  using node_at_leaves by fastforce

lemma wf_node_at: "wf_node nB b p \<Longrightarrow> node_at cs p = Some q \<Longrightarrow> wf_node nB (pos_at b cs p) q"
  by (induction b cs p rule: pos_at.induct) auto

lemma ReplaceTip_key: "node_at cs p = Some q \<Longrightarrow> get_NodeKey q' = get_NodeKey q \<Longrightarrow> get_NodeKey (ReplaceTip cs q' p) = get_NodeKey p"
  by (induction cs p rule: node_at.induct) (auto split: if_splits)

text \<open>A subtree may be replaced by one with the same key pointer whose keys share the bits above it.\<close>

lemma ReplaceTip_wf:
  assumes "wf_node nB b p" and "node_at cs p = Some q" and "wf_node nB (pos_at b cs p) q'" and "get_NodeKey q' = get_NodeKey q"
    and "\<forall>x \<in> keys q'. agree (pos_at b cs p) x (get_NodeKey q)"
  shows "wf_node nB b (ReplaceTip cs q' p)"
  using assms
proof (induction b cs p rule: pos_at.induct)
  case (2 b c cs bs cl k h l r)
  let ?n = "if c then r else l" and ?b = "Suc (b + bs)"
  have wf': "wf_node nB ?b (ReplaceTip cs q' ?n)" using 2 by (cases c) auto
  have key: "get_NodeKey (ReplaceTip cs q' ?n) = get_NodeKey ?n" using 2 by (intro ReplaceTip_key) (cases c; auto)+
  have wfn: "wf_node nB ?b ?n" "node_at cs ?n = Some q" using 2 by (cases c; auto)+
  have le: "?b \<le> pos_at ?b cs ?n" by (rule pos_at_ge)
  obtain A B where AB: "leaves ?n = A @ leaves q @ B" "leaves (ReplaceTip cs q' ?n) = A @ leaves q' @ B"
    using node_at_leaves [OF wfn(2)] by blast
  have "agree ?b x (get_NodeKey q)" if "x \<in> keys q'" for x
    using bspec [OF "2.prems"(5) that] le by (simp only: pos_at.simps) (rule agree_mono)
  then have new: "x \<in> keys ?n \<or> agree ?b x (get_NodeKey q)" if "x \<in> keys (ReplaceTip cs q' ?n)" for x
    using that AB by auto
  have kq: "get_NodeKey q \<in> keys ?n"
    using NodeKey_in [OF wf_node_at [OF wfn]] keys_node_at [OF wfn(2)] by blast
  have "get_Bit x (b + bs) = c \<and> agree (b + bs) x k" if "x \<in> keys (ReplaceTip cs q' ?n)" for x
  proof -
    have old: "get_Bit y (b + bs) = c \<and> agree (b + bs) y k" if "y \<in> keys ?n" for y
      using that "2.prems"(1) by (cases c) auto
    from new [OF that] show ?thesis
    proof
      assume "agree ?b x (get_NodeKey q)"
      then show ?thesis using old [OF kq] by (auto simp: agree_Suc dest: agree_trans)
    qed (rule old)
  qed
  then show ?case using "2.prems"(1) wf' key by (cases c) auto
qed simp_all

subsection \<open>Invalidation\<close>

lemma set_clean_simps [simp]:
  "leaves (set_clean c n) = leaves n" "get_NodeKey (set_clean c n) = get_NodeKey n" "RadixTree.m_Bits (set_clean c n) = RadixTree.m_Bits n"
  "wf_node nB b (set_clean c n) = wf_node nB b n" "m_Clean (set_clean c n) = c"
  by (cases n; simp add: set_clean_def)+

lemma set_clean_node [simp]:
  "set_clean c (Leaf b cl k d) = Leaf b c k d" "set_clean c (Joint b cl k h l r) = Joint b c k h l r"
  by (simp_all add: set_clean_def)

lemma set_clean_id: "\<not> m_Clean n \<Longrightarrow> set_clean False n = n"
  by (cases n) (simp_all add: set_clean_def)

lemma Invalidate_Joint:
  "Invalidate (c # cs) (Joint b cl k h l r) =
     (let i = Invalidate cs (if c then r else l)
      in (Joint b (cl \<and> \<not> snd i) k h (if c then l else fst i) (if c then fst i else r), snd i \<and> cl))"
  by (cases "Invalidate cs (if c then r else l)") (auto simp: Let_def)

declare Invalidate.simps(2) [simp del]

lemma Invalidate_leaves [simp]: "leaves (fst (Invalidate cs n)) = leaves n"
  by (induction cs n rule: Invalidate.induct) (simp_all add: Invalidate_Joint Let_def split: if_splits)

lemma Invalidate_key [simp]: "get_NodeKey (fst (Invalidate cs n)) = get_NodeKey n"
  by (induction cs n rule: Invalidate.induct) (simp_all add: Invalidate_Joint Let_def split: if_splits)

lemma Invalidate_wf [simp]: "wf_node nB b (fst (Invalidate cs n)) = wf_node nB b n"
proof (induction cs n arbitrary: b rule: Invalidate.induct)
  case (2 c cs b cl k h l r)
  then show ?case by (cases c) (simp_all add: Invalidate_Joint Let_def)
qed simp_all

lemma Invalidate_node_at: "node_at cs (fst (Invalidate cs n)) = map_option (set_clean False) (node_at cs n)"
  by (induction cs n rule: Invalidate.induct) (simp_all add: Invalidate_Joint Let_def set_clean_id split: if_splits)

lemma Invalidate_pos_at: "pos_at b cs (fst (Invalidate cs n)) = pos_at b cs n"
proof (induction cs n arbitrary: b rule: Invalidate.induct)
  case (2 c cs b cl k h l r)
  then show ?case by (cases c) (simp_all add: Invalidate_Joint Let_def)
qed simp_all

subsection \<open>The hash and its cache\<close>

fun rhash :: "('h \<Rightarrow> 'h \<Rightarrow> 'h) \<Rightarrow> (bytes \<Rightarrow> 'd \<Rightarrow> 'h) \<Rightarrow> ('d, 'h) RNode \<Rightarrow> 'h" where
  "rhash hp lh (Leaf b cl k d) = lh k d"
| "rhash hp lh (Joint b cl k h l r) = hp (rhash hp lh l) (rhash hp lh r)"

text \<open>A clean joint holds the hash of its subtree and has clean children.\<close>

fun cache_ok :: "('h \<Rightarrow> 'h \<Rightarrow> 'h) \<Rightarrow> (bytes \<Rightarrow> 'd \<Rightarrow> 'h) \<Rightarrow> ('d, 'h) RNode \<Rightarrow> bool" where
  "cache_ok hp lh (Leaf b cl k d) \<longleftrightarrow> True"
| "cache_ok hp lh (Joint b cl k h l r) \<longleftrightarrow> cache_ok hp lh l \<and> cache_ok hp lh r \<and>
     (cl \<longrightarrow> h = hp (rhash hp lh l) (rhash hp lh r) \<and> m_Clean l \<and> m_Clean r)"

text \<open>No proper ancestor of the node at the end of the path is clean.\<close>

fun dirty_path :: "bool list \<Rightarrow> ('d, 'h) RNode \<Rightarrow> bool" where
  "dirty_path [] n \<longleftrightarrow> True"
| "dirty_path (c # cs) (Joint b cl k h l r) \<longleftrightarrow> \<not> cl \<and> dirty_path cs (if c then r else l)"
| "dirty_path (c # cs) (Leaf b cl k d) \<longleftrightarrow> True"

lemma rhash_set_clean [simp]: "rhash hp lh (set_clean c n) = rhash hp lh n"
  by (cases n) (simp_all add: set_clean_def)

lemma Invalidate_rhash [simp]: "rhash hp lh (fst (Invalidate cs n)) = rhash hp lh n"
  by (induction cs n rule: Invalidate.induct) (simp_all add: Invalidate_Joint Let_def split: if_splits)

lemma cache_set_clean: "cache_ok hp lh n \<Longrightarrow> cache_ok hp lh (set_clean False n)"
  by (cases n) (simp_all add: set_clean_def)

lemma Invalidate_cache:
  "cache_ok hp lh n \<Longrightarrow> node_at cs n \<noteq> None \<Longrightarrow>
     cache_ok hp lh (fst (Invalidate cs n)) \<and> dirty_path cs (fst (Invalidate cs n)) \<and>
     \<not> m_Clean (fst (Invalidate cs n)) \<and> snd (Invalidate cs n) = m_Clean n"
proof (induction cs n rule: Invalidate.induct)
  case (1 n)
  then show ?case by (simp add: cache_set_clean)
next
  case (2 c cs b cl k h l r)
  then show ?case by (cases c) (auto simp: Invalidate_Joint Let_def)
qed simp

lemma ReplaceTip_cache:
  "cache_ok hp lh n \<Longrightarrow> dirty_path cs n \<Longrightarrow> cache_ok hp lh q \<Longrightarrow> cache_ok hp lh (ReplaceTip cs q n)"
  by (induction cs q n rule: ReplaceTip.induct) auto

lemma cache_node_at: "cache_ok hp lh n \<Longrightarrow> node_at cs n = Some q \<Longrightarrow> cache_ok hp lh q"
  by (induction cs n rule: node_at.induct) auto

lemma get_Hash_node_Joint:
  "get_Hash_node hp lh (Joint b cl k h l r) =
     (if cl then (Joint b cl k h l r, h)
      else (Joint b True k (hp (snd (get_Hash_node hp lh l)) (snd (get_Hash_node hp lh r)))
              (fst (get_Hash_node hp lh l)) (fst (get_Hash_node hp lh r)),
            hp (snd (get_Hash_node hp lh l)) (snd (get_Hash_node hp lh r))))"
  by (simp split: prod.splits)

lemma get_Hash_node_pres [simp]:
  "leaves (fst (get_Hash_node hp lh n)) = leaves n"
  "get_NodeKey (fst (get_Hash_node hp lh n)) = get_NodeKey n"
  "wf_node nB b (fst (get_Hash_node hp lh n)) = wf_node nB b n"
  by (induction n arbitrary: b) (auto simp: get_Hash_node_Joint simp del: get_Hash_node.simps(2))

lemma get_Hash_node_spec:
  "cache_ok hp lh n \<Longrightarrow> snd (get_Hash_node hp lh n) = rhash hp lh n \<and> cache_ok hp lh (fst (get_Hash_node hp lh n)) \<and>
     m_Clean (fst (get_Hash_node hp lh n)) \<and> rhash hp lh (fst (get_Hash_node hp lh n)) = rhash hp lh n"
  by (induction n) (auto simp: get_Hash_node_Joint simp del: get_Hash_node.simps(2))

subsection \<open>Correctness of insertion\<close>

definition tree_leaves :: "('d, 'h) Tree \<Rightarrow> (bytes \<times> 'd) list" where
  "tree_leaves t = (case t of None \<Rightarrow> [] | Some p \<Rightarrow> leaves p)"

definition wf_tree :: "nat \<Rightarrow> ('d, 'h) Tree \<Rightarrow> bool" where
  "wf_tree nB t = (case t of None \<Rightarrow> True | Some p \<Rightarrow> wf_node nB 0 p)"

definition tree_cache :: "('h \<Rightarrow> 'h \<Rightarrow> 'h) \<Rightarrow> (bytes \<Rightarrow> 'd \<Rightarrow> 'h) \<Rightarrow> ('d, 'h) Tree \<Rightarrow> bool" where
  "tree_cache hp lh t = (case t of None \<Rightarrow> True | Some p \<Rightarrow> cache_ok hp lh p)"

lemmas tree_simps = tree_leaves_def wf_tree_def tree_cache_def

lemma set_bits_simps [simp]:
  "leaves (set_bits bs n) = leaves n" "get_NodeKey (set_bits bs n) = get_NodeKey n" "rhash hp lh (set_bits bs n) = rhash hp lh n"
  "cache_ok hp lh (set_bits bs n) = cache_ok hp lh n" "RadixTree.m_Bits (set_bits bs n) = bs"
  by (cases n; simp add: set_bits_def)+

lemma set_bits_wf: "wf_node nB b n \<Longrightarrow> b + RadixTree.m_Bits n = b2 + bs \<Longrightarrow> wf_node nB b2 (set_bits bs n)"
  by (cases n) (simp_all add: set_bits_def)

lemma split_node_spec:
  assumes wf: "wf_node nB b p" and cu: "m_nBits cu = b + m_nPosInLastNode cu" "m_nPosInLastNode cu < RadixTree.m_Bits p" "m_nBits cu < nB"
    and ag: "agree (m_nBits cu) (get_NodeKey p) key" "get_Bit key (m_nBits cu) \<noteq> get_Bit (get_NodeKey p) (m_nBits cu)"
  shows "wf_node nB b (split_node key nB d0 cu p) \<and> get_NodeKey (split_node key nB d0 cu p) = get_NodeKey p \<and>
    set (leaves (split_node key nB d0 cu p)) = insert (key, d0) (set (leaves p)) \<and>
    (\<forall>x \<in> keys (split_node key nB d0 cu p). agree b x (get_NodeKey p))"
proof -
  let ?pos = "m_nPosInLastNode cu" and ?nb = "m_nBits cu"
  have all: "agree (Suc ?nb) x (get_NodeKey p)" if "x \<in> keys p" for x
    using wf_agree [OF wf that] cu by (rule_tac agree_mono) auto
  have kp: "get_NodeKey p \<in> keys p" using wf by (rule NodeKey_in)
  have wf': "wf_node nB (Suc ?nb) (set_bits (RadixTree.m_Bits p - (?pos + 1)) p)"
    using wf cu by (intro set_bits_wf) auto
  have bits: "get_Bit x ?nb = (\<not> get_Bit key ?nb)" "agree ?nb x (get_NodeKey p)" if "x \<in> keys p" for x
    using all [OF that] ag(2) by (auto simp: agree_Suc)
  have "wf_node nB b (split_node key nB d0 cu p)"
    using wf' cu bits agree_sym [OF ag(1)] by (auto simp: split_node_def Let_def)
  moreover have "\<forall>x \<in> keys (split_node key nB d0 cu p). agree b x (get_NodeKey p)"
  proof
    fix x assume "x \<in> keys (split_node key nB d0 cu p)"
    then have "x = key \<or> x \<in> keys p" by (auto simp: split_node_def Let_def split: if_splits)
    then have "agree ?nb x (get_NodeKey p)" using bits(2) agree_sym [OF ag(1)] by blast
    then show "agree b x (get_NodeKey p)" using cu(1) by (simp add: agree_mono)
  qed
  ultimately show ?thesis by (auto simp: split_node_def Let_def)
qed

lemma node_at_append: "node_at cs p = Some q \<Longrightarrow> node_at (cs @ ds) (ReplaceTip cs q' p) = node_at ds q'"
  by (induction cs p rule: node_at.induct) auto

lemma Find_insert_node:
  assumes wf: "wf_node nB 0 root" and post: "goto_post nB 0 key root [] cu False cs q"
    and r: "root' = ReplaceTip cs (split_node key nB d0 cu (the (node_at cs (InvalidateElement cs root)))) (InvalidateElement cs root)"
  shows "wf_node nB 0 root' \<and> set (leaves root') = insert (key, d0) (set (leaves root)) \<and>
    (cache_ok hp lh root \<longrightarrow> cache_ok hp lh root') \<and>
    (\<exists>bs cl. node_at (cs @ [get_Bit key (m_nBits cu)]) root' = Some (Leaf bs cl key d0))"
proof -
  let ?root = "InvalidateElement cs root" and ?q = "set_clean False q"
  have q: "node_at cs root = Some q" using post by (simp add: goto_post_def)
  have q1: "node_at cs ?root = Some ?q" using q by (simp add: InvalidateElement_def Invalidate_node_at)
  have p1: "pos_at 0 cs ?root = pos_at 0 cs root" by (simp add: InvalidateElement_def Invalidate_pos_at)
  have wf1: "wf_node nB 0 ?root" using wf by (simp add: InvalidateElement_def)
  have wfq: "wf_node nB (pos_at 0 cs root) ?q" using wf_node_at [OF wf q] by simp
  let ?s = "split_node key nB d0 cu ?q"
  have S: "wf_node nB (pos_at 0 cs root) ?s \<and> get_NodeKey ?s = get_NodeKey ?q \<and>
      set (leaves ?s) = insert (key, d0) (set (leaves ?q)) \<and> (\<forall>x \<in> keys ?s. agree (pos_at 0 cs root) x (get_NodeKey ?q))"
    using post by (intro split_node_spec [OF wfq]) (auto simp: goto_post_def)
  have root': "root' = ReplaceTip cs ?s ?root" by (simp add: r q1)
  have "wf_node nB 0 root'"
    unfolding root' using S p1 by (intro ReplaceTip_wf [OF wf1 q1]) auto
  moreover obtain A B where "leaves ?root = A @ leaves ?q @ B" "leaves root' = A @ leaves ?s @ B"
    using node_at_leaves [OF q1] root' by blast
  then have "set (leaves root') = insert (key, d0) (set (leaves root))"
    using S by (simp add: InvalidateElement_def)
  moreover have "cache_ok hp lh root'" if "cache_ok hp lh root"
  proof -
    have I: "cache_ok hp lh ?root" "dirty_path cs ?root"
      using Invalidate_cache [OF that, of cs] q by (auto simp: InvalidateElement_def)
    have "cache_ok hp lh ?s" using cache_node_at [OF I(1) q1] by (simp add: split_node_def Let_def)
    then show ?thesis unfolding root' using I by (intro ReplaceTip_cache)
  qed
  moreover have "node_at (cs @ [get_Bit key (m_nBits cu)]) root' = node_at [get_Bit key (m_nBits cu)] ?s"
    unfolding root' by (rule node_at_append [OF q1])
  ultimately show ?thesis by (auto simp: split_node_def Let_def)
qed

text \<open>The cursor is at the leaf \<open>(k, d)\<close> of the key.\<close>

definition found_at :: "nat \<Rightarrow> bytes \<Rightarrow> ('d, 'h) Tree \<Rightarrow> Cursor \<Rightarrow> bytes \<Rightarrow> 'd \<Rightarrow> bool" where
  "found_at nB key t cu k d \<longleftrightarrow> agree nB k key \<and>
     (\<exists>path root b cl. m_pp cu = Some path \<and> t = Some root \<and> node_at path root = Some (Leaf b cl k d))"

lemma Find_cases:
  assumes "wf_tree nB t" and "0 < nB"
  obtains
    (old) cu k d where "Find t key nB True d0 = Some (t, cu, True, False)" "found_at nB key t cu k d" "(k, d) \<in> set (tree_leaves t)"
  | (new) t' cu where "Find t key nB True d0 = Some (t', cu, True, True)" "found_at nB key t' cu key d0"
      "wf_tree nB t'" "set (tree_leaves t') = insert (key, d0) (set (tree_leaves t))"
      "\<forall>x \<in> fst ` set (tree_leaves t). \<not> agree nB x key" "tree_cache hp lh t \<longrightarrow> tree_cache hp lh t'"
proof (cases t)
  case None
  show thesis
    by (rule new [of "Some (Leaf nB False key d0)" "\<lparr>m_nBits = nB, m_nPosInLastNode = nB, m_pp = Some []\<rparr>"])
      (use None assms(2) in \<open>auto simp: Find_def Goto_def tree_simps found_at_def\<close>)
next
  case (Some root)
  then have wf: "wf_node nB 0 root" using assms(1) by (simp add: tree_simps)
  obtain cu ok cs q where G: "Goto_node key nB root 0 [] = Some (cu, ok)" "goto_post nB 0 key root [] cu ok cs q"
    using Goto_node_spec [OF wf, of key "[]"] by (auto simp: agree_def)
  show thesis
  proof (cases ok)
    case True
    then obtain b cl k d where q: "m_pp cu = Some cs" "node_at cs root = Some (Leaf b cl k d)" "agree nB k key"
      using G(2) by (auto simp: goto_post_def)
    have "(k, d) \<in> set (leaves root)" using node_at_leaves [OF q(2)] by auto
    then show thesis using Some G True q by (intro old [of cu k d]) (auto simp: Find_def Goto_def tree_leaves_def found_at_def)
  next
    case False
    let ?r = "ReplaceTip cs (split_node key nB d0 cu (the (node_at cs (InvalidateElement cs root)))) (InvalidateElement cs root)"
    let ?cu = "\<lparr>m_nBits = nB, m_nPosInLastNode = nB - (m_nBits cu + 1), m_pp = Some (cs @ [get_Bit key (m_nBits cu)])\<rparr>"
    have post: "goto_post nB 0 key root [] cu False cs q" using G(2) False by simp
    note I = Find_insert_node [OF wf post refl, of d0 hp lh]
    have q: "m_pp cu = Some cs" "node_at cs root = Some q" "\<forall>x \<in> keys root. \<not> agree nB x key"
      using post by (auto simp: goto_post_def)
    have "Find t key nB True d0 = Some (Some ?r, ?cu, True, True)"
      using Some G(1) False q by (simp add: Find_def Goto_def Let_def)
    moreover have "found_at nB key (Some ?r) ?cu key d0" using I by (auto simp: found_at_def)
    ultimately show thesis using I q(3) Some by (intro new [of "Some ?r" ?cu]) (simp_all add: tree_simps)
  qed
qed

subsection \<open>Correctness of deletion\<close>

lemma Rekey_Joint:
  "Rekey dead new (c # cs) (Joint b cl k h l r) =
     (let i = Rekey dead new cs (if c then r else l); k' = (if snd i \<and> k = dead then new else k)
      in (Joint b cl k' h (if c then l else fst i) (if c then fst i else r), snd i \<and> k = dead))"
  by (cases "Rekey dead new cs (if c then r else l)") (auto simp: Let_def)

declare Rekey.simps(2) [simp del]

lemma Rekey_pres:
  "rhash hp lh (fst (Rekey dead new cs n)) = rhash hp lh n \<and> m_Clean (fst (Rekey dead new cs n)) = m_Clean n \<and>
   cache_ok hp lh (fst (Rekey dead new cs n)) = cache_ok hp lh n"
proof (induction dead new cs n rule: Rekey.induct)
  case (2 dead new c cs b cl k h l r)
  then show ?case by (cases c) (auto simp: Rekey_Joint Let_def)
qed auto

lemma Rekey_dirty: "dirty_path cs n \<Longrightarrow> dirty_path cs (fst (Rekey dead new cs n))"
proof (induction dead new cs n rule: Rekey.induct)
  case (2 dead new c cs b cl k h l r)
  then show ?case by (cases c) (auto simp: Rekey_Joint Let_def)
qed auto

lemma Delete_node:
  assumes "wf_node nB b n" and "node_at up n = Some (Joint jb jcl jk jh l r)"
    and "(if c then r else l) = Leaf lb lcl dead d" and "pN = (if c then l else r)"
  defines "n' \<equiv> \<lambda>up n. ReplaceTip up (set_bits (RadixTree.m_Bits pN + (jb + 1)) pN) (fst (Rekey dead (get_NodeKey pN) up n))"
  shows "wf_node nB b (n' up n) \<and> (\<exists>A B. leaves n = A @ [(dead, d)] @ B \<and> leaves (n' up n) = A @ B) \<and>
    get_NodeKey (n' up n) = (if get_NodeKey n = dead then get_NodeKey pN else get_NodeKey n) \<and>
    snd (Rekey dead (get_NodeKey pN) up n) = (get_NodeKey n = dead)"
  using assms(1,2)
proof (induction up n arbitrary: b rule: node_at.induct)
  case (1 n)
  then have n: "n = Joint jb jcl jk jh l r" by simp
  have "wf_node nB (Suc (b + jb)) pN" using 1(1) n assms(4) by auto
  then have "wf_node nB b (n' [] n)" unfolding n'_def by (simp add: n, intro set_bits_wf) auto
  moreover have "\<exists>A B. leaves n = A @ [(dead, d)] @ B \<and> leaves (n' [] n) = A @ B"
  proof (cases c)
    case True
    then show ?thesis using n assms(3,4) by (intro exI [of _ "leaves l"] exI [of _ "[]"]) (simp add: n'_def)
  next
    case False
    then show ?thesis using n assms(3,4) by (intro exI [of _ "[]"] exI [of _ "leaves r"]) (simp add: n'_def)
  qed
  moreover have "jk = dead \<or> jk = get_NodeKey pN" using 1(1) n assms(3,4) by (cases c) auto
  ultimately show ?case by (auto simp: n n'_def)
next
  case (2 e es bs cl k h l0 r0)
  let ?m = "if e then r0 else l0" and ?o = "if e then l0 else r0"
  have IH: "wf_node nB (Suc (b + bs)) (n' es ?m) \<and> (\<exists>A B. leaves ?m = A @ [(dead, d)] @ B \<and> leaves (n' es ?m) = A @ B) \<and>
      get_NodeKey (n' es ?m) = (if get_NodeKey ?m = dead then get_NodeKey pN else get_NodeKey ?m) \<and>
      snd (Rekey dead (get_NodeKey pN) es ?m) = (get_NodeKey ?m = dead)"
    using 2 by (cases e) auto
  then have IHw: "wf_node nB (Suc (b + bs)) (n' es ?m)"
    and IHk: "get_NodeKey (n' es ?m) = (if get_NodeKey ?m = dead then get_NodeKey pN else get_NodeKey ?m)"
    and IHg: "snd (Rekey dead (get_NodeKey pN) es ?m) = (get_NodeKey ?m = dead)" by blast+
  from IH obtain A B where AB: "leaves ?m = A @ [(dead, d)] @ B" "leaves (n' es ?m) = A @ B" by blast
  have sep: "get_Bit x (b + bs) = e" "agree (b + bs) x k" if "x \<in> keys ?m" for x
    using that "2.prems"(1) by (cases e; auto)+
  have sepo: "get_Bit x (b + bs) \<noteq> e" if "x \<in> keys ?o" for x
    using that "2.prems"(1) by (cases e) auto
  have wfo: "wf_node nB (Suc (b + bs)) ?o" "wf_node nB (Suc (b + bs)) ?m" using "2.prems"(1) by auto
  have kk: "k = get_NodeKey ?m \<or> k = get_NodeKey ?o" using "2.prems"(1) by auto
  have dead: "dead \<in> keys ?m" using AB(1) by force
  then have kd: "get_NodeKey ?m = dead" if "k = dead"
    using kk that sep(1) sepo NodeKey_in [OF wfo(1)] by metis
  have pNk: "get_NodeKey pN \<in> keys ?m" if "get_NodeKey ?m = dead"
  proof -
    have "get_NodeKey (n' es ?m) \<in> keys (n' es ?m)" using IHw by (rule NodeKey_in)
    then have "get_NodeKey pN \<in> keys (n' es ?m)" using IHk that by simp
    then show ?thesis unfolding AB by auto
  qed
  define k' where "k' = (if k = dead then get_NodeKey pN else k)"
  have n': "n' (e # es) (Joint bs cl k h l0 r0) = Joint bs cl k' h (if e then l0 else n' es l0) (if e then n' es r0 else r0)"
    using IHg kd unfolding n'_def k'_def by (cases e) (auto simp: Rekey_Joint Let_def)
  have ag: "agree (b + bs) k k'" using sep(2) pNk kd by (auto simp: k'_def agree_sym)
  have "k' = get_NodeKey (n' es ?m) \<or> k' = get_NodeKey ?o" using kk kd unfolding IHk k'_def by metis
  moreover have "agree (b + bs) x k' \<and> get_Bit x (b + bs) = e" if "x \<in> keys (n' es ?m)" for x
  proof -
    have "x \<in> keys ?m" using that unfolding AB by auto
    then show ?thesis using sep ag agree_trans by blast
  qed
  moreover have "agree (b + bs) x k'" if "x \<in> keys ?o" for x
    using that "2.prems"(1) ag by (cases e) (auto intro: agree_trans)
  ultimately have "wf_node nB b (n' (e # es) (Joint bs cl k h l0 r0))"
    unfolding n' using IHw "2.prems"(1) by (cases e) auto
  moreover have "\<exists>A B. leaves (Joint bs cl k h l0 r0) = A @ [(dead, d)] @ B \<and> leaves (n' (e # es) (Joint bs cl k h l0 r0)) = A @ B"
  proof (cases e)
    case True
    then show ?thesis using AB unfolding n' by (intro exI [of _ "leaves l0 @ A"] exI [of _ B]) simp
  next
    case False
    then show ?thesis using AB unfolding n' by (intro exI [of _ A] exI [of _ "B @ leaves r0"]) simp
  qed
  moreover have "get_NodeKey (n' (e # es) (Joint bs cl k h l0 r0)) = (if k = dead then get_NodeKey pN else k)"
    unfolding n' by (simp add: k'_def)
  moreover have "snd (Rekey dead (get_NodeKey pN) (e # es) (Joint bs cl k h l0 r0)) = (k = dead)"
    using IHg kd by (auto simp add: Rekey_Joint Let_def)
  ultimately show ?case by simp
qed simp

lemma node_at_snoc:
  "node_at (up @ [c]) n = Some q \<Longrightarrow> \<exists>b cl k h l r. node_at up n = Some (Joint b cl k h l r) \<and> q = (if c then r else l)"
proof (induction up n rule: node_at.induct)
  case (1 n)
  then show ?case by (cases n) auto
qed auto

lemma dirty_path_append: "dirty_path (cs @ ds) n \<Longrightarrow> dirty_path cs n"
  by (induction cs n rule: dirty_path.induct) auto

lemma wf_distinct_keys: "wf_node nB b n \<Longrightarrow> distinct (map fst (leaves n))"
proof (induction nB b n rule: wf_node.induct)
  case (2 nB b bs cl k h l r)
  have "set (map fst (leaves l)) \<inter> set (map fst (leaves r)) = {}" using "2.prems" by fastforce
  then show ?case using 2 by simp
qed simp

lemma Delete_spec:
  assumes "wf_tree nB t" and "t = Some root" and "node_at path root = Some (Leaf b cl k d)"
  shows "\<exists>t'. Delete t path = Some t' \<and> wf_tree nB t' \<and> set (tree_leaves t') = set (tree_leaves t) - {(k, d)} \<and>
    (tree_cache hp lh t \<longrightarrow> tree_cache hp lh t')"
proof -
  let ?root = "InvalidateElement path root"
  have wf: "wf_node nB 0 root" using assms by (simp add: tree_simps)
  have leaf: "node_at path ?root = Some (Leaf b False k d)"
    using assms(3) by (simp add: InvalidateElement_def Invalidate_node_at)
  have wf1: "wf_node nB 0 ?root" and lv: "leaves ?root = leaves root" using wf by (simp_all add: InvalidateElement_def)
  show ?thesis
  proof (cases path rule: rev_cases)
    case Nil
    then have "root = Leaf b cl k d" using assms(3) by simp
    then show ?thesis using Nil assms leaf by (simp add: Delete_def tree_simps)
  next
    case (snoc up c)
    obtain jb jcl jk jh l r where J: "node_at up ?root = Some (Joint jb jcl jk jh l r)" "(if c then r else l) = Leaf b False k d"
      using node_at_snoc [OF leaf [unfolded snoc]] snoc by metis
    define pN where "pN = (if c then l else r)"
    let ?n = "ReplaceTip up (set_bits (RadixTree.m_Bits pN + (jb + 1)) pN) (fst (Rekey k (get_NodeKey pN) up ?root))"
    have D: "Delete t path = Some (Some ?n)"
      using assms(2) leaf J by (simp add: Delete_def snoc pN_def Let_def)
    note N = Delete_node [OF wf1 J pN_def]
    from N obtain A B where AB: "leaves ?root = A @ [(k, d)] @ B" "leaves ?n = A @ B" by blast
    have "k \<notin> fst ` set (A @ B)" using wf_distinct_keys [OF wf1] unfolding AB by auto
    then have "(k, d) \<notin> set (A @ B)" by (metis fst_conv image_eqI)
    then have "set (leaves ?n) = set (leaves root) - {(k, d)}" using AB lv by auto
    moreover have "cache_ok hp lh ?n" if "cache_ok hp lh root"
    proof -
      have I: "cache_ok hp lh ?root" "dirty_path path ?root"
        using Invalidate_cache [OF that, of path] assms(3) by (auto simp: InvalidateElement_def)
      have "dirty_path up ?root" using I(2) unfolding snoc by (rule dirty_path_append)
      moreover have "cache_ok hp lh pN" using cache_node_at [OF I(1) J(1)] by (simp add: pN_def)
      ultimately show ?thesis using I(1) by (intro ReplaceTip_cache) (simp_all add: Rekey_pres Rekey_dirty)
    qed
    ultimately show ?thesis using D conjunct1 [OF N] assms(2) unfolding tree_simps by auto
  qed
qed

subsection \<open>The hash is a function of the set of leaves\<close>

lemma keys_nonempty: "\<exists>x. x \<in> keys n"
  using leaves_nonempty [of n] by (cases "leaves n") auto

lemma joint_two_keys:
  assumes "wf_node nB b (Joint bs c k h l r)"
  shows "\<exists>x y. x \<in> keys (Joint bs c k h l r) \<and> y \<in> keys (Joint bs c k h l r) \<and> x \<noteq> y"
proof -
  obtain x y where xy: "x \<in> keys l" "y \<in> keys r" using keys_nonempty by metis
  then have "\<not> get_Bit x (b + bs)" "get_Bit y (b + bs)" using assms by auto
  then show ?thesis using xy by (intro exI [of _ x] exI [of _ y]) auto
qed

lemma canonical_bits:
  assumes "wf_node nB b (Joint bs1 c1 k1 h1 l1 r1)" and "wf_node nB b (Joint bs2 c2 k2 h2 l2 r2)"
    and "set (leaves (Joint bs1 c1 k1 h1 l1 r1)) = set (leaves (Joint bs2 c2 k2 h2 l2 r2))"
  shows "\<not> bs1 < bs2"
proof
  assume lt: "bs1 < bs2"
  obtain x y where xy: "x \<in> keys l1" "y \<in> keys r1" using keys_nonempty by metis
  then have "x \<in> keys (Joint bs2 c2 k2 h2 l2 r2)" "y \<in> keys (Joint bs2 c2 k2 h2 l2 r2)" using assms(3) by auto
  then have "agree (b + bs2) x k2" "agree (b + bs2) y k2" using assms(2) by auto
  then have "get_Bit x (b + bs1) = get_Bit y (b + bs1)" using lt by (simp add: agree_def)
  then show False using xy assms(1) by auto
qed

lemma rhash_canonical:
  "wf_node nB b n1 \<Longrightarrow> wf_node nB b n2 \<Longrightarrow> set (leaves n1) = set (leaves n2) \<Longrightarrow> rhash hp lh n1 = rhash hp lh n2"
proof (induction n1 arbitrary: b n2)
  case (Leaf bs1 c1 k1 d1)
  show ?case
  proof (cases n2)
    case (Joint bs2 c2 k2 h2 l2 r2)
    have "set (leaves n2) = {(k1, d1)}" using Leaf.prems(3) by simp
    then have "keys n2 = {k1}" by simp
    then show ?thesis using joint_two_keys [OF Leaf.prems(2) [unfolded Joint], folded Joint] by auto
  qed (use Leaf in auto)
next
  case (Joint bs1 c1 k1 h1 l1 r1)
  show ?case
  proof (cases n2)
    case (Leaf bs2 c2 k2 d2)
    have "keys (Joint bs1 c1 k1 h1 l1 r1) = {k2}" unfolding Joint.prems(3) Leaf by simp
    then show ?thesis using joint_two_keys [OF Joint.prems(1)] by auto
  next
    case J2: (Joint bs2 c2 k2 h2 l2 r2)
    note wf2 = Joint.prems(2) [unfolded J2] and eq = Joint.prems(3) [unfolded J2]
    have bs: "bs1 = bs2"
      using canonical_bits [OF Joint.prems(1) wf2 eq] canonical_bits [OF wf2 Joint.prems(1) eq [symmetric]] by simp
    let ?b = "b + bs1"
    have "set (leaves l1) = {e \<in> set (leaves (Joint bs1 c1 k1 h1 l1 r1)). \<not> get_Bit (fst e) ?b}"
      using Joint.prems(1) by auto
    also have "\<dots> = set (leaves l2)" unfolding eq using wf2 unfolding bs by auto
    finally have L: "set (leaves l1) = set (leaves l2)" .
    have "set (leaves r1) = {e \<in> set (leaves (Joint bs1 c1 k1 h1 l1 r1)). get_Bit (fst e) ?b}"
      using Joint.prems(1) by auto
    also have "\<dots> = set (leaves r2)" unfolding eq using wf2 unfolding bs by auto
    finally have R: "set (leaves r1) = set (leaves r2)" .
    show ?thesis
      using Joint.IH(1) [OF _ _ L, of "Suc ?b"] Joint.IH(2) [OF _ _ R, of "Suc ?b"] Joint.prems(1,2) J2 bs by simp
  qed
qed


subsection \<open>Proofs\<close>

lemma get_Proof_node_Joint:
  "get_Proof_node hp lh (c # cs) (Joint b cl k h l r) =
     (let i = get_Proof_node hp lh cs (if c then r else l); s = get_Hash_node hp lh (if c then l else r)
      in (Joint b cl k h (if c then fst s else fst i) (if c then fst i else fst s), snd i @ [(\<not> c, snd s)]))"
  by (simp add: Let_def split: prod.splits)

declare get_Proof_node.simps(2) [simp del]

lemma get_Proof_node_spec:
  assumes "cache_ok hp lh n" and "node_at cs n = Some q"
  shows "Interpret hp (rhash hp lh q) (snd (get_Proof_node hp lh cs n)) = rhash hp lh n \<and>
    rhash hp lh (fst (get_Proof_node hp lh cs n)) = rhash hp lh n \<and> (m_Clean n \<longrightarrow> m_Clean (fst (get_Proof_node hp lh cs n))) \<and>
    cache_ok hp lh (fst (get_Proof_node hp lh cs n)) \<and> leaves (fst (get_Proof_node hp lh cs n)) = leaves n"
  using assms
proof (induction cs n rule: node_at.induct)
  case (2 c cs b cl k h l r)
  let ?m = "if c then r else l" and ?s = "if c then l else r"
  have s: "snd (get_Hash_node hp lh ?s) = rhash hp lh ?s \<and> cache_ok hp lh (fst (get_Hash_node hp lh ?s)) \<and>
      m_Clean (fst (get_Hash_node hp lh ?s)) \<and> rhash hp lh (fst (get_Hash_node hp lh ?s)) = rhash hp lh ?s"
    using "2.prems" by (intro get_Hash_node_spec) auto
  have i: "Interpret hp (rhash hp lh q) (snd (get_Proof_node hp lh cs ?m)) = rhash hp lh ?m \<and>
      rhash hp lh (fst (get_Proof_node hp lh cs ?m)) = rhash hp lh ?m \<and> (m_Clean ?m \<longrightarrow> m_Clean (fst (get_Proof_node hp lh cs ?m))) \<and>
      cache_ok hp lh (fst (get_Proof_node hp lh cs ?m)) \<and> leaves (fst (get_Proof_node hp lh cs ?m)) = leaves ?m"
    using 2 by (cases c) auto
  show ?case using s i "2.prems"
    by (cases c) (auto simp: get_Proof_node_Joint Let_def Interpret_append Interpret_node_def Interpret_new_def Interpret_pair_def)
qed simp_all

subsection \<open>Traversal\<close>

text \<open>The sign of the comparison of all bits from \<open>b\<close> on, and what being within bounds means.\<close>

definition in_bounds :: "nat \<Rightarrow> nat \<Rightarrow> bytes option \<times> bytes option \<Rightarrow> bytes \<Rightarrow> bool" where
  "in_bounds nB b bnd k \<longleftrightarrow>
     (\<forall>B. fst bnd = Some B \<longrightarrow> 0 \<le> Cmp_bits k B b (nB - b)) \<and>
     (\<forall>B. snd bnd = Some B \<longrightarrow> Cmp_bits k B b (nB - b) \<le> 0)"

lemma Cmp_bits_split: "Cmp_bits k B b (m + n) = (if Cmp_bits k B b m \<noteq> 0 then Cmp_bits k B b m else Cmp_bits k B (b + m) n)"
  by (induction m arbitrary: b) (simp_all add: Let_def)

lemma Cmp_bits_agree: "(\<And>i. b \<le> i \<Longrightarrow> i < b + n \<Longrightarrow> get_Bit x i = get_Bit y i) \<Longrightarrow> Cmp_bits x B b n = Cmp_bits y B b n"
proof (induction n arbitrary: b)
  case (Suc n)
  have "get_Bit x b = get_Bit y b" using Suc.prems [of b] by simp
  moreover have "Cmp_bits x B (Suc b) n = Cmp_bits y B (Suc b) n" using Suc.prems by (intro Suc.IH) auto
  ultimately show ?case by (simp add: Let_def)
qed simp

text \<open>One check of both bounds over the next \<open>m\<close> bits decides, or leaves the bounds for the rest.\<close>

lemma check_bounds_spec:
  assumes "\<And>B. cmp B = Cmp_bits k B b m" and "b + m \<le> nB"
  shows "case check_bounds cmp bnd of None \<Rightarrow> \<not> in_bounds nB b bnd k
    | Some bnd' \<Rightarrow> in_bounds nB b bnd k = in_bounds nB (b + m) bnd' k"
proof -
  obtain lo hi where bnd: "bnd = (lo, hi)" by (cases bnd)
  have S: "Cmp_bits k B b (nB - b) = (if Cmp_bits k B b m \<noteq> 0 then Cmp_bits k B b m else Cmp_bits k B (b + m) (nB - (b + m)))" for B
    using Cmp_bits_split [of k B b m "nB - (b + m)"] assms(2) by simp
  show ?thesis
    by (cases lo; cases hi) (auto simp: bnd check_bounds_def check_bound_def in_bounds_def assms(1) S Let_def)
qed

text \<open>The number that \<open>n\<close> bits of a key stand for, the first the most significant.\<close>

fun bval :: "bytes \<Rightarrow> nat \<Rightarrow> nat \<Rightarrow> nat" where
  "bval k b 0 = 0"
| "bval k b (Suc n) = (if get_Bit k b then 2 ^ n else 0) + bval k (Suc b) n"

lemma bval_less: "bval k b n < 2 ^ n"
proof (induction n arbitrary: b)
  case (Suc n)
  from Suc [of "Suc b"] show ?case by (cases "get_Bit k b"; simp; linarith)
qed simp

lemma sgn_nat_diff: "sgn (int a - int b) = (if a < b then - 1 else if b < a then 1 else 0)"
  by (auto simp: sgn_if)

lemma Cmp_bits_sgn: "Cmp_bits k B b n = sgn (int (bval k b n) - int (bval B b n))"
proof (induction n arbitrary: b)
  case (Suc n)
  from bval_less [of k "Suc b" n] bval_less [of B "Suc b" n] Suc [of "Suc b", unfolded sgn_nat_diff]
  show ?case unfolding sgn_nat_diff by (auto simp: cmp_bit_def Let_def)
qed simp

lemma bval_split: "bval k b (m + n) = bval k b m * 2 ^ n + bval k (b + m) n"
  by (induction m arbitrary: b) (simp_all add: power_add algebra_simps)

lemma bval_agree: "(\<And>i. b \<le> i \<Longrightarrow> i < b + n \<Longrightarrow> get_Bit x i = get_Bit y i) \<Longrightarrow> bval x b n = bval y b n"
proof (induction n arbitrary: b)
  case (Suc n)
  have "bval x (Suc b) n = bval y (Suc b) n" using Suc.prems by (intro Suc.IH) auto
  then show ?case using Suc.prems [of b] by simp
qed simp

lemma leaves_sorted:
  "wf_node nB b n \<Longrightarrow> sorted_wrt (\<lambda>x y. bval (fst x) b (nB - b) < bval (fst y) b (nB - b)) (leaves n)"
proof (induction n arbitrary: b)
  case (Joint bs cl k h l r)
  let ?b = "b + bs" and ?n = "nB - Suc (b + bs)"
  have "b + bs < nB" using Joint.prems by simp
  then have n: "nB - b = bs + Suc ?n" by simp
  have S: "bval x b (nB - b) = bval k b bs * 2 ^ Suc ?n + bval x ?b (Suc ?n)" if "x \<in> keys (Joint bs cl k h l r)" for x
  proof -
    have "agree ?b x k" using that Joint.prems by auto
    then have "bval x b bs = bval k b bs" by (intro bval_agree) (simp add: agree_def)
    then show ?thesis unfolding n by (simp only: bval_split)
  qed
  have T: "bval x b (nB - b) = bval k b bs * 2 ^ Suc ?n + (if c then 2 ^ ?n else 0) + bval x (Suc ?b) ?n"
    if "x \<in> keys (if c then r else l)" for x c
  proof -
    have "x \<in> keys (Joint bs cl k h l r)" using that by (cases c) auto
    moreover have "get_Bit x ?b = c" using that Joint.prems by (cases c) auto
    ultimately show ?thesis using S [of x] by (simp only: bval.simps add.assoc)
  qed
  have L: "sorted_wrt (\<lambda>x y. bval (fst x) b (nB - b) < bval (fst y) b (nB - b)) (leaves (if c then r else l))" for c
  proof (rule sorted_wrt_mono_rel)
    show "sorted_wrt (\<lambda>x y. bval (fst x) (Suc ?b) ?n < bval (fst y) (Suc ?b) ?n) (leaves (if c then r else l))"
      using Joint.IH Joint.prems by (cases c) auto
  qed (simp add: T [of _ c])
  have "bval (fst x) b (nB - b) < bval (fst y) b (nB - b)" if "x \<in> set (leaves l)" "y \<in> set (leaves r)" for x y
    using that T [of "fst x" False] T [of "fst y" True] bval_less [of "fst x" "Suc ?b" ?n] by simp
  then show ?case using L [of False] L [of True] by (simp add: sorted_wrt_append)
qed simp

text \<open>Iteration over a list with an early stop.\<close>

fun iter :: "('p \<Rightarrow> bytes \<Rightarrow> 'd \<Rightarrow> 's \<Rightarrow> 's \<times> bool) \<Rightarrow> ('p \<times> bytes \<times> 'd) list \<Rightarrow> 's \<Rightarrow> 's \<times> bool" where
  "iter f [] st = (st, True)"
| "iter f ((p, k, d) # xs) st = (case f p k d st of (st1, go) \<Rightarrow> if \<not> go then (st1, False) else iter f xs st1)"

text \<open>The leaves in order, with their paths.\<close>

fun pleaves :: "bool list \<Rightarrow> ('d, 'h) RNode \<Rightarrow> (bool list \<times> bytes \<times> 'd) list" where
  "pleaves pp (Leaf b cl k d) = [(pp, k, d)]"
| "pleaves pp (Joint b cl k h l r) = pleaves (pp @ [False]) l @ pleaves (pp @ [True]) r"

lemma snd_pleaves [simp]: "map snd (pleaves pp n) = leaves n"
  by (induction n arbitrary: pp) auto

lemma key_pleaves: "x \<in> set (pleaves pp n) \<Longrightarrow> fst (snd x) \<in> keys n"
proof -
  assume "x \<in> set (pleaves pp n)"
  then have "snd x \<in> set (map snd (pleaves pp n))" by (metis image_eqI list.set_map)
  then show ?thesis by simp
qed

lemma node_at_pleaves: "(q, k, d) \<in> set (pleaves pp n) \<Longrightarrow> \<exists>p b cl. q = pp @ p \<and> node_at p n = Some (Leaf b cl k d)"
proof (induction n arbitrary: pp)
  case (Joint b cl kp h l r)
  then consider "(q, k, d) \<in> set (pleaves (pp @ [False]) l)" | "(q, k, d) \<in> set (pleaves (pp @ [True]) r)" by auto
  then show ?case
  proof cases
    case 1
    from Joint.IH(1) [OF this] obtain p b' cl' where "q = (pp @ [False]) @ p" "node_at p l = Some (Leaf b' cl' k d)" by blast
    then show ?thesis by (intro exI [of _ "False # p"] exI [of _ b'] exI [of _ cl']) simp
  next
    case 2
    from Joint.IH(2) [OF this] obtain p b' cl' where "q = (pp @ [True]) @ p" "node_at p r = Some (Leaf b' cl' k d)" by blast
    then show ?thesis by (intro exI [of _ "True # p"] exI [of _ b'] exI [of _ cl']) simp
  qed
qed auto

lemma iter_append:
  "iter f (xs @ ys) st = (case iter f xs st of (st1, go) \<Rightarrow> if \<not> go then (st1, False) else iter f ys st1)"
  by (induction f xs st rule: iter.induct) (auto split: prod.splits)

lemma case_option_ball:
  "(\<And>x. x \<in> X \<Longrightarrow> case c of None \<Rightarrow> P x | Some y \<Rightarrow> Q y x) \<Longrightarrow>
     case c of None \<Rightarrow> \<forall>x \<in> X. P x | Some y \<Rightarrow> \<forall>x \<in> X. Q y x"
  by (cases c) auto

lemma check_bounds_node:
  assumes "wf_node nB b n"
  shows "case (if RadixTree.m_Bits n \<noteq> 0 then check_bounds (\<lambda>B. Cmp_bits (get_NodeKey n) B b (RadixTree.m_Bits n)) bnd else Some bnd) of
      None \<Rightarrow> \<forall>x \<in> keys n. \<not> in_bounds nB b bnd x
    | Some bnd' \<Rightarrow> \<forall>x \<in> keys n. in_bounds nB b bnd x = in_bounds nB (b + RadixTree.m_Bits n) bnd' x"
proof (cases "RadixTree.m_Bits n = 0")
  case False
  let ?m = "RadixTree.m_Bits n"
  have "case check_bounds (\<lambda>B. Cmp_bits (get_NodeKey n) B b ?m) bnd of None \<Rightarrow> \<not> in_bounds nB b bnd x
      | Some bnd' \<Rightarrow> in_bounds nB b bnd x = in_bounds nB (b + ?m) bnd' x" if "x \<in> keys n" for x
  proof (rule check_bounds_spec)
    show "Cmp_bits (get_NodeKey n) B b ?m = Cmp_bits x B b ?m" for B
      using wf_agree [OF assms that] by (intro Cmp_bits_agree) (simp add: agree_def)
  qed (rule wf_bits [OF assms])
  then show ?thesis using False by (simp only: if_True not_False_eq_True) (rule case_option_ball)
qed simp

lemma check_bounds_branch:
  assumes "\<forall>x \<in> X. get_Bit x b = c" and "b < nB"
  shows "case check_bounds (\<lambda>B. Cmp1 c B b) bnd of
      None \<Rightarrow> \<forall>x \<in> X. \<not> in_bounds nB b bnd x
    | Some bnd' \<Rightarrow> \<forall>x \<in> X. in_bounds nB b bnd x = in_bounds nB (Suc b) bnd' x"
proof -
  have "case check_bounds (\<lambda>B. Cmp1 c B b) bnd of None \<Rightarrow> \<not> in_bounds nB b bnd x
      | Some bnd' \<Rightarrow> in_bounds nB b bnd x = in_bounds nB (b + 1) bnd' x" if "x \<in> X" for x
    using that assms by (intro check_bounds_spec) (auto simp: Cmp1_def Let_def)
  then show ?thesis unfolding Suc_eq_plus1 by (rule case_option_ball)
qed

lemma Traverse_node_spec:
  "wf_node nB b n \<Longrightarrow> Traverse_node f pp n b bnd st = iter f (filter (\<lambda>x. in_bounds nB b bnd (fst (snd x))) (pleaves pp n)) st"
proof (induction n arbitrary: pp b bnd st)
  case (Leaf bs cl k d)
  then show ?case using check_bounds_node [OF Leaf.prems, of bnd]
    by (auto simp: in_bounds_def split: option.splits if_splits prod.splits)
next
  case (Joint bs cl k h l r)
  let ?b = "b + bs" and ?J = "Joint bs cl k h l r"
  let ?in = "\<lambda>b (bnd :: bytes option \<times> bytes option). filter (\<lambda>x :: bool list \<times> bytes \<times> _. in_bounds nB b bnd (fst (snd x)))"
  define c0 where "c0 = (if bs \<noteq> 0 then check_bounds (\<lambda>B. Cmp_bits k B b bs) bnd else Some bnd)"
  have C0: "case c0 of None \<Rightarrow> \<forall>x \<in> keys ?J. \<not> in_bounds nB b bnd x
      | Some bnd' \<Rightarrow> \<forall>x \<in> keys ?J. in_bounds nB b bnd x = in_bounds nB ?b bnd' x"
    using check_bounds_node [OF Joint.prems, of bnd] unfolding c0_def RNode.sel get_NodeKey_simps .
  have sub: "(case check_bounds (\<lambda>B. Cmp1 c B ?b) bb of None \<Rightarrow> (s, True) | Some bl \<Rightarrow> Traverse_node f (pp @ [c]) m (Suc ?b) bl s)
      = iter f (?in ?b bb (pleaves (pp @ [c]) m)) s"
    if "m = (if c then r else l)" for c m s and bb :: "bytes option \<times> bytes option"
  proof -
    have "\<forall>x \<in> keys m. get_Bit x ?b = c" "?b < nB" "wf_node nB (Suc ?b) m" using that Joint.prems by (cases c; auto)+
    note B = check_bounds_branch [OF this(1,2), of bb] and w = this(3)
    have IH: "Traverse_node f (pp @ [c]) m (Suc ?b) bl s = iter f (?in (Suc ?b) bl (pleaves (pp @ [c]) m)) s" for bl
      using that Joint.IH w by (cases c) auto
    show ?thesis
    proof (cases "check_bounds (\<lambda>B. Cmp1 c B ?b) bb")
      case None
      then have "?in ?b bb (pleaves (pp @ [c]) m) = []" using B by (auto simp only: filter_empty_conv option.case dest: key_pleaves)
      then show ?thesis by (simp add: None)
    next
      case (Some bl)
      then have "?in ?b bb (pleaves (pp @ [c]) m) = ?in (Suc ?b) bl (pleaves (pp @ [c]) m)"
        using B by (intro filter_cong) (auto simp only: option.case dest: key_pleaves)
      then show ?thesis by (simp only: Some option.case IH)
    qed
  qed
  show ?case
  proof (cases c0)
    case None
    then have "?in b bnd (pleaves pp ?J) = []" using C0 by (auto simp only: filter_empty_conv option.case dest: key_pleaves)
    then show ?thesis using None by (simp add: c0_def)
  next
    case (Some bnd1)
    then have "?in b bnd (pleaves pp ?J) = ?in ?b bnd1 (pleaves pp ?J)"
      using C0 by (intro filter_cong) (auto simp only: option.case dest: key_pleaves)
    then have "iter f (?in b bnd (pleaves pp ?J)) st = (case iter f (?in ?b bnd1 (pleaves (pp @ [False]) l)) st of (st1, go) \<Rightarrow>
        if \<not> go then (st1, False) else iter f (?in ?b bnd1 (pleaves (pp @ [True]) r)) st1)"
      by (simp add: iter_append)
    then show ?thesis using Some
      by (simp only: Traverse_node.simps c0_def [symmetric] option.case sub [of l False, simplified] sub [of r True, simplified])
  qed
qed

subsection \<open>The tree as an authenticated set\<close>

lemma Goto_tree:
  assumes "wf_tree nB t" and "0 < nB"
  shows "(\<exists>cu k d. Goto t key nB = Some (cu, True) \<and> found_at nB key t cu k d \<and> (k, d) \<in> set (tree_leaves t)) \<or>
    (\<exists>cu. Goto t key nB = Some (cu, False) \<and> (\<forall>x \<in> fst ` set (tree_leaves t). \<not> agree nB x key))"
proof (cases t)
  case None
  then show ?thesis using assms(2) by (simp add: Goto_def tree_simps)
next
  case (Some root)
  then have wf: "wf_node nB 0 root" using assms(1) by (simp add: tree_simps)
  obtain cu ok cs q where G: "Goto_node key nB root 0 [] = Some (cu, ok)" "goto_post nB 0 key root [] cu ok cs q"
    using Goto_node_spec [OF wf, of key "[]"] by (auto simp: agree_def)
  show ?thesis
  proof (cases ok)
    case True
    then obtain b cl k d where q: "m_pp cu = Some cs" "node_at cs root = Some (Leaf b cl k d)" "agree nB k key"
      using G(2) by (auto simp: goto_post_def)
    have "(k, d) \<in> set (leaves root)" using node_at_leaves [OF q(2)] by auto
    then show ?thesis using Some G True q by (auto simp: Goto_def tree_leaves_def found_at_def)
  next
    case False
    then show ?thesis using Some G by (auto simp: Goto_def tree_leaves_def goto_post_def)
  qed
qed

text \<open>The operations the way the node uses them: \<open>Find\<close> with creation, and \<open>Find\<close> followed by \<open>Delete\<close>.\<close>

definition tree_add :: "nat \<Rightarrow> bytes \<Rightarrow> 'd \<Rightarrow> ('d, 'h::zero) Tree \<Rightarrow> ('d, 'h) Tree" where
  "tree_add nB k d t = (case Find t k nB True d of Some (t', _) \<Rightarrow> t' | None \<Rightarrow> t)"

definition tree_del :: "nat \<Rightarrow> bytes \<Rightarrow> 'd \<Rightarrow> ('d, 'h::zero) Tree \<Rightarrow> ('d, 'h) Tree" where
  "tree_del nB k d t =
     (case Find t k nB False d of
        Some (t', cu, True, _) \<Rightarrow> (case Delete t' (the (m_pp cu)) of Some t'' \<Rightarrow> t'' | None \<Rightarrow> t)
      | _ \<Rightarrow> t)"

definition tree_inv :: "('h \<Rightarrow> 'h \<Rightarrow> 'h) \<Rightarrow> (bytes \<Rightarrow> 'd \<Rightarrow> 'h) \<Rightarrow> nat \<Rightarrow> ('d, 'h) Tree \<Rightarrow> bool" where
  "tree_inv hp lh nB t \<longleftrightarrow> 0 < nB \<and> wf_tree nB t \<and> tree_cache hp lh t"

abbreviation elems :: "('d, 'h) Tree \<Rightarrow> (bytes \<times> 'd) set" where
  "elems t \<equiv> set (tree_leaves t)"

definition fresh :: "nat \<Rightarrow> bytes \<Rightarrow> (bytes \<times> 'd) set \<Rightarrow> bool" where
  "fresh nB k E \<longleftrightarrow> (\<forall>x \<in> fst ` E. \<not> agree nB x k)"

lemma fresh_notin_elems: "fresh nB k E \<Longrightarrow> (k, d) \<notin> E"
  by (force simp: fresh_def)

lemma Find_fresh:
  assumes "tree_inv hp lh nB t" and "fresh nB key (elems t)"
  shows "\<exists>t' cu. Find t key nB True d0 = Some (t', cu, True, True) \<and> tree_inv hp lh nB t' \<and>
    elems t' = insert (key, d0) (elems t) \<and> found_at nB key t' cu key d0"
proof -
  have A: "wf_tree nB t" "0 < nB" "tree_cache hp lh t" using assms(1) by (auto simp: tree_inv_def)
  show ?thesis
  proof (rule Find_cases [OF A(1,2), of key d0 _ hp lh])
    fix cu k d assume "found_at nB key t cu k d" "(k, d) \<in> elems t"
    then show ?thesis using assms(2) by (force simp: fresh_def found_at_def)
  qed (use A in \<open>auto simp: tree_inv_def\<close>)
qed

lemma tree_add_spec:
  assumes "tree_inv hp lh nB t" and "fresh nB k (elems t)"
  shows "tree_inv hp lh nB (tree_add nB k d t) \<and> elems (tree_add nB k d t) = insert (k, d) (elems t)"
proof -
  from Find_fresh [OF assms, of d] obtain t' cu where "Find t k nB True d = Some (t', cu, True, True)" "tree_inv hp lh nB t'"
    "elems t' = insert (k, d) (elems t)" by blast
  then show ?thesis by (simp add: tree_add_def)
qed

lemma tree_del_spec:
  assumes "tree_inv hp lh nB t" and "(k, d) \<in> elems t"
  shows "tree_inv hp lh nB (tree_del nB k d0 t) \<and> elems (tree_del nB k d0 t) = elems t - {(k, d)}"
proof -
  have A: "wf_tree nB t" "0 < nB" "tree_cache hp lh t" using assms(1) by (auto simp: tree_inv_def)
  from Goto_tree [OF A(1,2), of k] assms(2) obtain cu k' d' where
    G: "Goto t k nB = Some (cu, True)" "found_at nB k t cu k' d'" "(k', d') \<in> elems t" by force
  from G(2) obtain path root b cl where P: "agree nB k' k" "m_pp cu = Some path" "t = Some root"
    "node_at path root = Some (Leaf b cl k' d')" by (auto simp: found_at_def)
  have "k' = k \<and> d' = d"
    using wf_distinct [of nB 0 root k' d' k d] A(1) P(1,3) G(3) assms(2) by (simp add: tree_simps)
  moreover obtain t' where "Delete t path = Some t'" "wf_tree nB t'" "elems t' = elems t - {(k', d')}"
      "tree_cache hp lh t \<longrightarrow> tree_cache hp lh t'"
    using Delete_spec [OF A(1) P(3,4)] by blast
  ultimately show ?thesis using A G(1) P(2) by (simp add: tree_del_def Find_def tree_inv_def)
qed

text \<open>What \<open>get_Hash\<close> returns.\<close>

definition root_hash :: "('h::zero \<Rightarrow> 'h \<Rightarrow> 'h) \<Rightarrow> (bytes \<Rightarrow> 'd \<Rightarrow> 'h) \<Rightarrow> ('d, 'h) Tree \<Rightarrow> 'h" where
  "root_hash hp lh t = snd (RadixTree.get_Hash hp lh t)"

lemma get_Hash_spec:
  assumes "tree_inv hp lh nB t"
  shows "tree_inv hp lh nB (fst (RadixTree.get_Hash hp lh t)) \<and> elems (fst (RadixTree.get_Hash hp lh t)) = elems t \<and>
    root_hash hp lh t = (case t of None \<Rightarrow> 0 | Some n \<Rightarrow> rhash hp lh n)"
proof (cases t)
  case (Some n)
  have "fst (RadixTree.get_Hash hp lh t) = Some (fst (get_Hash_node hp lh n))" "root_hash hp lh t = snd (get_Hash_node hp lh n)"
    by (simp_all add: Some RadixTree.get_Hash_def root_hash_def split: prod.splits)
  then show ?thesis using assms Some get_Hash_node_spec [of hp lh n] by (simp add: tree_inv_def tree_simps)
qed (use assms in \<open>simp add: RadixTree.get_Hash_def root_hash_def\<close>)

lemma root_hash_canonical:
  assumes "tree_inv hp lh nB t" and "tree_inv hp lh nB u" and "elems t = elems u"
  shows "root_hash hp lh t = root_hash hp lh u"
proof (cases t; cases u)
  fix n m assume "t = Some n" "u = Some m"
  then show ?thesis using assms get_Hash_spec [OF assms(1)] get_Hash_spec [OF assms(2)] rhash_canonical [of nB 0 n m hp lh]
    by (simp add: tree_inv_def tree_simps)
qed (use assms(3) in \<open>auto simp: tree_simps\<close>)

text \<open>A change of a set of elements: an addition or a deletion, and the change that undoes it.\<close>

definition change :: "('k \<Rightarrow> 'd \<Rightarrow> 't \<Rightarrow> 't) \<Rightarrow> ('k \<Rightarrow> 'd \<Rightarrow> 't \<Rightarrow> 't) \<Rightarrow> bool \<times> 'k \<times> 'd \<Rightarrow> 't \<Rightarrow> 't" where
  "change add del c t = (case c of (b, k, d) \<Rightarrow> if b then add k d t else del k d t)"

definition undo :: "bool \<times> 'k \<times> 'd \<Rightarrow> bool \<times> 'k \<times> 'd" where
  "undo c = (\<not> fst c, snd c)"

text \<open>Each addition in a sequence of changes is of a fresh key, and each deletion of a present element.\<close>

fun changes_ok ::
    "('t \<Rightarrow> ('k \<times> 'd) set) \<Rightarrow> ('k \<Rightarrow> ('k \<times> 'd) set \<Rightarrow> bool) \<Rightarrow> ('k \<Rightarrow> 'd \<Rightarrow> 't \<Rightarrow> 't) \<Rightarrow> ('k \<Rightarrow> 'd \<Rightarrow> 't \<Rightarrow> 't) \<Rightarrow>
      (bool \<times> 'k \<times> 'd) list \<Rightarrow> 't \<Rightarrow> bool" where
  "changes_ok els is_fresh add del [] t \<longleftrightarrow> True"
| "changes_ok els is_fresh add del ((b, k, d) # cs) t \<longleftrightarrow>
     (if b then is_fresh k (els t) else (k, d) \<in> els t \<and> is_fresh k (els t - {(k, d)})) \<and>
     changes_ok els is_fresh add del cs (change add del (b, k, d) t)"

text \<open>
  The contract of an authenticated set: additions and deletions act on the set of elements, and the
  root commits to that set only.
\<close>

locale auth_set =
  fixes inv :: "'t \<Rightarrow> bool" and els :: "'t \<Rightarrow> ('k \<times> 'd) set" and is_fresh :: "'k \<Rightarrow> ('k \<times> 'd) set \<Rightarrow> bool"
    and add :: "'k \<Rightarrow> 'd \<Rightarrow> 't \<Rightarrow> 't" and del :: "'k \<Rightarrow> 'd \<Rightarrow> 't \<Rightarrow> 't" and root :: "'t \<Rightarrow> 'r"
  assumes add_inv: "inv t \<Longrightarrow> is_fresh k (els t) \<Longrightarrow> inv (add k d t)"
    and add_els: "inv t \<Longrightarrow> is_fresh k (els t) \<Longrightarrow> els (add k d t) = insert (k, d) (els t)"
    and del_inv: "inv t \<Longrightarrow> (k, d) \<in> els t \<Longrightarrow> inv (del k d t)"
    and del_els: "inv t \<Longrightarrow> (k, d) \<in> els t \<Longrightarrow> els (del k d t) = els t - {(k, d)}"
    and fresh_notin: "is_fresh k E \<Longrightarrow> (k, d) \<notin> E"
    and root_els: "inv t \<Longrightarrow> inv u \<Longrightarrow> els t = els u \<Longrightarrow> root t = root u"
begin

abbreviation chg :: "bool \<times> 'k \<times> 'd \<Rightarrow> 't \<Rightarrow> 't" where "chg \<equiv> change add del"

abbreviation ok :: "(bool \<times> 'k \<times> 'd) list \<Rightarrow> 't \<Rightarrow> bool" where "ok \<equiv> changes_ok els is_fresh add del"

lemma change_undo:
  "inv t \<Longrightarrow> ok [c] t \<Longrightarrow> inv (chg c t) \<and> inv (chg (undo c) (chg c t)) \<and> els (chg (undo c) (chg c t)) = els t"
  by (cases c) (auto simp: change_def undo_def add_inv add_els del_inv del_els fresh_notin)

lemma change_cong: "inv t \<Longrightarrow> inv u \<Longrightarrow> els t = els u \<Longrightarrow> ok [c] t \<Longrightarrow> inv (chg c u) \<and> els (chg c t) = els (chg c u)"
  by (cases c) (auto simp: change_def add_inv add_els del_inv del_els)

lemma rollback_els:
  assumes "inv t" and "ok cs t"
  shows "inv (fold chg cs t) \<and> inv (fold chg (map undo (rev cs)) (fold chg cs t)) \<and>
    els (fold chg (map undo (rev cs)) (fold chg cs t)) = els t"
  using assms
proof (induction cs arbitrary: t)
  case (Cons c cs)
  have c: "ok [c] t" "ok cs (chg c t)" using Cons.prems(2) by (cases c; auto)+
  let ?u = "fold chg (map undo (rev cs)) (fold chg cs (chg c t))"
  note U = change_undo [OF Cons.prems(1) c(1)]
  then have IH: "inv (fold chg cs (chg c t)) \<and> inv ?u \<and> els ?u = els (chg c t)" using Cons.IH c(2) by blast
  have "ok [undo c] (chg c t)"
    using Cons.prems(1) c(1) by (cases c) (auto simp: change_def undo_def add_els del_els fresh_notin insert_Diff_if)
  then have "inv (chg (undo c) ?u) \<and> els (chg (undo c) (chg c t)) = els (chg (undo c) ?u)"
    using change_cong [of "chg c t" ?u "undo c"] U IH by simp
  then show ?case using IH U by simp
qed simp

lemma rollback: "inv t \<Longrightarrow> ok cs t \<Longrightarrow> root (fold chg (map undo (rev cs)) (fold chg cs t)) = root t"
  using rollback_els root_els by blast

end

interpretation radix: auth_set "tree_inv hp lh nB" elems "fresh nB" "tree_add nB" "tree_del nB" "root_hash hp lh" for hp lh nB
proof (unfold_locales, goal_cases)
  case (1 t k d) from tree_add_spec [OF this] show ?case by (rule conjunct1)
next
  case (2 t k d) from tree_add_spec [OF this] show ?case by (rule conjunct2)
next
  case (3 t k d) from tree_del_spec [OF this] show ?case by (rule conjunct1)
next
  case (4 t k d) from tree_del_spec [OF this] show ?case by (rule conjunct2)
next
  case (5 k E d) then show ?case by (rule fresh_notin_elems)
next
  case (6 t u) then show ?case by (rule root_hash_canonical)
qed

subsection \<open>Properties\<close>

lemma get_Bits_take: "get_Bits w = take_bit 13 w"
proof -
  have "NOT (s_Clean OR s_Leaf OR s_User) = (mask 13 :: u16)"
    unfolding word_unat_eq_iff by (simp add: s_Clean_def s_Leaf_def s_User_def mask_eq_exp_minus_1)
  then show ?thesis by (simp only: get_Bits_def take_bit_eq_mask)
qed

lemma get_Bits_flags:
  assumes "unat n < 2 ^ 13" and "f1 \<in> {0, s_Clean}" "f2 \<in> {0, s_Leaf}" "f3 \<in> {0, s_User}"
  shows "get_Bits (n OR f1 OR f2 OR f3) = n"
proof -
  have "take_bit 13 n = n" using assms(1) by (simp add: word_unat_eq_iff unsigned_take_bit_eq take_bit_nat_eq_self)
  moreover have "take_bit 13 f1 = 0" "take_bit 13 f2 = 0" "take_bit 13 f3 = 0"
    using assms(2-4) by (auto simp: s_Clean_def s_Leaf_def s_User_def)
  ultimately show ?thesis by (simp add: get_Bits_take take_bit_or)
qed

text \<open>
  A tree of two keys of 8 bits that differ in their first bit, used as the concrete instance of the
  properties below.
\<close>

definition tree2 :: "(nat, nat) Tree" where
  "tree2 = Some (Joint 0 False [0] 0 (Leaf 7 False [0] 10) (Leaf 7 False [0x80] 20))"

lemma tree2_bits: "\<not> get_Bit [0] 0" "get_Bit [0x80] 0" "\<not> get_Bit [0x40] 0" "get_Bit [0x40] 1" "\<not> get_Bit [0x80] 1" "\<not> get_Bit [0] 1"
  by (simp_all add: get_Bit_def get_BitRawStat_def)

lemma tree2_inv: "tree_inv (\<lambda>a b. 2 * a + 3 * b) (\<lambda>k d. d) 8 tree2"
  using tree2_bits by (simp add: tree_inv_def tree_simps tree2_def agree_def)

lemma tree2_elems: "elems tree2 = {([0], 10), ([0x80], 20)}"
  by (simp add: tree2_def tree_simps)

text \<open>
  C11: searching a key with \<open>bCreate\<close> set in a tree that does not hold it inserts exactly that key:
  the invariant of the tree (structure and hash cache) is preserved, the set of elements grows by the
  new leaf, and the cursor is at that leaf.
\<close>

theorem Find_inserts:
  assumes "tree_inv hp lh nB t" and "fresh nB key (elems t)"
  shows "\<exists>t' cu. Find t key nB True d0 = Some (t', cu, True, True) \<and> tree_inv hp lh nB t' \<and>
    elems t' = insert (key, d0) (elems t) \<and> found_at nB key t' cu key d0"
  by (rule Find_fresh [OF assms])

theorem Find_inserts_witness:
  "\<exists>t' cu. Find tree2 [0x40] 8 True 30 = Some (t', cu, True, True) \<and>
     elems t' = {([0x40], 30), ([0], 10), ([0x80], 20)}"
proof -
  have "fresh 8 [0x40] (elems tree2)"
    using tree2_bits agreeD [of 8 "[0]" "[0x40]" 1] agreeD [of 8 "[0x80]" "[0x40]" 0] by (auto simp: fresh_def tree2_elems)
  from Find_inserts [OF tree2_inv this, of 30] show ?thesis by (auto simp: tree2_elems)
qed

text \<open>
  C12: searching without creation finds the leaf of a key exactly when the tree holds a key with the
  same bits, and leaves the tree as it is; deleting at the cursor of that leaf preserves the invariant
  and removes exactly that element.
\<close>

theorem Find_Delete_removes:
  assumes "tree_inv hp lh nB t"
  shows "(fresh nB key (elems t) \<longrightarrow> (\<exists>cu. Find t key nB False d0 = Some (t, cu, False, False))) \<and>
    (\<not> fresh nB key (elems t) \<longrightarrow>
      (\<exists>cu path k d t'. Find t key nB False d0 = Some (t, cu, True, False) \<and> m_pp cu = Some path \<and> agree nB k key \<and>
         (k, d) \<in> elems t \<and> Delete t path = Some t' \<and> tree_inv hp lh nB t' \<and> elems t' = elems t - {(k, d)}))"
proof -
  have A: "wf_tree nB t" "0 < nB" "tree_cache hp lh t" using assms(1) by (auto simp: tree_inv_def)
  from Goto_tree [OF A(1,2), of key] show ?thesis
  proof (elim disjE exE conjE)
    fix cu k d assume G: "Goto t key nB = Some (cu, True)" "found_at nB key t cu k d" "(k, d) \<in> elems t"
    from G(2) obtain path root b cl where P: "agree nB k key" "m_pp cu = Some path" "t = Some root"
      "node_at path root = Some (Leaf b cl k d)" by (auto simp: found_at_def)
    obtain t' where "Delete t path = Some t'" "wf_tree nB t'" "elems t' = elems t - {(k, d)}"
        "tree_cache hp lh t \<longrightarrow> tree_cache hp lh t'"
      using Delete_spec [OF A(1) P(3,4)] by blast
    moreover have "\<not> fresh nB key (elems t)" using P(1) G(3) by (force simp: fresh_def)
    ultimately show ?thesis using A G P(1,2)
      by (intro conjI impI exI [of _ cu] exI [of _ path] exI [of _ k] exI [of _ d] exI [of _ t'])
        (simp_all add: Find_def tree_inv_def)
  next
    fix cu assume "Goto t key nB = Some (cu, False)" "\<forall>x \<in> fst ` elems t. \<not> agree nB x key"
    then show ?thesis by (simp add: Find_def fresh_def)
  qed
qed

theorem Find_Delete_removes_witness:
  "\<exists>cu path t'. Find tree2 [0x80] 8 False 0 = Some (tree2, cu, True, False) \<and> m_pp cu = Some path \<and>
     Delete tree2 path = Some t' \<and> elems t' = {([0], 10)}"
proof -
  have "\<not> fresh 8 [0x80] (elems tree2)" by (simp add: fresh_def tree2_elems)
  from mp [OF conjunct2 [OF Find_Delete_removes [OF tree2_inv, of "[0x80]" 0]] this]
  obtain cu path k d t' where W: "Find tree2 [0x80] 8 False 0 = Some (tree2, cu, True, False)" "m_pp cu = Some path"
      "agree 8 k [0x80]" "(k, d) \<in> elems tree2" "Delete tree2 path = Some t'" "elems t' = elems tree2 - {(k, d)}"
    by (elim exE conjE)
  have "k \<noteq> [0]" using tree2_bits(1,2) agreeD [OF W(3), of 0] by auto
  then have "(k, d) = ([0x80], 20)" using W(4) unfolding tree2_elems by simp
  then have "elems t' = {([0], 10), ([0x80], 20)} - {([0x80], 20)}" using W(6) by (simp only: tree2_elems)
  then have "elems t' = {([0], 10)}" by (simp add: insert_Diff_if)
  with W(1,2,5) show ?thesis by (intro exI [of _ cu] exI [of _ path] exI [of _ t'] conjI)
qed

text \<open>
  C10: the root hash that \<open>get_Hash\<close> computes through its caches is a function of the set of elements
  alone: two trees with the same elements, whatever the order of the insertions and deletions that
  produced them and whatever hashes they have cached, have the same root.
\<close>

theorem radix_root_canonical:
  assumes "tree_inv hp lh nB t" and "tree_inv hp lh nB u" and "elems t = elems u"
  shows "snd (RadixTree.get_Hash hp lh t) = snd (RadixTree.get_Hash hp lh u) \<and>
    tree_inv hp lh nB (fst (RadixTree.get_Hash hp lh t)) \<and> elems (fst (RadixTree.get_Hash hp lh t)) = elems t"
  using root_hash_canonical [OF assms] get_Hash_spec [OF assms(1)] by (simp add: root_hash_def)

theorem radix_root_canonical_witness:
  "snd (RadixTree.get_Hash (\<lambda>a b. 2 * a + 3 * b) (\<lambda>k d. d) tree2) =
   snd (RadixTree.get_Hash (\<lambda>a b. 2 * a + 3 * b) (\<lambda>k d. d)
     (Some (Joint 0 True [0x80] 80 (Leaf 7 True [0] 10) (Leaf 7 True [0x80] 20))))"
  by (rule conjunct1, rule radix_root_canonical [OF tree2_inv])
    (use tree2_bits in \<open>simp_all add: tree_inv_def tree_simps agree_def tree2_def\<close>)


text \<open>
  C13: rolling back.  Undoing a sequence of insertions and deletions in reverse order restores the root
  hash, although the tree in between was rebuilt and its caches recomputed.
\<close>

theorem radix_rollback:
  assumes "tree_inv hp lh nB t" and "changes_ok elems (fresh nB) (tree_add nB) (tree_del nB) cs t"
  shows "root_hash hp lh (fold (change (tree_add nB) (tree_del nB)) (map undo (rev cs)) (fold (change (tree_add nB) (tree_del nB)) cs t)) = root_hash hp lh t"
  using assms by (rule radix.rollback)

theorem radix_rollback_witness:
  "root_hash (\<lambda>a b. 2 * a + 3 * b) (\<lambda>k d. d)
     (fold (change (tree_add 8) (tree_del 8)) (map undo (rev [(False, [0x80], 20)])) (fold (change (tree_add 8) (tree_del 8)) [(False, [0x80], 20)] tree2))
   = root_hash (\<lambda>a b. 2 * a + 3 * b) (\<lambda>k d. d) tree2"
proof (rule radix_rollback [OF tree2_inv])
  have "fresh 8 [0x80] (elems tree2 - {([0x80], 20)})"
    using tree2_bits agreeD [of 8 "[0]" "[0x80]" 0] by (auto simp: fresh_def tree2_elems)
  then show "changes_ok elems (fresh 8) (tree_add 8) (tree_del 8) [(False, [0x80], 20)] tree2" by (simp add: tree2_elems)
qed

text \<open>
  C14: the proof that \<open>get_Proof\<close> produces for the leaf at a cursor evaluates, from the leaf's hash, to
  the root hash; building it keeps the caches right.
\<close>

theorem radix_proof_verifies:
  assumes "tree_inv hp lh nB (Some root)" and "node_at path root = Some (Leaf b cl k d)"
  shows "Interpret hp (lh k d) (snd (RadixTree.get_Proof hp lh [] path root)) = root_hash hp lh (Some root) \<and>
    cache_ok hp lh (fst (RadixTree.get_Proof hp lh [] path root))"
proof -
  have c: "cache_ok hp lh root" using assms(1) by (simp add: tree_inv_def tree_simps)
  from get_Proof_node_spec [OF c assms(2)] get_Hash_spec [OF assms(1)] show ?thesis
    by (simp add: RadixTree.get_Proof_def split: prod.splits)
qed

theorem radix_proof_verifies_witness:
  "Interpret (\<lambda>a b. 2 * a + 3 * b) 20 (snd (RadixTree.get_Proof (\<lambda>a b. 2 * a + 3 * b) (\<lambda>k d. d) [] [True] (the tree2)))
   = root_hash (\<lambda>a b. 2 * a + 3 * b) (\<lambda>k d. d) tree2"
  using radix_proof_verifies [of "\<lambda>a b. 2 * a + 3 * b" "\<lambda>k d. d" 8 "the tree2" "[True]" 7 False "[0x80]" 20] tree2_inv
  by (simp add: tree2_def)

text \<open>
  C15: traversal with bounds calls the visitor on the leaves whose keys lie between the bounds (as
  numbers, the first bit the most significant), in increasing order of the keys, and stops when the
  visitor says so.
\<close>

theorem Traverse_in_order:
  assumes "wf_node nB 0 n"
  shows "Traverse f (Some n) (lo, hi) st = iter f (filter (\<lambda>(p, k, d).
      (\<forall>B. lo = Some B \<longrightarrow> bval B 0 nB \<le> bval k 0 nB) \<and> (\<forall>B. hi = Some B \<longrightarrow> bval k 0 nB \<le> bval B 0 nB)) (pleaves [] n)) st \<and>
    map snd (pleaves [] n) = leaves n \<and> (\<forall>(p, k, d) \<in> set (pleaves [] n). \<exists>b cl. node_at p n = Some (Leaf b cl k d)) \<and>
    sorted_wrt (\<lambda>x y. bval (fst x) 0 nB < bval (fst y) 0 nB) (leaves n)"
proof -
  have "in_bounds nB 0 (lo, hi) k \<longleftrightarrow>
      (\<forall>B. lo = Some B \<longrightarrow> bval B 0 nB \<le> bval k 0 nB) \<and> (\<forall>B. hi = Some B \<longrightarrow> bval k 0 nB \<le> bval B 0 nB)" for k
    by (cases lo; cases hi) (auto simp: in_bounds_def Cmp_bits_sgn sgn_nat_diff not_less)
  then have "(\<lambda>(p :: bool list, k, d :: 'a). (\<forall>B. lo = Some B \<longrightarrow> bval B 0 nB \<le> bval k 0 nB) \<and> (\<forall>B. hi = Some B \<longrightarrow> bval k 0 nB \<le> bval B 0 nB))
      = (\<lambda>x. in_bounds nB 0 (lo, hi) (fst (snd x)))" by (simp only: case_prod_unfold)
  moreover have "\<forall>(p, k, d) \<in> set (pleaves [] n). \<exists>b cl. node_at p n = Some (Leaf b cl k d)"
    using node_at_pleaves [of _ _ _ "[]" n] by fastforce
  ultimately show ?thesis using leaves_sorted [OF assms] Traverse_node_spec [OF assms, of f "[]" "(lo, hi)" st]
    by (simp only: Traverse_def option.case simp_thms diff_zero snd_pleaves)
qed

theorem Traverse_in_order_witness:
  "Traverse (\<lambda>p k d s. (s @ [(p, d)], True)) (Some (the tree2)) (Some [0x10], None) [] = ([([True], 20)], True)"
proof -
  have "wf_node 8 0 (the tree2)" using tree2_inv by (simp add: tree_inv_def tree_simps tree2_def)
  moreover have "bval [0x10] 0 8 = 16" "bval [0] 0 8 = 0" "bval [0x80] 0 8 = 128" by code_simp+
  ultimately show ?thesis
    using Traverse_in_order [of 8 "the tree2" "\<lambda>p k d s. (s @ [(p, d)], True)" "Some [0x10]" None "[]"] by (simp add: tree2_def)
qed

end
