(* ===== verification/UtxoTree.thy ===== *)
theory UtxoTree
  imports RadixTree UintBig
begin
unbundle bit_operations_syntax

section \<open>The tree of unspent outputs (core/radixtree.cpp: UtxoTree)\<close>

text \<open>
  The radix tree whose keys encode the commitment and the maturity of an output and whose leaves hold
  the identifiers of the outputs with that key: the encoding of keys, the stack of identifiers in a
  leaf, saving and loading, and the builder that computes the root hash from the sorted keys without
  the tree.  The leaf hash is a function of the key and the number of outputs (\<open>lh\<close>).
\<close>

subsection \<open>Keys\<close>

record KeyData =
  kd_X :: bytes
  kd_Y :: u8
  kd_Maturity :: u64

definition s_BitsCommitment :: nat where "s_BitsCommitment = 256 + 1"
definition s_Bits :: nat where "s_Bits = s_BitsCommitment + 8 * 8"
definition s_Bytes :: nat where "s_Bytes = drop_bit 3 (s_Bits + 7)"

definition Key_step :: "u64 \<Rightarrow> nat \<Rightarrow> bytes \<Rightarrow> bytes" where
  "Key_step m i p =
     (let val = (ucast (drop_bit (push_bit 3 (8 - i - 1)) m) :: u8);
          p1 = p[i := p ! i OR drop_bit 1 val]
      in p1[i + 1 := p1 ! (i + 1) OR push_bit 7 val])"

definition Key_of_Data :: "KeyData \<Rightarrow> bytes" where
  "Key_of_Data d =
     (let p0 = replicate (s_Bytes - 32) 0;
          p1 = (if kd_Y d \<noteq> 0 then p0[0 := p0 ! 0 OR push_bit 7 1] else p0)
      in kd_X d @ fold (Key_step (kd_Maturity d)) [0..<8] p1)"

definition Data_step :: "bytes \<Rightarrow> nat \<Rightarrow> u64 \<Rightarrow> u64" where
  "Data_step p i m = push_bit 8 m OR push_bit 1 (ucast (p ! i)) OR ucast (drop_bit 7 (p ! (i + 1)))"

definition Data_of_Key :: "bytes \<Rightarrow> KeyData" where
  "Data_of_Key key =
     (let p = drop 32 key
      in \<lparr>kd_X = take 32 key, kd_Y = 1 AND drop_bit 7 (p ! 0), kd_Maturity = fold (Data_step p) [0..<8] 0\<rparr>)"

text \<open>The bits of the tail of a key: the sign of the commitment, then the maturity, most significant bit first.\<close>

definition tail_bit :: "bool \<Rightarrow> u64 \<Rightarrow> nat \<Rightarrow> bool" where
  "tail_bit y m g \<longleftrightarrow> (if g = 0 then y else g \<le> 64 \<and> bit m (64 - g))"

lemma Key_step_bits:
  assumes "s < 8" and "length p = 9"
    and "\<And>i j. i < 9 \<Longrightarrow> j < 8 \<Longrightarrow> bit (p ! i) j = (8 * i + 7 - j \<le> 8 * s \<and> tail_bit y m (8 * i + 7 - j))"
    and "i < 9" and "j < 8"
  shows "bit (Key_step m s p ! i) j = (8 * i + 7 - j \<le> 8 * Suc s \<and> tail_bit y m (8 * i + 7 - j))"
proof -
  have sh: "push_bit 3 (7 - s) = 56 - 8 * s" by (simp add: push_bit_eq_mult)
  have ix: "Suc (56 + j - 8 * s) = 57 + j - 8 * s" using assms(1) by simp
  have pre: "bit (p ! i) j = (8 * i + 7 - j \<le> 8 * s \<and> tail_bit y m (8 * i + 7 - j))" by (rule assms(3) [OF assms(4,5)])
  consider "i = s" | "i = Suc s" | "i < s" | "Suc s < i" by linarith
  then show ?thesis
  proof cases
    case 1
    have "bit (Key_step m s p ! i) j = (bit (p ! i) j \<or> j < 7 \<and> bit m (57 + j - 8 * s))"
      using 1 assms(1,2,5) by (auto simp: Key_step_def Let_def sh ix bit_simps)
    then show ?thesis using 1 assms(1,2,4,5) pre by (auto simp: tail_bit_def)
  next
    case 2
    have "bit (Key_step m s p ! i) j = (bit (p ! i) j \<or> j = 7 \<and> bit m (56 - 8 * s))"
      using 2 assms(1,2,5) by (auto simp: Key_step_def Let_def sh bit_simps)
    then show ?thesis using 2 assms(1,2,4,5) pre by (cases "j = 7") (auto simp: tail_bit_def)
  next
    case 3
    then show ?thesis using assms(1,2,4,5) pre by (auto simp: Key_step_def Let_def)
  next
    case 4
    then show ?thesis using assms(1,2,4,5) pre by (auto simp: Key_step_def Let_def)
  qed
qed

lemma length_Key_step [simp]: "length (Key_step m s p) = length p"
  by (simp add: Key_step_def Let_def)

lemma Key_loop_bits:
  assumes "length p = 9" and "\<And>i j. i < 9 \<Longrightarrow> j < 8 \<Longrightarrow> bit (p ! i) j = (8 * i + 7 - j = 0 \<and> y)" and "s \<le> 8"
  shows "length (fold (Key_step m) [0..<s] p) = 9 \<and> (\<forall>i < 9. \<forall>j < 8. bit (fold (Key_step m) [0..<s] p ! i) j =
    (8 * i + 7 - j \<le> 8 * s \<and> tail_bit y m (8 * i + 7 - j)))"
  using assms(3)
proof (induction s)
  case 0
  then show ?case using assms(1,2) by (auto simp: tail_bit_def)
next
  case (Suc s)
  then have IH: "length (fold (Key_step m) [0..<s] p) = 9" "\<And>i j. i < 9 \<Longrightarrow> j < 8 \<Longrightarrow>
      bit (fold (Key_step m) [0..<s] p ! i) j = (8 * i + 7 - j \<le> 8 * s \<and> tail_bit y m (8 * i + 7 - j))" by simp_all
  then show ?case using Key_step_bits [OF _ IH] Suc.prems by simp
qed

lemma s_simps [simp]: "s_Bytes = 41" "s_Bits = 321" "s_BitsCommitment = 257"
  by (simp_all add: s_Bytes_def s_Bits_def s_BitsCommitment_def drop_bit_eq_div)

lemma Key_tail:
  obtains p where "Key_of_Data d = kd_X d @ p" and "length p = 9"
    and "\<And>i j. i < 9 \<Longrightarrow> j < 8 \<Longrightarrow> bit (p ! i) j = tail_bit (kd_Y d \<noteq> 0) (kd_Maturity d) (8 * i + 7 - j)"
proof -
  let ?p1 = "if kd_Y d \<noteq> 0 then (replicate 9 0)[0 := replicate 9 0 ! 0 OR push_bit 7 1] else replicate 9 0 :: bytes"
  let ?p = "fold (Key_step (kd_Maturity d)) [0..<8] ?p1"
  have "bit (?p1 ! i) j = (8 * i + 7 - j = 0 \<and> kd_Y d \<noteq> 0)" if "i < 9" "j < 8" for i j
  proof -
    from that(2) have "j \<in> {0, 1, 2, 3, 4, 5, 6, 7}" by auto
    then have "bit (128 :: u8) j = (7 \<le> j)" by auto
    then show ?thesis using that by (cases "i = 0") auto
  qed
  from Key_loop_bits [OF _ this, of 8 "kd_Maturity d"]
  have P: "length ?p = 9" "\<And>i j. i < 9 \<Longrightarrow> j < 8 \<Longrightarrow> bit (?p ! i) j =
      (8 * i + 7 - j \<le> 64 \<and> tail_bit (kd_Y d \<noteq> 0) (kd_Maturity d) (8 * i + 7 - j))" by simp_all
  show thesis
  proof (rule that)
    show "Key_of_Data d = kd_X d @ ?p" by (simp add: Key_of_Data_def Let_def)
    show "bit (?p ! i) j = tail_bit (kd_Y d \<noteq> 0) (kd_Maturity d) (8 * i + 7 - j)" if "i < 9" "j < 8" for i j
      using P(2) [OF that] by (auto simp: tail_bit_def)
  qed (rule P(1))
qed

lemma length_Key [simp]: "length (Key_of_Data d) = length (kd_X d) + 9"
  by (rule Key_tail [of d]) simp

lemma get_Bit_bit: "get_Bit p n = bit (p ! (n div 8)) (7 - n mod 8)"
proof -
  have "7 AND n = n mod 8" using take_bit_eq_mask [of 3 n] by (simp add: take_bit_eq_mod mask_eq_exp_minus_1 and.commute)
  moreover have "7 XOR r = 7 - r" if "r < 8" for r :: nat
  proof -
    from that have "r \<in> {0, 1, 2, 3, 4, 5, 6, 7}" by auto
    then show ?thesis by auto
  qed
  ultimately have "7 XOR (7 AND n) = 7 - n mod 8" by simp
  moreover have "drop_bit 3 n = n div 8" by (simp add: drop_bit_eq_div)
  ultimately show ?thesis
    by (simp add: get_Bit_def get_BitRawStat_def and.commute [of 1] and_one_eq bit_iff_odd_drop_bit odd_iff_mod_2_eq_one)
qed

lemma get_Bit_Key:
  assumes "length (kd_X d) = 32"
  shows "n < 256 \<Longrightarrow> get_Bit (Key_of_Data d) n = get_Bit (kd_X d) n"
    and "256 \<le> n \<Longrightarrow> n < 328 \<Longrightarrow> get_Bit (Key_of_Data d) n = tail_bit (kd_Y d \<noteq> 0) (kd_Maturity d) (n - 256)"
proof -
  obtain p where P: "Key_of_Data d = kd_X d @ p" "length p = 9"
    "\<And>i j. i < 9 \<Longrightarrow> j < 8 \<Longrightarrow> bit (p ! i) j = tail_bit (kd_Y d \<noteq> 0) (kd_Maturity d) (8 * i + 7 - j)"
    using Key_tail by blast
  show "get_Bit (Key_of_Data d) n = get_Bit (kd_X d) n" if "n < 256"
  proof -
    have "n div 8 < 32" using that by simp
    then show ?thesis using assms by (simp add: get_Bit_bit P(1) nth_append)
  qed
  show "get_Bit (Key_of_Data d) n = tail_bit (kd_Y d \<noteq> 0) (kd_Maturity d) (n - 256)" if "256 \<le> n" "n < 328"
  proof -
    have "8 * (n div 8 - 32) + 7 - (7 - n mod 8) = n - 256" using that(1) by (simp add: diff_mult_distrib2)
    moreover have "get_Bit (Key_of_Data d) n = bit (p ! (n div 8 - 32)) (7 - n mod 8)"
    proof -
      have "\<not> n div 8 < 32" using that(1) by simp
      then show ?thesis using assms by (simp add: get_Bit_bit P(1) nth_append)
    qed
    ultimately show ?thesis using that P(3) [of "n div 8 - 32" "7 - n mod 8"] by simp
  qed
qed

lemma Data_step_bit:
  "bit (Data_step p s m) n = (n < 64 \<and> (8 \<le> n \<and> bit m (n - 8) \<or> 1 \<le> n \<and> n \<le> 8 \<and> bit (p ! s) (n - 1) \<or> n = 0 \<and> bit (p ! (s + 1)) 7))"
proof -
  have "bit (w :: u8) k \<Longrightarrow> k < 8" for w k using bit_imp_le_length [of w k] by simp
  then have "bit (p ! s) (n - 1) \<Longrightarrow> n \<le> 8" "bit (p ! (s + 1)) (7 + n) \<Longrightarrow> n = 0" by force+
  moreover have "bit (Data_step p s m) n = ((8 \<le> n \<and> n < 64 \<and> bit m (n - 8)) \<or> (1 \<le> n \<and> n < 64 \<and> bit (p ! s) (n - 1)) \<or>
      (n < 64 \<and> bit (p ! (s + 1)) (7 + n)))"
    by (simp only: Data_step_def bit_or_iff bit_push_bit_iff bit_unsigned_iff bit_drop_bit_eq comp_def possible_bit_word) auto
  ultimately show ?thesis by auto
qed

lemma Data_loop_bits:
  assumes "length p = 9" and "\<And>i j. i < 9 \<Longrightarrow> j < 8 \<Longrightarrow> bit (p ! i) j = tail_bit y m (8 * i + 7 - j)" and "s \<le> 8"
  shows "bit (fold (Data_step p) [0..<s] 0) n = (0 < s \<and> n < 64 \<and> n \<le> 8 * s \<and> tail_bit y m (8 * s - n))"
  using assms(3)
proof (induction s arbitrary: n)
  case (Suc s)
  then have s: "s < 9" "Suc s < 9" by simp_all
  let ?T = "tail_bit y m (8 * Suc s - n)" and ?acc = "fold (Data_step p) [0..<s] 0"
  have "fold (Data_step p) [0..<Suc s] 0 = Data_step p s ?acc" by simp
  note E = Data_step_bit [of p s ?acc n, folded this]
  have A: "bit (p ! s) (n - 1) = ?T" if "1 \<le> n" "n \<le> 8"
    using assms(2) [OF s(1), of "n - 1"] that by (simp add: Suc_diff_le numeral_eq_Suc)
  have B: "bit (p ! (s + 1)) 7 = ?T" if "n = 0" using assms(2) [OF s(2), of 7] that by simp
  have C: "bit ?acc (n - 8) = (0 < s \<and> n - 8 < 64 \<and> n - 8 \<le> 8 * s \<and> ?T)" if "8 \<le> n"
    using Suc.IH [of "n - 8"] Suc.prems that by (simp add: diff_diff_right add.commute)
  consider "n = 0" | "1 \<le> n" "n < 8" | "n = 8" | "8 < n" by linarith
  then show ?case
  proof cases
    case 1 then show ?thesis unfolding E using B by simp
  next
    case 2 then show ?thesis unfolding E using A by simp
  next
    case 3 then show ?thesis unfolding E using A C by auto
  next
    case 4 then show ?thesis unfolding E using C Suc.prems by auto
  qed
qed simp

lemma Data_of_Key_of_Data:
  assumes "length (kd_X d) = 32" and "kd_Y d < 2"
  shows "Data_of_Key (Key_of_Data d) = d"
proof -
  obtain p where P: "Key_of_Data d = kd_X d @ p" "length p = 9"
    "\<And>i j. i < 9 \<Longrightarrow> j < 8 \<Longrightarrow> bit (p ! i) j = tail_bit (kd_Y d \<noteq> 0) (kd_Maturity d) (8 * i + 7 - j)"
    using Key_tail by blast
  have "fold (Data_step p) [0..<8] 0 = kd_Maturity d"
    by (rule bit_word_eqI) (simp add: Data_loop_bits [OF P(2,3)] tail_bit_def)
  moreover have "1 AND drop_bit 7 (p ! 0) = kd_Y d"
  proof -
    have "bit (p ! 0) 7 = (kd_Y d \<noteq> 0)" using P(3) [of 0 7] by (simp add: tail_bit_def)
    then have "1 AND drop_bit 7 (p ! 0) = of_bool (kd_Y d \<noteq> 0)"
      by (simp add: and.commute [of 1] and_one_eq bit_iff_odd_drop_bit mod2_eq_if)
    also have "\<dots> = kd_Y d" using assms(2) by (simp add: word_less_nat_alt word_unat_eq_iff unsigned_of_nat) 
    finally show ?thesis .
  qed
  ultimately show ?thesis using assms(1) by (simp add: Data_of_Key_def Let_def P(1))
qed

text \<open>Bits of a key as a number.\<close>

lemma bval_bits: "(\<And>i. i < n \<Longrightarrow> get_Bit k (b + i) = bit (w :: nat) (n - 1 - i)) \<Longrightarrow> bval k b n = take_bit n w"
proof (induction n arbitrary: b)
  case (Suc n)
  have "get_Bit k (Suc b + i) = bit w (n - 1 - i)" if "i < n" for i using Suc.prems [of "Suc i"] that by simp
  from Suc.IH [OF this] Suc.prems [of 0] show ?case by (simp add: take_bit_Suc_from_most)
qed simp

lemma get_Bit_be_val: "i < 8 * length p \<Longrightarrow> get_Bit p i = bit (be_val p) (8 * length p - 1 - i)"
proof -
  assume i: "i < 8 * length p"
  let ?q = "i div 8" and ?j = "7 - i mod 8"
  have q: "?q < length p" using i by simp
  have "unat (p ! ?q) = be_val p div 256 ^ (length p - 1 - ?q) mod 256" using be_val_nth [OF q] by simp
  also have "\<dots> = take_bit 8 (drop_bit (8 * (length p - 1 - ?q)) (be_val p))"
    by (simp add: take_bit_eq_mod drop_bit_eq_div pow256)
  finally have U: "unat (p ! ?q) = take_bit 8 (drop_bit (8 * (length p - 1 - ?q)) (be_val p))" .
  have "bit (p ! ?q) ?j = bit (be_val p) (8 * (length p - 1 - ?q) + ?j)"
  proof -
    have "bit (p ! ?q) ?j = bit (unat (p ! ?q)) ?j" by (simp add: bit_unsigned_iff)
    moreover have "?j < 8" by linarith
    ultimately show ?thesis unfolding U bit_take_bit_iff bit_drop_bit_eq comp_def by simp
  qed
  moreover have "8 * (length p - 1 - ?q) + ?j = 8 * length p - 1 - i"
  proof -
    have "8 * ?q + i mod 8 = i" by simp
    moreover have "i mod 8 < 8" by simp
    moreover have "8 * (length p - 1 - ?q) + 8 * ?q + 8 = 8 * length p" using q by simp
    ultimately show ?thesis by linarith
  qed
  ultimately show ?thesis by (simp only: get_Bit_bit)
qed

lemma bval_be_val: "bval p 0 (8 * length p) = be_val p"
proof -
  have "bval p 0 (8 * length p) = take_bit (8 * length p) (be_val p)"
    using get_Bit_be_val by (intro bval_bits) simp
  then show ?thesis using be_val_less [of p] by (simp add: take_bit_nat_eq_self pow256)
qed

text \<open>
  Read as a number of 321 bits, the key orders the commitments first and the maturities of one
  commitment next.
\<close>

lemma bval_Key:
  assumes "length (kd_X d) = 32"
  shows "bval (Key_of_Data d) 0 321 = be_val (kd_X d) * 2 ^ 65 + of_bool (kd_Y d \<noteq> 0) * 2 ^ 64 + unat (kd_Maturity d)"
proof -
  have "bval (Key_of_Data d) 0 256 = bval (kd_X d) 0 256" using get_Bit_Key(1) [OF assms] by (intro bval_agree) simp
  then have 1: "bval (Key_of_Data d) 0 256 = be_val (kd_X d)" using bval_be_val [of "kd_X d"] assms by simp
  have "bval (Key_of_Data d) (Suc 256) 64 = take_bit 64 (unat (kd_Maturity d))"
  proof (rule bval_bits)
    fix i :: nat assume i: "i < 64"
    have "get_Bit (Key_of_Data d) (Suc 256 + i) = tail_bit (kd_Y d \<noteq> 0) (kd_Maturity d) (Suc i)"
      using get_Bit_Key(2) [OF assms, of "Suc 256 + i"] i by simp
    also have "\<dots> = bit (unat (kd_Maturity d)) (64 - 1 - i)" using i by (simp add: tail_bit_def bit_unsigned_iff)
    finally show "get_Bit (Key_of_Data d) (Suc 256 + i) = bit (unat (kd_Maturity d)) (64 - 1 - i)" .
  qed
  then have 2: "bval (Key_of_Data d) (Suc 256) 64 = unat (kd_Maturity d)"
    using unsigned_less [of "kd_Maturity d", where 'a = nat] by (simp add: take_bit_nat_eq_self del: unsigned_less)
  have "get_Bit (Key_of_Data d) 256 = (kd_Y d \<noteq> 0)" using get_Bit_Key(2) [OF assms, of 256] by (simp add: tail_bit_def)
  then have 3: "bval (Key_of_Data d) 256 (Suc 64) = of_bool (kd_Y d \<noteq> 0) * 2 ^ 64 + unat (kd_Maturity d)"
  proof -
    have "(if b then x else 0) = of_bool b * x" for b and x :: nat by simp
    then show ?thesis using \<open>get_Bit (Key_of_Data d) 256 = (kd_Y d \<noteq> 0)\<close> 2 by (simp only: bval.simps)
  qed
  have "bval (Key_of_Data d) 0 (256 + Suc 64) = bval (Key_of_Data d) 0 256 * 2 ^ Suc 64 + bval (Key_of_Data d) (0 + 256) (Suc 64)"
    by (rule bval_split)
  moreover have "256 + Suc 64 = 321" "x * 2 ^ Suc 64 = x * 2 ^ 65" for x :: nat by simp_all
  ultimately show ?thesis unfolding 1 add_0 3 by (simp only: add.assoc)
qed

subsection \<open>The identifiers of equal outputs in a leaf\<close>

text \<open>
  Equal outputs share a leaf.  A leaf of one output holds its identifier in place; from the second on
  it holds a counted stack of identifiers (flag \<open>s_User\<close>).
\<close>

record IDQueue =
  m_pTop :: "u64 list"
  m_Count :: u32

datatype LeafIDs = ID u64 | IDs IDQueue

definition IsExt :: "LeafIDs \<Rightarrow> bool" where
  "IsExt x = (case x of ID _ \<Rightarrow> False | IDs _ \<Rightarrow> True)"

definition get_Count :: "LeafIDs \<Rightarrow> u32" where
  "get_Count x = (case x of ID _ \<Rightarrow> 1 | IDs q \<Rightarrow> m_Count q)"

definition IsCommitmentDuplicated :: "nat \<Rightarrow> bool" where
  "IsCommitmentDuplicated nBits = (nBits \<le> s_Bits - s_BitsCommitment)"

definition PushIDRaw :: "u64 \<Rightarrow> IDQueue \<Rightarrow> IDQueue" where
  "PushIDRaw v q = q\<lparr>m_pTop := v # m_pTop q, m_Count := m_Count q + 1\<rparr>"

definition PushID :: "u64 \<Rightarrow> LeafIDs \<Rightarrow> LeafIDs" where
  "PushID v x =
     (let q = (case x of ID val \<Rightarrow> PushIDRaw val \<lparr>m_pTop = [], m_Count = 0\<rparr> | IDs q \<Rightarrow> q)
      in IDs (PushIDRaw v q))"

text \<open>\<open>None\<close>: the pointer to the top is null.\<close>

definition PopIDRaw :: "IDQueue \<Rightarrow> (u64 \<times> IDQueue) option" where
  "PopIDRaw q =
     (case m_pTop q of
        [] \<Rightarrow> None
      | v # next \<Rightarrow> Some (v, q\<lparr>m_pTop := next, m_Count := m_Count q - 1\<rparr>))"

definition PopID :: "LeafIDs \<Rightarrow> (u64 \<times> LeafIDs) option" where
  "PopID x =
     (case x of
        ID _ \<Rightarrow> None
      | IDs q \<Rightarrow>
          (case PopIDRaw q of
             None \<Rightarrow> None
           | Some (ret, q1) \<Rightarrow>
               if 1 = m_Count q1 then (case PopIDRaw q1 of None \<Rightarrow> None | Some (val, q2) \<Rightarrow> Some (ret, ID val))
               else Some (ret, IDs q1)))"

function DeleteLeaf :: "LeafIDs \<Rightarrow> LeafIDs option" where
  "DeleteLeaf x = (if IsExt x then (case PopID x of None \<Rightarrow> None | Some (_, x1) \<Rightarrow> DeleteLeaf x1) else Some x)"
  by pat_completeness auto

termination
  by (relation "measure (\<lambda>x. case x of ID _ \<Rightarrow> 0 | IDs q \<Rightarrow> length (m_pTop q))")
    (auto simp: IsExt_def PopID_def PopIDRaw_def split: LeafIDs.splits option.splits list.splits if_splits)

declare DeleteLeaf.simps [simp del]

definition LeafHash :: "(bytes \<Rightarrow> u32 \<Rightarrow> 'h) \<Rightarrow> bytes \<Rightarrow> LeafIDs \<Rightarrow> 'h" where
  "LeafHash lh key x = lh key (get_Count x)"

text \<open>\<open>Input::State::get_ID\<close>: the leaf hash of an output named by its commitment, maturity and count.\<close>

definition State_get_ID :: "(bytes \<Rightarrow> u32 \<Rightarrow> 'h) \<Rightarrow> u64 \<Rightarrow> u32 \<Rightarrow> bytes \<times> u8 \<Rightarrow> 'h" where
  "State_get_ID lh maturity count comm = lh (Key_of_Data \<lparr>kd_X = fst comm, kd_Y = snd comm, kd_Maturity = maturity\<rparr>) count"

text \<open>The stack a leaf stands for, the top first, and the invariant of its representation.\<close>

definition ids :: "LeafIDs \<Rightarrow> u64 list" where
  "ids x = (case x of ID v \<Rightarrow> [v] | IDs q \<Rightarrow> m_pTop q)"

definition ids_ok :: "LeafIDs \<Rightarrow> bool" where
  "ids_ok x = (case x of ID v \<Rightarrow> True | IDs q \<Rightarrow> 2 \<le> length (m_pTop q) \<and> length (m_pTop q) < 2 ^ 32 \<and> m_Count q = of_nat (length (m_pTop q)))"

lemmas leaf_defs = IsExt_def get_Count_def PushIDRaw_def PushID_def PopIDRaw_def PopID_def ids_def ids_ok_def

lemma u32_nat_eq: "m < 2 ^ 32 \<Longrightarrow> n < 2 ^ 32 \<Longrightarrow> (of_nat m :: u32) = of_nat n \<longleftrightarrow> m = n"
  by (auto simp: word_unat_eq_iff unsigned_of_nat take_bit_nat_eq_self)

lemma get_Count_ids: "ids_ok x \<Longrightarrow> get_Count x = of_nat (length (ids x))"
  by (cases x) (simp_all add: leaf_defs)

lemma length_ids: "ids_ok x \<Longrightarrow> 0 < length (ids x) \<and> length (ids x) < 2 ^ 32"
  by (cases x) (auto simp: leaf_defs)

lemma unat_Count: "ids_ok x \<Longrightarrow> unat (get_Count x) = length (ids x)"
  using get_Count_ids [of x] length_ids [of x] by (simp add: unsigned_of_nat take_bit_nat_eq_self)

lemma ids_inject: "ids_ok x \<Longrightarrow> ids_ok y \<Longrightarrow> ids x = ids y \<longleftrightarrow> x = y"
  by (cases x; cases y) (auto simp: leaf_defs dest: arg_cong [where f = length])

lemma IsExt_iff: "ids_ok x \<Longrightarrow> IsExt x \<longleftrightarrow> 1 < length (ids x)"
  by (cases x) (auto simp: leaf_defs)

lemma PushID_spec: "ids_ok x \<Longrightarrow> Suc (length (ids x)) < 2 ^ 32 \<Longrightarrow> ids_ok (PushID v x) \<and> ids (PushID v x) = v # ids x"
  by (cases x) (auto simp: leaf_defs Let_def)

lemma PopID_spec:
  assumes "ids_ok x" and "IsExt x"
  shows "\<exists>x'. PopID x = Some (hd (ids x), x') \<and> ids_ok x' \<and> ids x' = tl (ids x)"
proof -
  obtain q where q: "x = IDs q" using assms(2) by (cases x) (auto simp: IsExt_def)
  then obtain a b r where l: "m_pTop q = a # b # r" "length r + 2 < 2 ^ 32" "m_Count q = of_nat (length r + 2)"
    using assms(1) by (cases "m_pTop q" rule: remdups_adj.cases) (auto simp: ids_ok_def)
  have c: "m_Count q - 1 = of_nat (length r + 1)" by (simp add: l(3))
  have "1 = m_Count q - 1 \<longleftrightarrow> r = []"
    unfolding c using u32_nat_eq [of 1 "length r + 1"] l(2) by auto
  then show ?thesis using l c by (cases r) (auto simp: q leaf_defs)
qed

lemma PopID_PushID:
  assumes "ids_ok x" and "Suc (length (ids x)) < 2 ^ 32"
  shows "PopID (PushID v x) = Some (v, x)"
proof -
  note P = PushID_spec [OF assms, of v]
  then have "IsExt (PushID v x)" using IsExt_iff length_ids [OF assms(1)] by simp
  from PopID_spec [OF _ this] P obtain x' where "PopID (PushID v x) = Some (v, x')" "ids_ok x'" "ids x' = ids x" by auto
  then show ?thesis using ids_inject assms(1) by blast
qed

lemma DeleteLeaf_returns: "ids_ok x \<Longrightarrow> \<exists>v. DeleteLeaf x = Some (ID v)"
proof (induction x rule: DeleteLeaf.induct)
  case (1 x)
  show ?case
  proof (cases "IsExt x")
    case True
    from PopID_spec [OF "1.prems" this] obtain x' where "PopID x = Some (hd (ids x), x')" "ids_ok x'" by blast
    then show ?thesis using "1.IH" True by (subst DeleteLeaf.simps) auto
  next
    case False
    then show ?thesis by (subst DeleteLeaf.simps) (cases x; simp add: IsExt_def)
  qed
qed

text \<open>Which leaf has which number of bits: its key agrees with another key on exactly the bits above them.\<close>

lemma leaf_bits_agree:
  assumes "wf_node nB b n" and "node_at p n = Some (Leaf bs cl k d)"
  shows "(\<exists>(k', d') \<in> set (leaves n). k' \<noteq> k \<and> agree m k k') \<longleftrightarrow> p \<noteq> [] \<and> m + bs < nB"
  using assms
proof (induction n arbitrary: p b)
  case (Leaf x1 x2 x3 x4)
  then show ?case by (cases p) auto
next
  case (Joint b1 c1 kp h l r)
  then obtain c q where p: "p = c # q" "node_at q (if c then r else l) = Some (Leaf bs cl k d)" by (cases p) auto
  let ?s = "b + b1" and ?m = "if c then r else l" and ?o = "if c then l else r"
  have wf: "wf_node nB (Suc ?s) ?m" using Joint.prems(1) by auto
  have IH: "(\<exists>(k', d') \<in> set (leaves ?m). k' \<noteq> k \<and> agree m k k') \<longleftrightarrow> q \<noteq> [] \<and> m + bs < nB"
    using Joint.IH wf p(2) by (cases c) auto
  have kin: "k \<in> keys ?m" using keys_node_at [OF p(2)] by simp
  have pos: "pos_at (Suc ?s) q ?m + bs = nB" using wf_node_at [OF wf p(2)] by simp
  have nd: "Suc ?s + bs \<le> nB" using pos pos_at_ge [of "Suc ?s" q ?m] by linarith
  have nd0: "Suc ?s + bs = nB" if "q = []" using pos that by simp
  have O: "x \<noteq> k \<and> (agree m k x \<longleftrightarrow> m \<le> ?s)" if "x \<in> keys ?o" for x
  proof -
    have A: "agree ?s k kp" "agree ?s x kp" using that kin Joint.prems(1) by (cases c; auto)+
    have "get_Bit x ?s \<noteq> get_Bit k ?s" using that kin Joint.prems(1) by (cases c; auto)
    moreover have "agree ?s k x" by (rule agree_trans [OF A(1) agree_sym [OF A(2)]])
    ultimately
    show ?thesis using agree_mono [of ?s k x m] agreeD [of m k x ?s] by (cases "m \<le> ?s") auto
  qed
  have "leaves ?o \<noteq> []" by simp
  then obtain o1 where o1: "o1 \<in> set (leaves ?o)" by (cases "leaves ?o") auto
  have "(\<exists>(k', d') \<in> set (leaves ?o). k' \<noteq> k \<and> agree m k k') \<longleftrightarrow> m \<le> ?s"
  proof
    assume "\<exists>(k', d') \<in> set (leaves ?o). k' \<noteq> k \<and> agree m k k'"
    then obtain x where "x \<in> set (leaves ?o)" "agree m k (fst x)" by auto
    then show "m \<le> ?s" using O [of "fst x"] by simp
  next
    assume "m \<le> ?s"
    then show "\<exists>(k', d') \<in> set (leaves ?o). k' \<noteq> k \<and> agree m k k'" using o1 O [of "fst o1"] by (intro bexI [of _ o1]) auto
  qed
  moreover have "set (leaves (Joint b1 c1 kp h l r)) = set (leaves ?m) \<union> set (leaves ?o)" by auto
  ultimately have "(\<exists>(k', d') \<in> set (leaves (Joint b1 c1 kp h l r)). k' \<noteq> k \<and> agree m k k') \<longleftrightarrow> q \<noteq> [] \<and> m + bs < nB \<or> m \<le> ?s"
    using IH by (simp only: bex_Un)
  also have "\<dots> \<longleftrightarrow> m + bs < nB" using nd nd0 by (cases "q = []") auto
  finally show ?case using p(1) by simp
qed

subsection \<open>Saving and loading\<close>

text \<open>What the serializer processes, as the sequence of values it writes or reads.\<close>

datatype Item = U32 u32 | U64 u64 | KeyV bytes

datatype LoadError = StreamError | IncorrectOrder | AssertFailed

definition SaveLeaf :: "bytes \<Rightarrow> LeafIDs \<Rightarrow> Item list" where
  "SaveLeaf key x =
     [KeyV key, U32 (get_Count x)] @ (case x of IDs q \<Rightarrow> map U64 (m_pTop q) | ID v \<Rightarrow> [U64 v])"

definition SaveIntenral :: "(LeafIDs, 'h) Tree \<Rightarrow> Item list" where
  "SaveIntenral t =
     U32 (of_nat (Count t)) # fst (Traverse (\<lambda>pp key x s. (s @ SaveLeaf key x, True)) t (None, None) [])"

text \<open>The loop \<open>while (--n2)\<close>; the stream ends with an exception.\<close>

function Load_ids :: "u32 \<Rightarrow> LeafIDs \<Rightarrow> Item list \<Rightarrow> (LeafIDs \<times> Item list) option" where
  "Load_ids n2 x s =
     (if n2 - 1 = 0 then Some (x, s)
      else (case s of U64 val # r \<Rightarrow> Load_ids (n2 - 1) (PushID val x) r | _ \<Rightarrow> None))"
  by pat_completeness auto

termination
  by (relation "measure (\<lambda>(n2, x, s). length s)") auto

declare Load_ids.simps [simp del]

definition Load_leaf :: "Item list \<Rightarrow> (bytes \<times> LeafIDs \<times> Item list) option" where
  "Load_leaf s =
     (case s of
        KeyV key # U32 n2 # U64 v # r \<Rightarrow> map_option (\<lambda>(x, r'). (key, x, r')) (Load_ids n2 (ID v) r)
      | _ \<Rightarrow> None)"

text \<open>One pass of the loop over the leaves: \<open>keyPrev\<close> is the key of the pass before.\<close>

fun Load_loop :: "nat \<Rightarrow> bytes option \<Rightarrow> (LeafIDs, 'h::zero) Tree \<Rightarrow> Item list \<Rightarrow> LoadError + (LeafIDs, 'h) Tree" where
  "Load_loop 0 keyPrev t s = Inr t"
| "Load_loop (Suc n) keyPrev t s =
     (case s of
        KeyV key # r \<Rightarrow>
          if (case keyPrev of None \<Rightarrow> False | Some kp \<Rightarrow> Cmp kp key \<ge> 0) then Inl IncorrectOrder
          else
            (case Load_leaf s of
               None \<Rightarrow> Inl StreamError
             | Some (_, x, r') \<Rightarrow>
                 (case Find t key s_Bits True x of
                    Some (t', cu, True, True) \<Rightarrow> Load_loop n (Some key) t' r'
                  | _ \<Rightarrow> Inl AssertFailed))
      | _ \<Rightarrow> Inl StreamError)"

definition LoadIntenral :: "Item list \<Rightarrow> LoadError + (LeafIDs, 'h::zero) Tree" where
  "LoadIntenral s = (case s of U32 n # r \<Rightarrow> Load_loop (unat n) None None r | _ \<Rightarrow> Inl StreamError)"

subsubsection \<open>The round trip\<close>

lemma iter_all: "iter (\<lambda>p k d s. (s @ g k d, True)) xs s = (s @ concat (map (\<lambda>(p, k, d). g k d) xs), True)"
  by (induction xs arbitrary: s) auto

lemma iter_count: "iter (\<lambda>p k d n. (Suc n, True)) xs m = (m + length xs, True)"
  by (induction xs arbitrary: m) auto

lemma in_bounds_none [simp]: "in_bounds nB b (None, None) k"
  by (simp add: in_bounds_def)

lemma Traverse_all:
  assumes "wf_tree nB t"
  shows "fst (Traverse (\<lambda>pp k d s. (s @ g k d, True)) t (None, None) []) = concat (map (\<lambda>(k, d). g k d) (tree_leaves t))"
    and "Count t = length (tree_leaves t)"
proof -
  have M: "map (\<lambda>(p, k, d). g k d) (pleaves [] n) = map (\<lambda>(k, d). g k d) (leaves n)" for n
  proof -
    have "map (\<lambda>(p, k, d). g k d) xs = map (\<lambda>(k, d). g k d) (map snd xs)" for xs :: "(bool list \<times> bytes \<times> 'a) list"
      by (induction xs) auto
    then show ?thesis by (simp only: snd_pleaves)
  qed
  have L: "length (pleaves [] n) = length (leaves n)" for n
    by (metis length_map snd_pleaves)
  show "fst (Traverse (\<lambda>pp k d s. (s @ g k d, True)) t (None, None) []) = concat (map (\<lambda>(k, d). g k d) (tree_leaves t))"
    using assms by (cases t) (simp_all add: Traverse_def tree_simps Traverse_node_spec iter_all M)
  show "Count t = length (tree_leaves t)"
    using assms by (cases t) (simp_all add: Count_def Traverse_def tree_simps Traverse_node_spec iter_count L)
qed

text \<open>The stack comes back upside down.\<close>

definition rev_ids :: "LeafIDs \<Rightarrow> LeafIDs" where
  "rev_ids x = (case x of ID v \<Rightarrow> ID v | IDs q \<Rightarrow> IDs (q\<lparr>m_pTop := rev (m_pTop q)\<rparr>))"

lemma rev_ids: "ids_ok x \<Longrightarrow> ids_ok (rev_ids x) \<and> ids (rev_ids x) = rev (ids x)" "get_Count (rev_ids x) = get_Count x"
  by (cases x; simp add: rev_ids_def leaf_defs)+

lemma SaveLeaf_ids: "SaveLeaf key x = KeyV key # U32 (get_Count x) # map U64 (ids x)"
  by (cases x) (simp_all add: SaveLeaf_def ids_def)

lemma Load_ids_spec:
  assumes "ids_ok x" and "length (ids x) + length vs < 2 ^ 32"
  shows "\<exists>y. Load_ids (of_nat (Suc (length vs))) x (map U64 vs @ r) = Some (y, r) \<and> ids_ok y \<and> ids y = rev vs @ ids x"
  using assms
proof (induction vs arbitrary: x)
  case Nil
  then show ?case by (subst Load_ids.simps) simp
next
  case (Cons v vs)
  have nz: "(of_nat (Suc (length vs)) :: u32) \<noteq> 0"
    using u32_nat_eq [of "Suc (length vs)" 0] Cons.prems(2) by simp
  have P: "ids_ok (PushID v x)" "ids (PushID v x) = v # ids x" using PushID_spec [OF Cons.prems(1), of v] Cons.prems(2) by simp_all
  from Cons.IH [OF P(1)] P(2) Cons.prems(2) obtain y where
    Y: "Load_ids (of_nat (Suc (length vs))) (PushID v x) (map U64 vs @ r) = Some (y, r)" "ids_ok y" "ids y = rev vs @ v # ids x" by auto
  have "(of_nat (Suc (length (v # vs))) :: u32) - 1 = of_nat (Suc (length vs))" by simp
  then have "Load_ids (of_nat (Suc (length (v # vs)))) x (map U64 (v # vs) @ r) = Load_ids (of_nat (Suc (length vs))) (PushID v x) (map U64 vs @ r)"
    using nz by (subst Load_ids.simps) (simp only: if_False list.map append_Cons list.case Item.case)
  then show ?case using Y by simp
qed

lemma Load_leaf_Save:
  assumes "ids_ok x"
  shows "Load_leaf (SaveLeaf key x @ r) = Some (key, rev_ids x, r)"
proof -
  obtain v vs where l: "ids x = v # vs" using length_ids [OF assms] by (cases "ids x") auto
  have c: "get_Count x = of_nat (Suc (length vs))" using get_Count_ids [OF assms] l by simp
  obtain y where Y: "Load_ids (of_nat (Suc (length vs))) (ID v) (map U64 vs @ r) = Some (y, r)" "ids_ok y" "ids y = rev vs @ [v]"
    using Load_ids_spec [of "ID v" vs r] length_ids [OF assms] l by (auto simp: leaf_defs)
  have "y = rev_ids x" using ids_inject [OF Y(2), of "rev_ids x"] rev_ids(1) [OF assms] Y(3) l by simp
  then show ?thesis using Y(1) by (simp only: SaveLeaf_ids l c Load_leaf_def list.map append_Cons list.case Item.case option.map prod.case)
qed

text \<open>Loading the saved leaves one by one, in ascending order, builds a tree of them.\<close>

lemma Cmp_of_bval:
  assumes "length k = 41" "length k' = 41" "bval k 0 321 < bval k' 0 321"
  shows "Cmp k k' < 0"
proof -
  have "be_val x = bval x 0 321 * 2 ^ 7 + bval x 321 7" if "length x = 41" for x
    using bval_split [of x 0 321 7] bval_be_val [of x] that by simp
  then have "be_val k < be_val k'" using assms bval_less [of k 321 7] bval_less [of k' 321 7] by simp
  then show ?thesis by (simp add: Cmp_sgn)
qed

lemma fresh_sorted:
  assumes "\<forall>(k', d) \<in> E. bval k' 0 nB < bval k 0 nB"
  shows "fresh nB k E"
  unfolding fresh_def
proof
  fix x assume "x \<in> fst ` E"
  then have "bval x 0 nB < bval k 0 nB" using assms by auto
  then show "\<not> agree nB x k" using bval_agree [of 0 nB x k] by (auto simp: agree_def)
qed

lemma Load_loop_Save:
  assumes "tree_inv hp lh 321 t" and "\<forall>(k, x) \<in> set ls. ids_ok x \<and> length k = 41"
    and "sorted_wrt (\<lambda>a b. bval (fst a) 0 321 < bval (fst b) 0 321) ls"
    and "\<forall>(k, x) \<in> set ls. \<forall>(k', x') \<in> elems t. bval k' 0 321 < bval k 0 321"
    and "case kp of None \<Rightarrow> True | Some p \<Rightarrow> length p = 41 \<and> (\<forall>(k, x) \<in> set ls. bval p 0 321 < bval k 0 321)"
  shows "\<exists>t'. Load_loop (length ls) kp t (concat (map (\<lambda>(k, x). SaveLeaf k x) ls)) = Inr t' \<and>
    tree_inv hp lh 321 t' \<and> elems t' = elems t \<union> (\<lambda>(k, x). (k, rev_ids x)) ` set ls"
  using assms
proof (induction ls arbitrary: t kp)
  case (Cons a ls)
  obtain k x where a: "a = (k, x)" by (cases a)
  have kx: "ids_ok x" "length k = 41" using Cons.prems(2) a by auto
  have fr: "fresh 321 k (elems t)" using Cons.prems(4) a by (intro fresh_sorted) auto
  from Find_fresh [OF Cons.prems(1) fr, of "rev_ids x"] obtain t1 cu where
    T: "Find t k 321 True (rev_ids x) = Some (t1, cu, True, True)" "tree_inv hp lh 321 t1" "elems t1 = insert (k, rev_ids x) (elems t)"
    by blast
  have ord: "\<not> (case kp of None \<Rightarrow> False | Some p \<Rightarrow> Cmp p k \<ge> 0)"
  proof (cases kp)
    case (Some p)
    then show ?thesis using Cmp_of_bval [of p k] kx(2) Cons.prems(5) a by simp
  qed simp
  have later: "bval k 0 321 < bval k' 0 321" if "(k', x') \<in> set ls" for k' x' using Cons.prems(3) a that by force
  have "\<exists>t'. Load_loop (length ls) (Some k) t1 (concat (map (\<lambda>(k, x). SaveLeaf k x) ls)) = Inr t' \<and>
    tree_inv hp lh 321 t' \<and> elems t' = elems t1 \<union> (\<lambda>(k, x). (k, rev_ids x)) ` set ls"
    using Cons.prems later kx(2) by (intro Cons.IH T(2)) (auto simp: T(3))
  then obtain t' where t': "Load_loop (length ls) (Some k) t1 (concat (map (\<lambda>(k, x). SaveLeaf k x) ls)) = Inr t'"
    "tree_inv hp lh 321 t'" "elems t' = elems t1 \<union> (\<lambda>(k, x). (k, rev_ids x)) ` set ls" by blast
  let ?r = "concat (map (\<lambda>(k, x). SaveLeaf k x) ls)"
  obtain r0 where r0: "SaveLeaf k x @ ?r = KeyV k # r0" by (simp add: SaveLeaf_ids)
  have "Load_loop (length (a # ls)) kp t (concat (map (\<lambda>(k, x). SaveLeaf k x) (a # ls))) = Load_loop (Suc (length ls)) kp t (KeyV k # r0)"
    by (simp add: a r0)
  also have "\<dots> = Load_loop (length ls) (Some k) t1 ?r"
    using ord T(1) Load_leaf_Save [OF kx(1), of k ?r, unfolded r0]
    by (simp only: Load_loop.simps list.case Item.case if_False option.case prod.case bool.case s_simps)
  finally show ?case using t' T(3) a by auto
qed simp

text \<open>The hash does not see the identifiers, only their number.\<close>

lemma map_leaves [simp]: "leaves (map_RNode f id n) = map (apsnd f) (leaves n)"
  by (induction n) auto

lemma map_keys: "fst ` set (leaves (map_RNode f id n)) = keys n"
  by (force simp: image_iff)

lemma map_NodeKey [simp]: "get_NodeKey (map_RNode f id n) = get_NodeKey n"
  by (cases n) simp_all

lemma wf_map: "wf_node nB b n \<Longrightarrow> wf_node nB b (map_RNode f id n)"
  by (induction nB b n rule: wf_node.induct) (simp_all add: image_image)

lemma map_Clean [simp]: "m_Clean (map_RNode f id n) = m_Clean n"
  by (cases n) simp_all

lemma rhash_map: "rhash hp lh (map_RNode f id n) = rhash hp (\<lambda>k d. lh k (f d)) n"
  by (induction n) simp_all

lemma cache_map: "cache_ok hp (\<lambda>k d. lh k (f d)) n \<Longrightarrow> cache_ok hp lh (map_RNode f id n)"
  by (induction n) (simp_all add: rhash_map)

definition map_tree :: "('d \<Rightarrow> 'e) \<Rightarrow> ('d, 'h) Tree \<Rightarrow> ('e, 'h) Tree" where
  "map_tree f = map_option (map_RNode f id)"

lemma elems_map: "elems (map_tree f t) = apsnd f ` elems t"
  by (cases t) (simp_all add: map_tree_def tree_simps)

lemma tree_inv_map: "tree_inv hp (\<lambda>k d. lh k (f d)) nB t \<Longrightarrow> tree_inv hp lh nB (map_tree f t)"
  by (cases t) (simp_all add: map_tree_def tree_inv_def tree_simps wf_map cache_map)

lemma root_hash_map:
  assumes "tree_inv hp (\<lambda>k d. lh k (f d)) nB t"
  shows "root_hash hp lh (map_tree f t) = root_hash hp (\<lambda>k d. lh k (f d)) t"
  using get_Hash_spec [OF assms] get_Hash_spec [OF tree_inv_map [of hp lh f, OF assms]]
  by (cases t) (simp_all add: map_tree_def rhash_map)

text \<open>A saved tree loads, as a tree of the same keys with their stacks reversed and the same root hash.\<close>

lemma Load_Save:
  assumes "tree_inv hp (LeafHash lh) 321 t" and "\<forall>(k, x) \<in> elems t. ids_ok x \<and> length k = 41"
    and "length (tree_leaves t) < 2 ^ 32"
  shows "\<exists>t'. LoadIntenral (SaveIntenral t) = Inr t' \<and> tree_inv hp (LeafHash lh) 321 t' \<and>
    elems t' = apsnd rev_ids ` elems t \<and> root_hash hp (LeafHash lh) t' = root_hash hp (LeafHash lh) t"
proof -
  have wf: "wf_tree 321 t" using assms(1) by (simp add: tree_inv_def)
  have srt: "sorted_wrt (\<lambda>a b. bval (fst a) 0 321 < bval (fst b) 0 321) (tree_leaves t)"
    using wf leaves_sorted [of 321 0] by (cases t) (simp_all add: tree_simps)
  have e: "tree_inv hp (LeafHash lh) 321 None" by (simp add: tree_inv_def tree_simps)
  have "\<exists>t'. Load_loop (length (tree_leaves t)) None None (concat (map (\<lambda>(k, x). SaveLeaf k x) (tree_leaves t))) = Inr t' \<and>
      tree_inv hp (LeafHash lh) 321 t' \<and> elems t' = elems None \<union> (\<lambda>(k, x). (k, rev_ids x)) ` elems t"
    using Load_loop_Save [OF e assms(2) srt] by (simp add: tree_simps)
  then obtain t' where T: "Load_loop (length (tree_leaves t)) None None (concat (map (\<lambda>(k, x). SaveLeaf k x) (tree_leaves t))) = Inr t'"
    "tree_inv hp (LeafHash lh) 321 t'" "elems t' = apsnd rev_ids ` elems t" by (auto simp: tree_simps apsnd_def map_prod_def)
  have L: "LeafHash lh = (\<lambda>k d. LeafHash lh k (rev_ids d))" by (simp add: LeafHash_def rev_ids fun_eq_iff)
  have I: "tree_inv hp (\<lambda>k d. LeafHash lh k (rev_ids d)) 321 t" using assms(1) by (simp only: L [symmetric])
  have "root_hash hp (LeafHash lh) t' = root_hash hp (LeafHash lh) (map_tree rev_ids t)"
    using root_hash_canonical [OF T(2) tree_inv_map [of hp "LeafHash lh", OF I]] T(3) elems_map [of rev_ids t] by simp
  also have "\<dots> = root_hash hp (LeafHash lh) t"
    using root_hash_map [of hp "LeafHash lh", OF I] by (simp only: L [symmetric])
  finally have R: "root_hash hp (LeafHash lh) t' = root_hash hp (LeafHash lh) t" .
  have "LoadIntenral (SaveIntenral t) = Inr t'"
    using T(1) assms(3) by (simp add: LoadIntenral_def SaveIntenral_def Traverse_all [OF wf] unsigned_of_nat take_bit_nat_eq_self)
  then show ?thesis using T(2,3) R by blast
qed

subsection \<open>The compact builder\<close>

text \<open>
  \<open>Compact\<close> keeps, of the tree of the keys added so far, only the subtrees along the right edge: a
  vector of their hashes (here with the back of the vector first), each with the number of bits it
  shares with its predecessor.
\<close>

record 'h Compact =
  m_vNodes :: "('h \<times> nat) list"
  m_LastKey :: bytes
  m_LastCount :: u32

definition Compact_new :: "'h Compact" where
  "Compact_new = \<lparr>m_vNodes = [], m_LastKey = [], m_LastCount = 0\<rparr>"

fun Flush_loop :: "('h \<Rightarrow> 'h \<Rightarrow> 'h) \<Rightarrow> nat \<Rightarrow> ('h \<times> nat) list \<Rightarrow> ('h \<times> nat) list" where
  "Flush_loop hp nBitsCommonNext (n1 # n0 # r) =
     (if snd n1 < nBitsCommonNext then n1 # n0 # r else Flush_loop hp nBitsCommonNext ((hp (fst n0) (fst n1), snd n0) # r))"
| "Flush_loop hp nBitsCommonNext ns = ns"

definition FlushInternal :: "('h \<Rightarrow> 'h \<Rightarrow> 'h) \<Rightarrow> (bytes \<Rightarrow> u32 \<Rightarrow> 'h) \<Rightarrow> nat \<Rightarrow> 'h Compact \<Rightarrow> 'h Compact" where
  "FlushInternal hp lh nBitsCommonNext c =
     (let c1 = (if m_LastCount c \<noteq> 0
                then c\<lparr>m_vNodes := (case m_vNodes c of [] \<Rightarrow> [] | n # r \<Rightarrow> (lh (m_LastKey c) (m_LastCount c), snd n) # r),
                       m_LastCount := 0\<rparr>
                else c)
      in c1\<lparr>m_vNodes := Flush_loop hp nBitsCommonNext (m_vNodes c1)\<rparr>)"

definition Compact_Add :: "('h::zero \<Rightarrow> 'h \<Rightarrow> 'h) \<Rightarrow> (bytes \<Rightarrow> u32 \<Rightarrow> 'h) \<Rightarrow> bytes \<Rightarrow> 'h Compact \<Rightarrow> 'h Compact \<times> bool" where
  "Compact_Add hp lh key c =
     (if m_vNodes c = [] then (c\<lparr>m_vNodes := [(0, 0)], m_LastKey := key, m_LastCount := 1\<rparr>, True)
      else
        let nCmp = Cmp (m_LastKey c) key
        in if nCmp > 0 then (c, False)
           else if nCmp = 0 then (c\<lparr>m_LastCount := m_LastCount c + 1\<rparr>, m_LastCount c + 1 \<noteq> 0)
           else
             let nOrder = GetOrder (XorSame (m_LastKey c) key);
                 nBitsCommon = 8 * s_Bytes - nOrder;
                 c1 = FlushInternal hp lh nBitsCommon c
             in (c1\<lparr>m_vNodes := (0, nBitsCommon) # m_vNodes c1, m_LastKey := key, m_LastCount := 1\<rparr>, True))"

definition Compact_Flush :: "('h::zero \<Rightarrow> 'h \<Rightarrow> 'h) \<Rightarrow> (bytes \<Rightarrow> u32 \<Rightarrow> 'h) \<Rightarrow> 'h Compact \<Rightarrow> 'h" where
  "Compact_Flush hp lh c = (if m_vNodes c = [] then 0 else fst (last (m_vNodes (FlushInternal hp lh 0 c))))"

text \<open>Adding a sequence of keys; \<open>None\<close> when one is refused.\<close>

fun Compact_AddAll :: "('h::zero \<Rightarrow> 'h \<Rightarrow> 'h) \<Rightarrow> (bytes \<Rightarrow> u32 \<Rightarrow> 'h) \<Rightarrow> bytes list \<Rightarrow> 'h Compact \<Rightarrow> 'h Compact option" where
  "Compact_AddAll hp lh [] c = Some c"
| "Compact_AddAll hp lh (k # ks) c =
     (case Compact_Add hp lh k c of (c1, ok) \<Rightarrow> if ok then Compact_AddAll hp lh ks c1 else None)"

subsubsection \<open>Segments of leaves and their trees\<close>

lemma rebase:
  assumes "wf_node nB b n" and "\<forall>x \<in> keys n. \<forall>y \<in> keys n. agree b' x y" and "b' \<le> nB"
  shows "\<exists>n'. wf_node nB b' n' \<and> leaves n' = leaves n \<and> rhash hp lh n' = rhash hp lh n \<and> get_NodeKey n' = get_NodeKey n"
proof (cases n)
  case (Leaf bs cl k d)
  then show ?thesis using assms(3) by (intro exI [of _ "Leaf (nB - b') cl k d"]) simp
next
  case (Joint bs cl k h l r)
  obtain x y where xy: "x \<in> keys l" "y \<in> keys r" using leaves_nonempty [of l] leaves_nonempty [of r] by (cases "leaves l"; cases "leaves r") auto
  have "b' \<le> b + bs"
  proof (rule ccontr)
    assume "\<not> b' \<le> b + bs"
    then have "get_Bit x (b + bs) = get_Bit y (b + bs)" using assms(2) xy Joint by (intro agreeD [of b']) auto
    then show False using assms(1) xy Joint by auto
  qed
  then show ?thesis using assms(1) Joint by (intro exI [of _ "Joint (b + bs - b') cl k h l r"]) simp
qed

text \<open>\<open>repr h S\<close>: \<open>h\<close> is the hash of a tree of the leaves \<open>S\<close>.\<close>

definition repr :: "('h \<Rightarrow> 'h \<Rightarrow> 'h) \<Rightarrow> (bytes \<Rightarrow> 'd \<Rightarrow> 'h) \<Rightarrow> nat \<Rightarrow> 'h \<Rightarrow> (bytes \<times> 'd) list \<Rightarrow> bool" where
  "repr hp lh nB h S \<longleftrightarrow> (\<exists>n :: ('d, 'h) RNode. wf_node nB 0 n \<and> leaves n = S \<and> rhash hp lh n = h)"

lemma repr_leaf: "repr hp lh nB (lh k d) [(k, d)]"
  unfolding repr_def by (rule exI [of _ "Leaf nB False k d"]) simp

lemma repr_nonempty: "repr hp lh nB h S \<Longrightarrow> S \<noteq> []"
  by (auto simp: repr_def)

lemma repr_join:
  assumes "repr hp lh nB h0 S0" and "repr hp lh nB h1 S1" and "c < nB"
    and cross: "\<forall>x \<in> set S1. \<forall>y \<in> set S0. agree c (fst x) (fst y) \<and> get_Bit (fst x) c \<and> \<not> get_Bit (fst y) c"
  shows "repr hp lh nB (hp h0 h1) (S0 @ S1)"
proof -
  obtain n0 n1 where n: "wf_node nB 0 n0" "leaves n0 = S0" "rhash hp lh n0 = h0" "wf_node nB 0 n1" "leaves n1 = S1" "rhash hp lh n1 = h1"
    using assms(1,2) by (auto simp: repr_def)
  obtain x1 where x1: "x1 \<in> set S1" using n(5) leaves_nonempty [of n1] by (cases S1) auto
  obtain x0 where x0: "x0 \<in> set S0" using n(2) leaves_nonempty [of n0] by (cases S0) auto
  have c0: "agree c (fst x1) x \<and> \<not> get_Bit x c" if "x \<in> fst ` set S0" for x using that cross x1 by auto
  have c1: "agree c x (fst x0) \<and> get_Bit x c" if "x \<in> fst ` set S1" for x using that cross x0 by auto
  have a0: "agree (Suc c) x y" if "x \<in> keys n0" "y \<in> keys n0" for x y
    using that c0 [of x] c0 [of y] agree_trans [OF agree_sym, of c "fst x1" x y] n(2) by (simp add: agree_Suc)
  have a1: "agree (Suc c) x y" if "x \<in> keys n1" "y \<in> keys n1" for x y
    using that c1 [of x] c1 [of y] agree_trans [of c x "fst x0" y] agree_sym [of c y "fst x0"] n(5) by (simp add: agree_Suc)
  obtain m0 where m0: "wf_node nB (Suc c) m0" "leaves m0 = S0" "rhash hp lh m0 = h0"
    using rebase [OF n(1), of "Suc c" hp lh] a0 n(2,3) assms(3) by auto
  obtain m1 where m1: "wf_node nB (Suc c) m1" "leaves m1 = S1" "rhash hp lh m1 = h1"
    using rebase [OF n(4), of "Suc c" hp lh] a1 n(5,6) assms(3) by auto
  have k0: "get_NodeKey m0 \<in> keys m0" by (rule NodeKey_in [OF m0(1)])
  have l: "\<not> get_Bit x c \<and> agree c x (get_NodeKey m0)" if "x \<in> keys m0" for x
    using that c0 [of x] c0 [of "get_NodeKey m0"] k0 agree_trans [OF agree_sym, of c "fst x1" x "get_NodeKey m0"] m0(2) by simp
  have r: "get_Bit x c \<and> agree c x (get_NodeKey m0)" if xk: "x \<in> keys m1" for x
  proof -
    obtain p q where "p \<in> set S1" "x = fst p" "q \<in> set S0" "get_NodeKey m0 = fst q"
      using xk k0 unfolding m0(2) m1(2) by (elim imageE)
    then show ?thesis using cross by simp
  qed
  have "wf_node nB 0 (Joint c False (get_NodeKey m0) h0 m0 m1)" using l r m0(1) m1(1) assms(3) by simp
  moreover have "leaves (Joint c False (get_NodeKey m0) h0 m0 m1) = S0 @ S1" using m0(2) m1(2) by simp
  moreover have "rhash hp lh (Joint c False (get_NodeKey m0) h0 m0 m1) = hp h0 h1" using m0(3) m1(3) by simp
  ultimately show ?thesis unfolding repr_def by blast
qed

subsubsection \<open>The stack of segments\<close>

fun stack_ok :: "('h \<Rightarrow> 'h \<Rightarrow> 'h) \<Rightarrow> (bytes \<Rightarrow> 'd \<Rightarrow> 'h) \<Rightarrow> nat \<Rightarrow> ('h \<times> nat) list \<Rightarrow> (bytes \<times> 'd) list list \<Rightarrow> bool" where
  "stack_ok hp lh nB [(h, c)] [S] \<longleftrightarrow> repr hp lh nB h S"
| "stack_ok hp lh nB ((h1, c1) # (h0, c0) # r) (S1 # S0 # R) \<longleftrightarrow> repr hp lh nB h1 S1 \<and> c1 < nB \<and> (r = [] \<or> c0 < c1) \<and>
     (\<forall>x \<in> set S1. \<forall>y \<in> set S0. agree c1 (fst x) (fst y) \<and> get_Bit (fst x) c1 \<and> \<not> get_Bit (fst y) c1) \<and>
     stack_ok hp lh nB ((h0, c0) # r) (S0 # R)"
| "stack_ok hp lh nB _ _ \<longleftrightarrow> False"

lemma stack_top: "stack_ok hp lh nB ((h, c) # r) (S # R) \<Longrightarrow> repr hp lh nB h S"
  by (cases "(hp, lh, nB, (h, c) # r, S # R)" rule: stack_ok.cases) auto

text \<open>Merging the two topmost segments.\<close>

lemma stack_merge:
  assumes "stack_ok hp lh nB ((h1, c1) # (h0, c0) # r) (S1 # S0 # R)"
  shows "stack_ok hp lh nB ((hp h0 h1, c0) # r) ((S0 @ S1) # R)"
proof -
  have A: "repr hp lh nB h1 S1" "c1 < nB" "r = [] \<or> c0 < c1" "stack_ok hp lh nB ((h0, c0) # r) (S0 # R)"
    and cross: "\<forall>x \<in> set S1. \<forall>y \<in> set S0. agree c1 (fst x) (fst y) \<and> get_Bit (fst x) c1 \<and> \<not> get_Bit (fst y) c1"
    using assms by auto
  note r0 = stack_top [OF A(4)]
  note J = repr_join [OF r0 A(1,2) cross]
  show ?thesis
  proof (cases r)
    case Nil
    then have "R = []" using A(4) by (cases R) auto
    then show ?thesis using Nil J by simp
  next
    case (Cons n r')
    obtain h c where n: "n = (h, c)" by (cases n)
    obtain S R' where R: "R = S # R'" using A(4) Cons n by (cases R) auto
    have B: "c0 < nB" "r' = [] \<or> c < c0" "stack_ok hp lh nB ((h, c) # r') (S # R')"
      "\<forall>x \<in> set S0. \<forall>y \<in> set S. agree c0 (fst x) (fst y) \<and> get_Bit (fst x) c0 \<and> \<not> get_Bit (fst y) c0"
      using A(4) Cons n R by auto
    have lt: "c0 < c1" using A(3) Cons by simp
    obtain x0 where x0: "x0 \<in> set S0" using repr_nonempty [OF r0] by (cases S0) auto
    have "agree c0 (fst x) (fst y) \<and> get_Bit (fst x) c0 \<and> \<not> get_Bit (fst y) c0" if "x \<in> set S1" "y \<in> set S" for x y
    proof -
      have a: "agree c1 (fst x) (fst x0)" using cross that(1) x0 by blast
      have b: "agree c0 (fst x0) (fst y)" "get_Bit (fst x0) c0" "\<not> get_Bit (fst y) c0" using B(4) that(2) x0 by blast+
      from agree_trans [OF agree_mono [OF a, of c0] b(1)] agreeD [OF a lt] b(2,3) lt show ?thesis by simp
    qed
    then show ?thesis using Cons n R J B by auto
  qed
qed

text \<open>
  The loop that merges for a key sharing \<open>next\<close> bits with the last: afterwards all leaves on top agree
  with the last key on those bits and have the next bit clear.
\<close>

lemma Flush_loop_spec:
  assumes "stack_ok hp lh nB ((h, c) # r) (S # R)"
    and "\<forall>y \<in> set S. agree nx (fst y) L \<and> \<not> get_Bit (fst y) nx"
  shows "\<exists>h' c' r' S' R'. Flush_loop hp nx ((h, c) # r) = (h', c') # r' \<and> stack_ok hp lh nB ((h', c') # r') (S' # R') \<and>
    (\<forall>y \<in> set S'. agree nx (fst y) L \<and> \<not> get_Bit (fst y) nx) \<and> (r' = [] \<or> c' < nx) \<and> concat (rev (S' # R')) = concat (rev (S # R))"
  using assms
proof (induction "length r" arbitrary: h c r S R)
  case 0
  then show ?case by (intro exI [of _ h] exI [of _ c] exI [of _ r] exI [of _ S] exI [of _ R]) simp
next
  case (Suc m)
  obtain n0 r0 where r: "r = n0 # r0" using Suc.hyps(2) by (cases r) auto
  obtain h0 c0 where n0: "n0 = (h0, c0)" by (cases n0)
  obtain S0 R0 where R: "R = S0 # R0" using Suc.prems(1) r n0 by (cases R) auto
  show ?case
  proof (cases "c < nx")
    case True
    then show ?thesis using Suc.prems r by (intro exI [of _ h] exI [of _ c] exI [of _ r] exI [of _ S] exI [of _ R]) simp
  next
    case False
    have cross: "\<forall>x \<in> set S. \<forall>y \<in> set S0. agree c (fst x) (fst y) \<and> get_Bit (fst x) c \<and> \<not> get_Bit (fst y) c"
      and rp: "repr hp lh nB h S" and st: "stack_ok hp lh nB ((h0, c0) # r0) (S0 # R0)" using Suc.prems(1) by (simp_all add: r n0 R)
    obtain x where x: "x \<in> set S" using repr_nonempty [OF rp] by (cases S) auto
    obtain y0 where "y0 \<in> set S0" using repr_nonempty [OF stack_top [OF st]] by (cases S0) auto
    then have "get_Bit (fst x) c" using cross x by blast
    then have "c \<noteq> nx" using Suc.prems(2) x by blast
    have y: "agree nx (fst y) L \<and> \<not> get_Bit (fst y) nx" if "y \<in> set S0" for y
    proof -
      have a: "agree c (fst x) (fst y)" using cross that x by blast
      have b: "agree nx (fst x) L" "\<not> get_Bit (fst x) nx" using Suc.prems(2) x by blast+
      have "nx < c" using False \<open>c \<noteq> nx\<close> by simp
      from agree_trans [OF agree_sym [OF agree_mono [OF a, of nx]] b(1)] agreeD [OF a this] b(2) this show ?thesis by simp
    qed
    have "Flush_loop hp nx ((h, c) # r) = Flush_loop hp nx ((hp h0 h, c0) # r0)" using False by (simp add: r n0)
    moreover have "concat (rev ((S0 @ S) # R0)) = concat (rev (S # R))" by (simp add: R)
    moreover have "\<forall>z \<in> set (S0 @ S). agree nx (fst z) L \<and> \<not> get_Bit (fst z) nx" using y Suc.prems(2) by auto
    ultimately show ?thesis
      using Suc.hyps(1) [of r0 "hp h0 h" c0 "S0 @ S" R0] stack_merge [of hp lh nB h c h0 c0 r0 S S0 R0] Suc.prems(1) Suc.hyps(2)
      by (simp add: r n0 R del: Flush_loop.simps stack_ok.simps)
  qed
qed

lemma Flush_all:
  assumes "stack_ok hp lh nB ((h, c) # r) (S # R)"
  shows "\<exists>h' c'. Flush_loop hp 0 ((h, c) # r) = [(h', c')] \<and> repr hp lh nB h' (concat (rev (S # R)))"
  using assms
proof (induction r arbitrary: h c S R)
  case Nil
  then show ?case by (cases R) auto
next
  case (Cons n0 r)
  obtain h0 c0 where n0: "n0 = (h0, c0)" by (cases n0)
  obtain S0 R0 where R: "R = S0 # R0" using Cons.prems n0 by (cases R) auto
  from Cons.IH [OF stack_merge [OF Cons.prems [unfolded n0 R]]] show ?case by (simp add: n0 R)
qed

subsubsection \<open>Common bits of two keys\<close>

definition key_ok :: "bytes \<Rightarrow> bool" where
  "key_ok k \<longleftrightarrow> length k = 41 \<and> (\<forall>i. 321 \<le> i \<longrightarrow> i < 328 \<longrightarrow> \<not> get_Bit k i)"

lemma key_ok_Key: "length (kd_X d) = 32 \<Longrightarrow> key_ok (Key_of_Data d)"
  by (auto simp: key_ok_def get_Bit_Key(2) tail_bit_def)

lemma get_Bit_Xor:
  assumes "length a = length b" and "i < 8 * length a"
  shows "get_Bit (XorSame a b) i = (get_Bit a i \<noteq> get_Bit b i)"
proof -
  have "i div 8 < length a" using assms(2) by simp
  then show ?thesis using assms by (simp add: get_Bit_bit XorSame_def bit_xor_iff)
qed

lemma common_bits:
  assumes "key_ok a" "key_ok b" and "Cmp a b < 0"
  defines "nb \<equiv> 8 * s_Bytes - GetOrder (XorSame a b)"
  shows "nb < 321 \<and> agree nb a b \<and> \<not> get_Bit a nb \<and> get_Bit b nb"
proof -
  let ?x = "XorSame a b" and ?o = "GetOrder (XorSame a b)"
  have len: "length a = 41" "length b = 41" "length ?x = 41" using assms(1,2) by (simp_all add: key_ok_def XorSame_def)
  have lt: "be_val a < be_val b" using assms(3) by (simp add: Cmp_sgn sgn_nat_diff split: if_splits)
  have X: "get_Bit ?x i = (get_Bit a i \<noteq> get_Bit b i)" if "i < 328" for i using get_Bit_Xor [of a b i] len that by simp
  have "a \<noteq> b" using lt by auto
  have nz: "be_val ?x \<noteq> 0"
  proof
    assume z: "be_val ?x = 0"
    have "agree 328 a b" unfolding agree_def
    proof (intro allI impI)
      fix i :: nat assume "i < 328"
      then show "get_Bit a i = get_Bit b i" using X get_Bit_be_val [of i ?x] len z by simp
    qed
    then have "bval a 0 328 = bval b 0 328" by (intro bval_agree) (simp add: agree_def)
    then show False using lt bval_be_val [of a] bval_be_val [of b] len by simp
  qed
  note B = GetOrder_bounds [OF nz]
  have o0: "?o \<noteq> 0" using nz GetOrder_zero_iff by simp
  have "(2 :: nat) ^ (?o - 1) < 2 ^ 328" using B be_val_less [of ?x] len pow256 [of 41] by simp
  then have o1: "?o \<le> 328" using power_less_imp_less_exp [of "2 :: nat" "?o - 1" 328] by simp
  have nb: "nb = 328 - ?o" by (simp add: nb_def)
  have G: "get_Bit ?x i = odd (be_val ?x div 2 ^ (327 - i))" if "i < 328" for i
    using get_Bit_be_val [of i ?x] len that by (simp add: bit_iff_odd)
  have low: "\<not> get_Bit ?x i" if "i < nb" for i
  proof -
    have "(2 :: nat) ^ ?o \<le> 2 ^ (327 - i)" using that nb o0 by (intro power_increasing) auto
    then have "be_val ?x < 2 ^ (327 - i)" using B by linarith
    then show ?thesis using G [of i] that nb by simp
  qed
  have "be_val ?x div 2 ^ (?o - 1) = 1"
  proof (rule div_nat_eqI)
    show "be_val ?x < 2 ^ (?o - 1) * Suc 1" using B o0 by (cases ?o) simp_all
  qed (use B in simp)
  moreover have "327 - nb = ?o - 1" "nb < 328" using nb o0 o1 by simp_all
  ultimately have hi: "get_Bit ?x nb" using G [of nb] by simp
  have agr: "agree nb a b" unfolding agree_def using low X nb by auto
  have df: "get_Bit a nb \<noteq> get_Bit b nb" using hi X [of nb] \<open>nb < 328\<close> by simp
  have "Cmp_bits a b 0 nb = Cmp_bits b b 0 nb" using agr by (intro Cmp_bits_agree) (simp add: agree_def)
  then have "Cmp_bits a b 0 nb = 0" by (simp add: Cmp_bits_sgn)
  then have "Cmp_bits a b 0 (nb + Suc (327 - nb)) = cmp_bit (get_Bit a nb) (get_Bit b nb)"
  proof -
    assume z: "Cmp_bits a b 0 nb = 0"
    have "Cmp_bits a b 0 (nb + Suc (327 - nb)) = Cmp_bits a b nb (Suc (327 - nb))"
      by (simp only: Cmp_bits_split [of a b 0 nb] z add_0) simp
    also have "\<dots> = cmp_bit (get_Bit a nb) (get_Bit b nb)" using df by (simp add: cmp_bit_def)
    finally show ?thesis .
  qed
  moreover have "Cmp_bits a b 0 328 = - 1"
    using lt bval_be_val [of a] bval_be_val [of b] len by (simp add: Cmp_bits_sgn sgn_nat_diff)
  moreover have "nb + Suc (327 - nb) = 328" using \<open>nb < 328\<close> by simp
  ultimately have "\<not> get_Bit a nb \<and> get_Bit b nb" using df by (auto simp: cmp_bit_def split: if_splits)
  moreover have "nb < 321" using df assms(1,2) \<open>nb < 328\<close> by (auto simp: key_ok_def not_less [symmetric])
  ultimately show ?thesis using agr by simp
qed

subsubsection \<open>The builder computes the root of the tree\<close>

text \<open>The runs of equal keys in a sequence, the last key first.\<close>

fun rle :: "'k list \<Rightarrow> ('k \<times> nat) list" where
  "rle [] = []"
| "rle (k # ks) = (case rle ks of [] \<Rightarrow> [(k, 1)] | (k', n) # r \<Rightarrow> if k = k' then (k, Suc n) # r else (k, 1) # (k', n) # r)"

lemma rle_hd: "rle (k # ks) = (k', n) # r \<Longrightarrow> k' = k \<and> 0 < n \<and> n \<le> Suc (length ks)"
proof (induction ks arbitrary: k k' n r)
  case (Cons a ks)
  obtain m s where "rle (a # ks) = (a, m) # s" "m \<le> Suc (length ks)"
    using Cons.IH [of a] by (cases "rle (a # ks)") (auto split: list.splits if_splits prod.splits)
  then show ?case using Cons.prems by (auto simp del: rle.simps(2) simp: rle.simps(2) [of k "a # ks"] split: if_splits)
qed auto

lemma rle_sorted:
  assumes "sorted_wrt (\<lambda>a b. v b \<le> (v a :: nat)) ks" and "inj_on v (set ks)"
  shows "distinct (map fst (rle ks)) \<and> set (rle ks) = (\<lambda>k. (k, count_list ks k)) ` set ks"
  using assms
proof (induction ks)
  case (Cons k ks)
  have IH: "distinct (map fst (rle ks))" "set (rle ks) = (\<lambda>k. (k, count_list ks k)) ` set ks"
    using Cons by (auto simp: inj_on_def)
  show ?case
  proof (cases ks)
    case (Cons a ks')
    obtain n r where r: "rle ks = (a, n) # r" using rle_hd [of a ks'] Cons by (cases "rle (a # ks')") (auto split: list.splits if_splits prod.splits)
    have n: "n = count_list ks a" using IH(2) r by auto
    have S: "set r = (\<lambda>k. (k, count_list ks k)) ` (set ks - {a})"
    proof -
      have "set r = set (rle ks) - {(a, n)}" using IH(1) r by force
      then show ?thesis using IH(2) n by auto
    qed
    show ?thesis
    proof (cases "k = a")
      case True
      have "(\<lambda>x. (x, count_list (k # ks) x)) ` set (k # ks) =
          insert (k, Suc (count_list ks k)) ((\<lambda>x. (x, count_list (k # ks) x)) ` (set ks - {k}))"
      proof -
        have "set (k # ks) = insert k (set ks - {k})" by auto
        then show ?thesis by (simp only: image_insert) simp
      qed
      also have "(\<lambda>x. (x, count_list (k # ks) x)) ` (set ks - {k}) = (\<lambda>x. (x, count_list ks x)) ` (set ks - {k})"
        by (intro image_cong) auto
      finally have "(\<lambda>x. (x, count_list (k # ks) x)) ` set (k # ks) = insert (k, Suc n) (set r)" using True n S by simp
      moreover have "rle (k # ks) = (k, Suc n) # r" using r True by simp
      ultimately show ?thesis using IH(1) r True by (simp del: rle.simps count_list.simps)
    next
      case False
      have "k \<notin> set ks"
      proof
        assume k: "k \<in> set ks"
        then have "v k \<le> v a" "v a \<le> v k" using Cons Cons.prems(1) by auto
        then show False using False k Cons Cons.prems(2) by (auto simp: inj_on_def)
      qed
      then have "(\<lambda>x. (x, count_list (k # ks) x)) ` set ks = (\<lambda>x. (x, count_list ks x)) ` set ks"
        by (intro image_cong) auto
      moreover have "rle (k # ks) = (k, 1) # rle ks" using r False by simp
      moreover have "fst ` set (rle ks) = set ks" unfolding IH(2) image_image by simp
      moreover have "count_list (k # ks) k = 1" using \<open>k \<notin> set ks\<close> by simp
      ultimately show ?thesis using IH \<open>k \<notin> set ks\<close> by (simp del: rle.simps count_list.simps)
    qed
  qed simp
qed simp

text \<open>
  After the keys \<open>ks\<close>: the segments hold each key with its number of occurrences, the last of them
  being the pending leaf on top.
\<close>

definition compact_ok :: "('h \<Rightarrow> 'h \<Rightarrow> 'h) \<Rightarrow> (bytes \<Rightarrow> u32 \<Rightarrow> 'h) \<Rightarrow> bytes list \<Rightarrow> 'h Compact \<Rightarrow> bool" where
  "compact_ok hp lh ks c \<longleftrightarrow>
     (\<exists>h0 c0 r R. m_vNodes c = (h0, c0) # r \<and> m_LastCount c \<noteq> 0 \<and> ks \<noteq> [] \<and> m_LastKey c = last ks \<and>
        stack_ok hp lh 321 ((lh (m_LastKey c) (m_LastCount c), c0) # r) ([(m_LastKey c, m_LastCount c)] # R) \<and>
        concat (rev ([(m_LastKey c, m_LastCount c)] # R)) = rev (map (apsnd of_nat) (rle (rev ks))))"

lemma compact_okI:
  assumes "m_vNodes c = (h0, c0) # r" "m_LastCount c \<noteq> 0" "ks \<noteq> []" "m_LastKey c = last ks"
    "stack_ok hp lh 321 ((lh (m_LastKey c) (m_LastCount c), c0) # r) ([(m_LastKey c, m_LastCount c)] # R)"
    "concat (rev ([(m_LastKey c, m_LastCount c)] # R)) = rev (map (apsnd of_nat) (rle (rev ks)))"
  shows "compact_ok hp lh ks c"
  unfolding compact_ok_def using assms by blast

lemma stack_pending:
  assumes "stack_ok hp lh nB ((h, c) # r) ([(k, d)] # R)"
  shows "stack_ok hp lh nB ((lh k d', c) # r) ([(k, d')] # R)"
proof (cases r)
  case Nil
  then show ?thesis using assms repr_leaf [of hp lh nB k d'] by (cases R) auto
next
  case (Cons n r')
  then obtain h0 c0 S0 R0 where "r = (h0, c0) # r'" "R = S0 # R0" using assms by (cases n; cases R) auto
  then show ?thesis using assms repr_leaf [of hp lh nB k d'] by simp
qed

lemma Compact_Add_first:
  assumes "m_vNodes c = []"
  shows "\<exists>c'. Compact_Add hp lh k c = (c', True) \<and> compact_ok hp lh [k] c'"
proof (intro exI conjI)
  show "Compact_Add hp lh k c = (c\<lparr>m_vNodes := [(0, 0)], m_LastKey := k, m_LastCount := 1\<rparr>, True)"
    using assms by (simp add: Compact_Add_def)
  show "compact_ok hp lh [k] (c\<lparr>m_vNodes := [(0, 0)], m_LastKey := k, m_LastCount := 1\<rparr>)"
    using repr_leaf [of hp lh 321 k "1 :: u32"] by (intro compact_okI [of _ 0 0 "[]" _ hp lh "[]"]) simp_all
qed

lemma of_nat_Suc_nz: "Suc n < 2 ^ 32 \<Longrightarrow> (of_nat n :: u32) + 1 \<noteq> 0"
  using u32_nat_eq [of "Suc n" 0] by (simp add: add.commute)

lemma Compact_Add_same:
  assumes "compact_ok hp lh ks c" and "Cmp (m_LastKey c) k = 0" and "length k = length (m_LastKey c)" and "Suc (length ks) < 2 ^ 32"
  shows "\<exists>c'. Compact_Add hp lh k c = (c', True) \<and> compact_ok hp lh (ks @ [k]) c'"
proof -
  from assms(1) obtain h0 c0 r R where C: "m_vNodes c = (h0, c0) # r" "m_LastCount c \<noteq> 0" "ks \<noteq> []" "m_LastKey c = last ks"
    "stack_ok hp lh 321 ((lh (m_LastKey c) (m_LastCount c), c0) # r) ([(m_LastKey c, m_LastCount c)] # R)"
    "concat (rev ([(m_LastKey c, m_LastCount c)] # R)) = rev (map (apsnd of_nat) (rle (rev ks)))"
    unfolding compact_ok_def by blast
  have "be_val (m_LastKey c) = be_val k" using assms(2) by (simp add: Cmp_sgn sgn_nat_diff split: if_splits)
  then have k: "m_LastKey c = k" using be_val_inject assms(3) by metis
  obtain ks' where ks: "rev ks = k # ks'" using C(3,4) k by (cases "rev ks") (auto simp: hd_rev [symmetric])
  obtain n q where q: "rle (rev ks) = (k, n) # q"
    using C(6) rle_hd [of k ks'] ks by (cases "rle (rev ks)") auto
  then have n: "n \<le> length ks" using rle_hd [of k ks' k n q] ks by (metis length_Cons length_rev)
  have L: "m_LastCount c = of_nat n" "concat (rev R) = rev (map (apsnd of_nat) q)" using C(6) q k by auto
  have nz: "m_LastCount c + 1 \<noteq> 0" unfolding L(1) using n assms(4) by (intro of_nat_Suc_nz) simp
  let ?c = "c\<lparr>m_LastCount := m_LastCount c + 1\<rparr>"
  have "Compact_Add hp lh k c = (?c, True)" using C(1) nz assms(2) by (simp add: Compact_Add_def)
  moreover have "compact_ok hp lh (ks @ [k]) ?c"
  proof (rule compact_okI)
    show "m_vNodes ?c = (h0, c0) # r" "m_LastCount ?c \<noteq> 0" "ks @ [k] \<noteq> []" "m_LastKey ?c = last (ks @ [k])"
      using C(1) nz k by simp_all
    show "stack_ok hp lh 321 ((lh (m_LastKey ?c) (m_LastCount ?c), c0) # r) ([(m_LastKey ?c, m_LastCount ?c)] # R)"
      using stack_pending [OF C(5)] by simp
    show "concat (rev ([(m_LastKey ?c, m_LastCount ?c)] # R)) = rev (map (apsnd of_nat) (rle (rev (ks @ [k]))))"
      using q L k by (simp add: add.commute)
  qed
  ultimately show ?thesis by blast
qed

lemma compact_rle:
  assumes "concat (rev ([(k, d)] # R)) = rev (map (apsnd of_nat) (rle ks))" and "rle ks = (k', n) # q"
  shows "k' = k \<and> d = of_nat n \<and> concat (rev R) = rev (map (apsnd of_nat) q)"
  using assms by auto

lemma Compact_Add_new:
  assumes "compact_ok hp lh ks c" and "Cmp (m_LastKey c) k < 0" and "key_ok k" "key_ok (m_LastKey c)"
  shows "\<exists>c'. Compact_Add hp lh k c = (c', True) \<and> compact_ok hp lh (ks @ [k]) c'"
proof -
  from assms(1) obtain h0 c0 r R where C: "m_vNodes c = (h0, c0) # r" "m_LastCount c \<noteq> 0" "ks \<noteq> []" "m_LastKey c = last ks"
    "stack_ok hp lh 321 ((lh (m_LastKey c) (m_LastCount c), c0) # r) ([(m_LastKey c, m_LastCount c)] # R)"
    "concat (rev ([(m_LastKey c, m_LastCount c)] # R)) = rev (map (apsnd of_nat) (rle (rev ks)))"
    unfolding compact_ok_def by blast
  define nb where "nb = 8 * s_Bytes - GetOrder (XorSame (m_LastKey c) k)"
  have nb: "nb < 321" "agree nb (m_LastKey c) k" "\<not> get_Bit (m_LastKey c) nb" "get_Bit k nb"
    using common_bits [OF assms(4,3,2)] unfolding nb_def by blast+
  have "\<forall>y \<in> set [(m_LastKey c, m_LastCount c)]. agree nb (fst y) (m_LastKey c) \<and> \<not> get_Bit (fst y) nb" using nb(3) by simp
  from Flush_loop_spec [OF C(5) this] obtain h' c' r' S' R' where F:
    "Flush_loop hp nb ((lh (m_LastKey c) (m_LastCount c), c0) # r) = (h', c') # r'" "stack_ok hp lh 321 ((h', c') # r') (S' # R')"
    "\<forall>y \<in> set S'. agree nb (fst y) (m_LastKey c) \<and> \<not> get_Bit (fst y) nb" "r' = [] \<or> c' < nb"
    "concat (rev (S' # R')) = concat (rev ([(m_LastKey c, m_LastCount c)] # R))" by blast
  let ?c = "c\<lparr>m_vNodes := (0, nb) # (h', c') # r', m_LastKey := k, m_LastCount := 1\<rparr>"
  have "m_vNodes (FlushInternal hp lh nb c) = (h', c') # r'" using C(1,2) F(1) by (simp add: FlushInternal_def)
  then have "Compact_Add hp lh k c = (?c, True)"
    using C(1,2) assms(2) by (simp add: Compact_Add_def Let_def nb_def [symmetric] FlushInternal_def del: s_simps)
  moreover have "compact_ok hp lh (ks @ [k]) ?c"
  proof (rule compact_okI)
    show "m_vNodes ?c = (0, nb) # (h', c') # r'" "m_LastCount ?c \<noteq> 0" "ks @ [k] \<noteq> []" "m_LastKey ?c = last (ks @ [k])" by simp_all
    have "\<forall>y \<in> set S'. agree nb k (fst y) \<and> get_Bit k nb \<and> \<not> get_Bit (fst y) nb"
      using F(3) nb agree_trans [OF agree_sym [OF nb(2)] agree_sym] by blast
    then show "stack_ok hp lh 321 ((lh (m_LastKey ?c) (m_LastCount ?c), nb) # (h', c') # r') ([(m_LastKey ?c, m_LastCount ?c)] # S' # R')"
      using F(2,4) nb(1) repr_leaf [of hp lh 321 k "1 :: u32"] by simp
    obtain k' n q where q: "rle (rev ks) = (k', n) # q" using C(6) by (cases "rle (rev ks)") auto
    have "k' = m_LastKey c" using compact_rle [OF C(6) q] by simp
    then have "k \<noteq> k'" using assms(2) by (auto simp: Cmp_sgn)
    then have "rle (rev (ks @ [k])) = (k, 1) # rle (rev ks)" using q by simp
    moreover have "concat (rev ([(k, 1)] # S' # R')) = rev (map (apsnd of_nat) (rle (rev ks))) @ [(k, 1)]"
      using F(5) C(6) by simp
    ultimately show "concat (rev ([(m_LastKey ?c, m_LastCount ?c)] # S' # R')) = rev (map (apsnd of_nat) (rle (rev (ks @ [k]))))"
      by simp
  qed
  ultimately show ?thesis by blast
qed

lemma Compact_AddAll_spec:
  assumes "compact_ok hp lh ks c" and "\<forall>k \<in> set (ks @ ks'). key_ok k" and "sorted_wrt (\<lambda>a b. be_val a \<le> be_val b) (ks @ ks')"
    and "length (ks @ ks') < 2 ^ 32"
  shows "\<exists>c'. Compact_AddAll hp lh ks' c = Some c' \<and> compact_ok hp lh (ks @ ks') c'"
  using assms
proof (induction ks' arbitrary: ks c)
  case (Cons k ks')
  have L: "m_LastKey c = last ks" "ks \<noteq> []" using Cons.prems(1) by (auto simp: compact_ok_def)
  then have l: "m_LastKey c \<in> set ks" by simp
  have ok: "key_ok k" "key_ok (m_LastKey c)" using Cons.prems(2) l by auto
  have "be_val (m_LastKey c) \<le> be_val k" using Cons.prems(3) l by (auto simp: sorted_wrt_append)
  then consider "Cmp (m_LastKey c) k = 0" | "Cmp (m_LastKey c) k < 0" by (cases "be_val (m_LastKey c) = be_val k") (simp_all add: Cmp_sgn sgn_nat_diff)
  then obtain c1 where c1: "Compact_Add hp lh k c = (c1, True)" "compact_ok hp lh (ks @ [k]) c1"
  proof cases
    case 1
    have "length k = length (m_LastKey c)" "Suc (length ks) < 2 ^ 32" using ok Cons.prems(4) by (simp_all add: key_ok_def)
    from Compact_Add_same [OF Cons.prems(1) 1 this] show thesis using that by blast
  next
    case 2
    from Compact_Add_new [OF Cons.prems(1) 2 ok] show thesis using that by blast
  qed
  have "\<exists>c'. Compact_AddAll hp lh ks' c1 = Some c' \<and> compact_ok hp lh ((ks @ [k]) @ ks') c'"
    using Cons.prems(2-4) by (intro Cons.IH c1(2)) simp_all
  then show ?case using c1(1) by simp
qed simp

lemma Compact_run:
  assumes "\<forall>k \<in> set ks. key_ok k" and "sorted_wrt (\<lambda>a b. be_val a \<le> be_val b) ks" and "length ks < 2 ^ 32" and "ks \<noteq> []"
  shows "\<exists>c. Compact_AddAll hp lh ks Compact_new = Some c \<and> compact_ok hp lh ks c"
proof -
  obtain k ks' where ks: "ks = k # ks'" using assms(4) by (cases ks) auto
  from Compact_Add_first [of Compact_new hp lh k] obtain c1 where
    c1: "Compact_Add hp lh k Compact_new = (c1, True)" "compact_ok hp lh [k] c1" by (auto simp: Compact_new_def)
  from Compact_AddAll_spec [OF c1(2), of ks'] c1(1) assms show ?thesis by (simp add: ks)
qed

lemma Compact_Flush_spec:
  assumes "compact_ok hp lh ks c"
  shows "repr hp lh 321 (Compact_Flush hp lh c) (rev (map (apsnd of_nat) (rle (rev ks))))"
proof -
  from assms obtain h0 c0 r R where C: "m_vNodes c = (h0, c0) # r" "m_LastCount c \<noteq> 0"
    "stack_ok hp lh 321 ((lh (m_LastKey c) (m_LastCount c), c0) # r) ([(m_LastKey c, m_LastCount c)] # R)"
    "concat (rev ([(m_LastKey c, m_LastCount c)] # R)) = rev (map (apsnd of_nat) (rle (rev ks)))"
    unfolding compact_ok_def by blast
  from Flush_all [OF C(3)] obtain h' c' where
    F: "Flush_loop hp 0 ((lh (m_LastKey c) (m_LastCount c), c0) # r) = [(h', c')]"
      "repr hp lh 321 h' (concat (rev ([(m_LastKey c, m_LastCount c)] # R)))" by blast
  then have "Compact_Flush hp lh c = h'" using C(1,2) by (simp add: Compact_Flush_def FlushInternal_def)
  then show ?thesis using F(2) C(4) by simp
qed

text \<open>Any tree with these keys and numbers of outputs has the hash the builder returns.\<close>

lemma Compact_correct_lemma:
  assumes "\<forall>k \<in> set ks. key_ok k" and "sorted_wrt (\<lambda>a b. be_val a \<le> be_val b) ks" and "length ks < 2 ^ 32"
    and "tree_inv hp (LeafHash lh) 321 t"
    and "apsnd get_Count ` elems t = (\<lambda>k. (k, of_nat (count_list ks k))) ` set ks"
  shows "\<exists>c. Compact_AddAll hp lh ks Compact_new = Some c \<and> Compact_Flush hp lh c = root_hash hp (LeafHash lh) t"
proof (cases "ks = []")
  case True
  then have "t = None" using assms(5) by (cases t) (auto simp: tree_simps)
  then show ?thesis using True by (simp add: Compact_Flush_def Compact_new_def root_hash_def RadixTree.get_Hash_def)
next
  case False
  from Compact_run [OF assms(1-3) False] obtain c where c: "Compact_AddAll hp lh ks Compact_new = Some c" "compact_ok hp lh ks c" by blast
  from Compact_Flush_spec [OF c(2)] obtain n :: "(u32, 'a) RNode" where
    n: "wf_node 321 0 n" "leaves n = rev (map (apsnd of_nat) (rle (rev ks)))" "rhash hp lh n = Compact_Flush hp lh c" by (auto simp: repr_def)
  have inj: "inj_on be_val (set (rev ks))" using assms(1) be_val_inject by (auto simp: inj_on_def key_ok_def)
  have "sorted_wrt (\<lambda>a b. be_val b \<le> be_val a) (rev ks)" using assms(2) by (simp add: sorted_wrt_rev)
  from rle_sorted [OF this inj] have S: "set (leaves n) = (\<lambda>k. (k, of_nat (count_list ks k))) ` set ks"
    unfolding n(2) by (simp add: image_image)
  have L: "tree_inv hp (\<lambda>k d. lh k (get_Count d)) 321 t" using assms(4) by (simp only: LeafHash_def [abs_def])
  obtain m where m: "map_tree get_Count t = Some m" using assms(5) False by (cases t) (auto simp: map_tree_def tree_simps)
  have W: "wf_node 321 0 m" "set (leaves m) = set (leaves n)"
    using tree_inv_map [of hp lh, OF L] elems_map [of get_Count t] S assms(5) m by (simp_all add: tree_inv_def tree_simps)
  have "root_hash hp (LeafHash lh) t = root_hash hp lh (map_tree get_Count t)"
    using root_hash_map [of hp lh, OF L] by (simp only: LeafHash_def [abs_def])
  also have "\<dots> = rhash hp lh m" using get_Hash_spec [OF tree_inv_map [of hp lh, OF L]] by (simp add: m)
  also have "\<dots> = rhash hp lh n" by (rule rhash_canonical [OF W(1) n(1) W(2)])
  finally show ?thesis using c(1) n(3) by auto
qed

subsection \<open>Properties\<close>

text \<open>
  \<open>IsCommitmentDuplicated\<close> holds of a leaf exactly when another leaf has a key with the same first 256
  bits, the X coordinate of the commitment.  The commitment has 257 bits, so for commitments that differ
  in the sign only the test holds although they are different.
\<close>

lemma IsCommitmentDuplicated_meaning:
  assumes "wf_node s_Bits 0 n" and "node_at p n = Some (Leaf bs cl k d)" and "p \<noteq> []"
  shows "IsCommitmentDuplicated bs \<longleftrightarrow> (\<exists>(k', d') \<in> set (leaves n). k' \<noteq> k \<and> agree 256 k k')"
  using leaf_bits_agree [OF assms(1,2), of 256] assms(3) by (auto simp: IsCommitmentDuplicated_def)

lemma IsCommitmentDuplicated_sign:
  fixes X :: bytes
  defines "P \<equiv> Key_of_Data \<lparr>kd_X = X, kd_Y = 0, kd_Maturity = 0\<rparr>" and "Q \<equiv> Key_of_Data \<lparr>kd_X = X, kd_Y = 1, kd_Maturity = 0\<rparr>"
  assumes "length X = 32"
  shows "wf_node s_Bits 0 (Joint 256 False P () (Leaf 64 False P (ID 1)) (Leaf 64 False Q (ID 2))) \<and>
    IsCommitmentDuplicated 64 \<and> \<not> agree s_BitsCommitment P Q"
proof -
  have PQ: "get_Bit P i = get_Bit Q i" if "i < 256" for i using that assms by (simp add: get_Bit_Key(1))
  have s: "\<not> get_Bit P 256" "get_Bit Q 256" using assms by (simp_all add: get_Bit_Key(2) tail_bit_def)
  have "agree 256 Q P" using PQ by (simp add: agree_def)
  then have "wf_node s_Bits 0 (Joint 256 False P () (Leaf 64 False P (ID 1)) (Leaf 64 False Q (ID 2)))" using s by simp
  moreover have "\<not> agree 257 P Q" using s agreeD [of 257 P Q 256] by auto
  ultimately show ?thesis by (simp add: IsCommitmentDuplicated_def)
qed

text \<open>
  C18: the key of an output determines its commitment and maturity, and the order of keys is the order
  of commitments, of the signs, then of maturities: searching between the keys of two maturities of one
  commitment finds outputs of that commitment only.
\<close>

theorem Key_roundtrip:
  assumes "length (kd_X d) = 32" "kd_Y d < 2" and "length (kd_X e) = 32" "kd_Y e < 2"
  shows "Data_of_Key (Key_of_Data d) = d \<and> length (Key_of_Data d) = s_Bytes \<and>
    (bval (Key_of_Data d) 0 s_Bits \<le> bval (Key_of_Data e) 0 s_Bits \<longleftrightarrow>
       (be_val (kd_X d), unat (kd_Y d), unat (kd_Maturity d)) = (be_val (kd_X e), unat (kd_Y e), unat (kd_Maturity e)) \<or>
       ((be_val (kd_X d), unat (kd_Y d), unat (kd_Maturity d)), (be_val (kd_X e), unat (kd_Y e), unat (kd_Maturity e)))
          \<in> less_than <*lex*> less_than <*lex*> less_than)"
proof -
  have y: "unat (kd_Y f) = of_bool (kd_Y f \<noteq> 0)" if "kd_Y f < 2" for f :: KeyData
    using that by (cases "kd_Y f = 0") (simp_all add: word_less_nat_alt unat_eq_zero [symmetric])
  have m: "unat (kd_Maturity f) < 2 ^ 64" for f :: KeyData using unsigned_less [of "kd_Maturity f", where 'a = nat] by simp
  have lex: "(x * 2 ^ 65 + y * 2 ^ 64 + z \<le> x' * 2 ^ 65 + y' * 2 ^ 64 + z') \<longleftrightarrow>
      (x, y, z) = (x', y', z') \<or> ((x, y, z), (x', y', z')) \<in> less_than <*lex*> less_than <*lex*> less_than"
    if "y < 2" "y' < 2" "z < 2 ^ 64" "z' < 2 ^ 64" for x y z x' y' z' :: nat
    using that by simp linarith
  show ?thesis
    using Data_of_Key_of_Data [OF assms(1,2)] assms m [of d] m [of e]
      lex [of "unat (kd_Y d)" "unat (kd_Y e)" "unat (kd_Maturity d)" "unat (kd_Maturity e)" "be_val (kd_X d)" "be_val (kd_X e)"]
    by (simp only: s_simps bval_Key y [symmetric] length_Key word_less_nat_alt) simp
qed

theorem Key_roundtrip_witness:
  "Data_of_Key (Key_of_Data \<lparr>kd_X = replicate 32 7, kd_Y = 1, kd_Maturity = 0x8000000000000001\<rparr>)
     = \<lparr>kd_X = replicate 32 7, kd_Y = 1, kd_Maturity = 0x8000000000000001\<rparr>"
  by (rule conjunct1, rule Key_roundtrip [of _ "\<lparr>kd_X = replicate 32 7, kd_Y = 1, kd_Maturity = 0x8000000000000001\<rparr>"]) simp_all

text \<open>
  C19: a leaf is a stack of output identifiers.  \<open>PushID\<close> pushes, \<open>PopID\<close> pops what was pushed and goes
  back to the representation in place when one identifier is left, \<open>get_Count\<close> is the height of the
  stack, and the loop in \<open>DeleteLeaf\<close> that pops until one identifier is left ends.
\<close>

theorem leaf_stack:
  assumes "ids_ok x" and "Suc (length (ids x)) < 2 ^ 32"
  shows "ids_ok (PushID v x) \<and> ids (PushID v x) = v # ids x \<and> PopID (PushID v x) = Some (v, x) \<and>
    unat (get_Count (PushID v x)) = Suc (unat (get_Count x)) \<and> (\<exists>w. DeleteLeaf (PushID v x) = Some (ID w))"
proof -
  note P = PushID_spec [OF assms, of v]
  then have "ids_ok (PushID v x)" "ids (PushID v x) = v # ids x" by simp_all
  then show ?thesis
    using PopID_PushID [OF assms] unat_Count [OF assms(1)] unat_Count [of "PushID v x"] DeleteLeaf_returns [of "PushID v x"] by simp
qed

theorem leaf_stack_witness:
  "PopID (PushID 5 (ID 7)) = Some (5, ID 7) \<and> get_Count (PushID 5 (ID 7)) = 2"
  using leaf_stack [of "ID 7" 5] by (simp add: leaf_defs)

text \<open>
  C17: saving and loading.  A tree whose leaves are well-formed loads from what was saved without an
  error, with the same keys and the same root hash; the identifiers of equal outputs come back in the
  reverse order.
\<close>

theorem Load_Save_root:
  assumes "tree_inv hp (LeafHash lh) s_Bits t" and "\<forall>(k, x) \<in> elems t. ids_ok x \<and> length k = s_Bytes"
    and "length (tree_leaves t) < 2 ^ 32"
  shows "\<exists>t'. LoadIntenral (SaveIntenral t) = Inr t' \<and> tree_inv hp (LeafHash lh) s_Bits t' \<and>
    elems t' = apsnd rev_ids ` elems t \<and> root_hash hp (LeafHash lh) t' = root_hash hp (LeafHash lh) t"
  using Load_Save [of hp lh t] assms by (simp only: s_simps)

definition utxo1 :: "(LeafIDs, nat) Tree" where
  "utxo1 = Some (Leaf s_Bits False (replicate 41 0) (IDs \<lparr>m_pTop = [7, 9], m_Count = 2\<rparr>))"

lemma utxo1_facts:
  "tree_inv (\<lambda>a b. a + b) (LeafHash (\<lambda>k c. unat c)) s_Bits utxo1"
  "elems utxo1 = {(replicate 41 0, IDs \<lparr>m_pTop = [7, 9], m_Count = 2\<rparr>)}" "length (tree_leaves utxo1) = 1"
  by (simp_all add: utxo1_def tree_inv_def tree_simps)

theorem Load_Save_root_witness:
  "\<exists>t' :: (LeafIDs, nat) Tree. LoadIntenral (SaveIntenral utxo1) = Inr t' \<and>
    elems t' = {(replicate 41 0, IDs \<lparr>m_pTop = [9, 7], m_Count = 2\<rparr>)}"
proof -
  have "\<forall>(k, x) \<in> elems utxo1. ids_ok x \<and> length k = s_Bytes" by (simp add: utxo1_facts ids_ok_def)
  from Load_Save_root [OF utxo1_facts(1) this] obtain t' :: "(LeafIDs, nat) Tree" where "LoadIntenral (SaveIntenral utxo1) = Inr t'"
    "elems t' = apsnd rev_ids ` elems utxo1" unfolding utxo1_facts(3) by auto
  then show ?thesis by (intro exI [of _ t']) (simp add: utxo1_facts(2) rev_ids_def)
qed

text \<open>
  C16: the compact builder.  Fed with the keys of all outputs in ascending order, equal keys repeated, it
  accepts them all and its final hash is the root hash of the tree of these outputs, however that tree
  was built.
\<close>

theorem Compact_root:
  assumes "\<forall>k \<in> set ks. key_ok k" and "sorted_wrt (\<lambda>a b. be_val a \<le> be_val b) ks" and "length ks < 2 ^ 32"
    and "tree_inv hp (LeafHash lh) s_Bits t"
    and "apsnd get_Count ` elems t = (\<lambda>k. (k, of_nat (count_list ks k))) ` set ks"
  shows "\<exists>c. Compact_AddAll hp lh ks Compact_new = Some c \<and> Compact_Flush hp lh c = snd (RadixTree.get_Hash hp (LeafHash lh) t)"
  using Compact_correct_lemma [OF assms(1-3) assms(4) [unfolded s_simps] assms(5)] by (simp only: root_hash_def)

theorem Compact_root_witness:
  "\<exists>c. Compact_AddAll (\<lambda>a b. a + b) (\<lambda>k c. unat c) [replicate 41 0, replicate 41 0] Compact_new = Some c \<and>
     Compact_Flush (\<lambda>a b. a + b) (\<lambda>k c. unat c) c = snd (RadixTree.get_Hash (\<lambda>a b. a + b) (LeafHash (\<lambda>k c. unat c)) utxo1)"
proof (rule Compact_root [OF _ _ _ utxo1_facts(1)])
  have "\<not> get_Bit (replicate 41 0) i" if "i < 328" for i
  proof -
    have "i div 8 < 41" using that by simp
    then show ?thesis by (simp add: get_Bit_bit)
  qed
  then show "\<forall>k \<in> set [replicate 41 0, replicate 41 0]. key_ok k" by (simp add: key_ok_def)
qed (simp_all add: utxo1_facts get_Count_def)

end
