(* ===== verification/BlockElements.thy ===== *)
theory BlockElements
  imports UtxoTree
begin
unbundle bit_operations_syntax

section \<open>Inputs and outputs of a block (node/processor.cpp: HandleBlockElement, HandleValidatedTx)\<close>

text \<open>
  How the node's processor applies the inputs and outputs of a transaction or block to the tree of
  unspent outputs, forwards and backwards, and how it undoes the part of a transaction it has applied
  when an element is refused.  The database lookup of a kernel's height is a parameter.

  The handlers of the source begin with \<open>m_Utxos.EnsureReserve()\<close>, which adds free blocks to the mapped file and leaves
  the tree alone, or throws a \<open>CorruptionException\<close> before anything was changed.  It belongs to the mapped file, is modelled
  with it (\<open>UTM_EnsureReserve\<close>, theory \<open>UtxoImage\<close>), and is not repeated here.
\<close>

subsection \<open>Elements of a block\<close>

definition HeightAdd :: "u64 \<Rightarrow> u64 \<Rightarrow> u64" where
  "HeightAdd trg val = (let s = trg + val in if s < val then - 1 else s)"

record RulesMaturity =
  Coinbase :: u64
  Std :: u64

record TxInput =
  in_X :: bytes
  in_Y :: u8
  in_Maturity :: u64
  in_ID :: u64

record TxOutput =
  out_X :: bytes
  out_Y :: u8
  out_Coinbase :: bool
  out_Incubation :: u64
  out_Maturity :: u64

definition get_MinMaturity :: "RulesMaturity \<Rightarrow> TxOutput \<Rightarrow> u64 \<Rightarrow> u64" where
  "get_MinMaturity rules v h =
     HeightAdd (HeightAdd h (if out_Coinbase v then Coinbase rules else Std rules)) (out_Incubation v)"

text \<open>The part of the processor's state the handlers change: the tree and the number of outputs so far.\<close>

record 'h Utxos =
  m_Utxos :: "(LeafIDs, 'h) Tree"
  m_Txos :: u64

text \<open>Writing the identifiers of the leaf that a cursor points to.\<close>

definition set_ids :: "bool list \<Rightarrow> LeafIDs \<Rightarrow> (LeafIDs, 'h) RNode \<Rightarrow> (LeafIDs, 'h) RNode" where
  "set_ids pp x root = (case node_at pp root of Some (Leaf b cl k _) \<Rightarrow> ReplaceTip pp (Leaf b cl k x) root | _ \<Rightarrow> root)"

definition leaf_ids :: "bool list \<Rightarrow> (LeafIDs, 'h) RNode \<Rightarrow> LeafIDs option" where
  "leaf_ids pp root = (case node_at pp root of Some (Leaf b cl k x) \<Rightarrow> Some x | _ \<Rightarrow> None)"

subsection \<open>The handlers\<close>

text \<open>
  The result is the returned boolean with the new state, and for an input the element with the
  maturity and identifier the handler wrote into it.  \<open>None\<close> stands for the behaviours that the code
  excludes by assertions (a null cursor or an empty stack of identifiers).
\<close>

definition HandleInput_Fwd ::
  "TxInput \<Rightarrow> u64 \<Rightarrow> u64 option \<Rightarrow> 'h Utxos \<Rightarrow> (bool \<times> TxInput \<times> 'h Utxos) option" where
  "HandleInput_Fwd v h pHMax s =
     (let key = (\<lambda>m. Key_of_Data \<lparr>kd_X = in_X v, kd_Y = in_Y v, kd_Maturity = m\<rparr>)
      in if (case pHMax of None \<Rightarrow> False | Some hMax \<Rightarrow> in_Maturity v \<ge> hMax) then Some (False, v, s)
         else
           let (kMin, kMax) = (case pHMax of None \<Rightarrow> (key 0, key (h - 1)) | Some _ \<Rightarrow> (key (in_Maturity v), key (in_Maturity v)))
           in (case Traverse (\<lambda>pp k x _. (Some (pp, k, x), False)) (m_Utxos s) (Some kMin, Some kMax) None of
                 (Some (pp, k, x), False) \<Rightarrow>
                   (let d = Data_of_Key k;
                        upd = (\<lambda>nID. case pHMax of None \<Rightarrow> v\<lparr>in_Maturity := kd_Maturity d, in_ID := nID\<rparr> | Some _ \<Rightarrow> v)
                    in case x of
                         ID nID \<Rightarrow>
                           (case Delete (m_Utxos s) pp of
                              None \<Rightarrow> None
                            | Some t' \<Rightarrow> Some (True, upd nID, s\<lparr>m_Utxos := t'\<rparr>))
                       | IDs q \<Rightarrow>
                           (case PopID x of
                              None \<Rightarrow> None
                            | Some (nID, x') \<Rightarrow>
                                Some (True, upd nID,
                                  s\<lparr>m_Utxos := map_option (\<lambda>root. InvalidateElement pp (set_ids pp x' root)) (m_Utxos s)\<rparr>)))
               | _ \<Rightarrow> Some (False, v, s)))"

definition HandleInput_Bwd :: "TxInput \<Rightarrow> 'h::zero Utxos \<Rightarrow> (bool \<times> TxInput \<times> 'h Utxos) option" where
  "HandleInput_Bwd v s =
     (let key = Key_of_Data \<lparr>kd_X = in_X v, kd_Y = in_Y v, kd_Maturity = in_Maturity v\<rparr>
      in case Find (m_Utxos s) key s_Bits True (ID (in_ID v)) of
           Some (Some root, cu, True, bCreate) \<Rightarrow>
             (case m_pp cu of
                None \<Rightarrow> None
              | Some pp \<Rightarrow>
                  if bCreate then Some (True, v, s\<lparr>m_Utxos := Some root\<rparr>)
                  else
                    (case leaf_ids pp root of
                       None \<Rightarrow> None
                     | Some x \<Rightarrow>
                         Some (True, v, s\<lparr>m_Utxos := Some (InvalidateElement pp (set_ids pp (PushID (in_ID v) x) root))\<rparr>)))
         | _ \<Rightarrow> None)"

definition HandleInput ::
  "TxInput \<Rightarrow> u64 \<Rightarrow> u64 option \<Rightarrow> bool \<Rightarrow> 'h::zero Utxos \<Rightarrow> (bool \<times> TxInput \<times> 'h Utxos) option" where
  "HandleInput v h pHMax bFwd s = (if bFwd then HandleInput_Fwd v h pHMax s else HandleInput_Bwd v s)"

definition HandleOutput ::
  "RulesMaturity \<Rightarrow> TxOutput \<Rightarrow> u64 \<Rightarrow> u64 option \<Rightarrow> bool \<Rightarrow> 'h::zero Utxos \<Rightarrow> (bool \<times> 'h Utxos) option" where
  "HandleOutput rules v h pHMax bFwd s =
     (let m = get_MinMaturity rules v h
      in if (case pHMax of None \<Rightarrow> False | Some _ \<Rightarrow> out_Maturity v < m) then Some (False, s)
         else
           let key = Key_of_Data \<lparr>kd_X = out_X v, kd_Y = out_Y v, kd_Maturity = (case pHMax of None \<Rightarrow> m | Some _ \<Rightarrow> out_Maturity v)\<rparr>
           in case Find (m_Utxos s) key s_Bits True (ID (m_Txos s)) of
                Some (Some root, cu, True, bCreate) \<Rightarrow>
                  (case m_pp cu of
                     None \<Rightarrow> None
                   | Some pp \<Rightarrow>
                       let root1 = InvalidateElement pp root
                       in (case leaf_ids pp root1 of
                             None \<Rightarrow> None
                           | Some x \<Rightarrow>
                               if bFwd then
                                 if bCreate then Some (True, s\<lparr>m_Utxos := Some root1, m_Txos := m_Txos s + 1\<rparr>)
                                 else if get_Count x + 1 = 0 then Some (False, s\<lparr>m_Utxos := Some root1\<rparr>)
                                 else Some (True, s\<lparr>m_Utxos := Some (set_ids pp (PushID (m_Txos s) x) root1), m_Txos := m_Txos s + 1\<rparr>)
                               else
                                 (case x of
                                    ID _ \<Rightarrow>
                                      (case Delete (Some root1) pp of
                                         None \<Rightarrow> None
                                       | Some t' \<Rightarrow> Some (True, s\<lparr>m_Utxos := t', m_Txos := m_Txos s - 1\<rparr>))
                                  | IDs q \<Rightarrow>
                                      (case PopID x of
                                         None \<Rightarrow> None
                                       | Some (_, x') \<Rightarrow>
                                           Some (True, s\<lparr>m_Utxos := Some (set_ids pp x' root1), m_Txos := m_Txos s - 1\<rparr>)))))
              | _ \<Rightarrow> None)"

subsection \<open>The outputs of a tree as a map from keys to their number\<close>

definition is_key :: "bytes \<Rightarrow> bool" where
  "is_key k \<longleftrightarrow> (\<exists>d. k = Key_of_Data d \<and> length (kd_X d) = 32 \<and> kd_Y d < 2)"

definition uinv :: "('h \<Rightarrow> 'h \<Rightarrow> 'h) \<Rightarrow> (bytes \<Rightarrow> u32 \<Rightarrow> 'h) \<Rightarrow> (LeafIDs, 'h) Tree \<Rightarrow> bool" where
  "uinv hp lh t \<longleftrightarrow> tree_inv hp (LeafHash lh) 321 t \<and> (\<forall>(k, x) \<in> elems t. ids_ok x \<and> is_key k)"

definition look :: "(LeafIDs, 'h) Tree \<Rightarrow> bytes \<Rightarrow> LeafIDs option" where
  "look t = map_of (tree_leaves t)"

definition cnt :: "(LeafIDs, 'h) Tree \<Rightarrow> bytes \<Rightarrow> nat" where
  "cnt t k = (case look t k of None \<Rightarrow> 0 | Some x \<Rightarrow> length (ids x))"

lemma is_key_ok: "is_key k \<Longrightarrow> key_ok k"
  by (auto simp: is_key_def key_ok_Key)

lemma key_eqI:
  assumes "key_ok a" "key_ok b" "agree 321 a b"
  shows "a = b"
proof -
  have "agree 328 a b" unfolding agree_def
  proof (intro allI impI)
    fix i :: nat assume "i < 328"
    then show "get_Bit a i = get_Bit b i" using assms by (cases "i < 321") (auto simp: key_ok_def agree_def)
  qed
  then have "bval a 0 328 = bval b 0 328" by (intro bval_agree) (simp add: agree_def)
  moreover have "length a = 41" "length b = 41" using assms by (simp_all add: key_ok_def)
  ultimately have "be_val a = be_val b" using bval_be_val [of a] bval_be_val [of b] by simp
  then show ?thesis using \<open>length a = 41\<close> \<open>length b = 41\<close> be_val_inject by metis
qed

lemma uinvD:
  assumes "uinv hp lh t"
  shows "tree_inv hp (LeafHash lh) 321 t" and "(k, x) \<in> elems t \<Longrightarrow> ids_ok x" and "(k, x) \<in> elems t \<Longrightarrow> is_key k"
    and "(k, x) \<in> elems t \<Longrightarrow> key_ok k"
  using assms is_key_ok by (auto simp: uinv_def)

lemma uinv_unique:
  assumes "uinv hp lh t" and "(k, x) \<in> elems t" "(k, y) \<in> elems t"
  shows "x = y"
proof (cases t)
  case (Some n)
  then show ?thesis using uinvD(1) [OF assms(1)] assms(2,3) wf_distinct [of 321 0 n k x k y] by (simp add: tree_inv_def tree_simps)
qed (use assms in \<open>simp add: tree_simps\<close>)

lemma look_iff:
  assumes "uinv hp lh t"
  shows "look t k = Some x \<longleftrightarrow> (k, x) \<in> elems t"
proof
  show "look t k = Some x \<Longrightarrow> (k, x) \<in> elems t" unfolding look_def by (rule map_of_SomeD)
next
  assume m: "(k, x) \<in> elems t"
  then obtain y where y: "look t k = Some y" unfolding look_def by (metis weak_map_of_SomeI)
  then have "(k, y) \<in> elems t" unfolding look_def by (rule map_of_SomeD)
  then show "look t k = Some x" using uinv_unique [OF assms m] y by simp
qed

lemma look_fresh:
  assumes "uinv hp lh t" and "key_ok k"
  shows "fresh 321 k (elems t) \<longleftrightarrow> look t k = None"
proof -
  have "\<not> fresh 321 k (elems t) \<longleftrightarrow> (\<exists>x. (k, x) \<in> elems t)"
  proof
    assume "\<not> fresh 321 k (elems t)"
    then obtain k' x where K: "(k', x) \<in> elems t" "agree 321 k' k" by (auto simp: fresh_def)
    then have "k' = k" using key_eqI uinvD(4) [OF assms(1)] assms(2) by blast
    then show "\<exists>x. (k, x) \<in> elems t" using K(1) by blast
  qed (force simp: fresh_def)
  then show ?thesis using look_iff [OF assms(1), of k] by (metis not_None_eq)
qed

lemma look_upd:
  assumes "uinv hp lh t" "uinv hp lh t'" and "elems t' = {y \<in> elems t. fst y \<noteq> k} \<union> {y. fst y = k \<and> Some (snd y) = o'}"
  shows "look t' = (look t)(k := o')"
proof
  fix j
  have "look t' j = Some x \<longleftrightarrow> ((look t)(k := o')) j = Some x" for x
    unfolding look_iff [OF assms(2)] assms(3) using look_iff [OF assms(1), of j] by auto
  then show "look t' j = ((look t)(k := o')) j" by (metis option.exhaust)
qed

lemma cnt_upd: "look t' = (look t)(k := o') \<Longrightarrow> cnt t' = (cnt t)(k := (case o' of None \<Rightarrow> 0 | Some x \<Rightarrow> length (ids x)))"
  by (auto simp: cnt_def fun_eq_iff)

text \<open>The root hash is a function of these numbers.\<close>

lemma elems_cnt:
  assumes "uinv hp lh t"
  shows "apsnd get_Count ` elems t = {(k, of_nat (cnt t k)) | k. 0 < cnt t k}"
proof -
  have A: "(k, x) \<in> elems t \<Longrightarrow> get_Count x = of_nat (cnt t k) \<and> 0 < cnt t k" for k x
    using look_iff [OF assms, of k x] uinvD(2) [OF assms, of k x] get_Count_ids [of x] length_ids [of x] by (simp add: cnt_def)
  have B: "0 < cnt t k \<Longrightarrow> \<exists>x. (k, x) \<in> elems t" for k
    using look_iff [OF assms, of k] by (cases "look t k") (auto simp: cnt_def)
  show ?thesis
  proof (intro equalityI subsetI)
    fix y assume "y \<in> apsnd get_Count ` elems t"
    then obtain k x where "(k, x) \<in> elems t" "y = (k, get_Count x)" by auto
    then show "y \<in> {(k, of_nat (cnt t k)) | k. 0 < cnt t k}" using A by auto
  next
    fix y assume "y \<in> {(k, of_nat (cnt t k) :: u32) | k. 0 < cnt t k}"
    then obtain k where k: "y = (k, of_nat (cnt t k))" "0 < cnt t k" by blast
    obtain x where x: "(k, x) \<in> elems t" using B k(2) by blast
    then show "y \<in> apsnd get_Count ` elems t" using A [OF x] k(1) by (intro image_eqI [OF _ x]) simp
  qed
qed

lemma root_of_cnt:
  assumes "uinv hp lh t" "uinv hp lh u" and "cnt t = cnt u"
  shows "root_hash hp (LeafHash lh) t = root_hash hp (LeafHash lh) u"
proof -
  have L: "tree_inv hp (\<lambda>k d. lh k (get_Count d)) 321 x" if "uinv hp lh x" for x
    using uinvD(1) [OF that] by (simp only: LeafHash_def [abs_def])
  have R: "root_hash hp (LeafHash lh) x = root_hash hp lh (map_tree get_Count x)" if "uinv hp lh x" for x
    using root_hash_map [of hp lh, OF L [OF that]] by (simp only: LeafHash_def [abs_def])
  have "elems (map_tree get_Count t) = elems (map_tree get_Count u)"
    unfolding elems_map using elems_cnt [OF assms(1)] elems_cnt [OF assms(2)] assms(3) by simp
  then show ?thesis
    using root_hash_canonical [OF tree_inv_map [of hp lh, OF L [OF assms(1)]] tree_inv_map [of hp lh, OF L [OF assms(2)]]]
      R [OF assms(1)] R [OF assms(2)] by simp
qed

subsection \<open>Changing the identifiers of one leaf\<close>

lemma Invalidate_ReplaceTip:
  "node_at pp root = Some (Leaf b cl k x) \<Longrightarrow>
     Invalidate pp (ReplaceTip pp (Leaf b cl k x') root) = (ReplaceTip pp (Leaf b False k x') (fst (Invalidate pp root)), snd (Invalidate pp root))"
proof (induction pp root rule: node_at.induct)
  case (1 n)
  then show ?case by (simp add: set_clean_def)
next
  case (2 c cs b' cl' k' h l r)
  then show ?case by (cases c) (simp_all add: Invalidate_Joint Let_def)
qed simp

lemma Invalidate_set_ids:
  assumes "node_at pp root = Some (Leaf b cl k x)"
  shows "InvalidateElement pp (set_ids pp x' root) = set_ids pp x' (InvalidateElement pp root)"
  using assms Invalidate_node_at [of pp root]
  by (simp add: set_ids_def InvalidateElement_def Invalidate_ReplaceTip set_clean_def)

lemma leaf_ids_Invalidate:
  assumes "node_at pp root = Some (Leaf b cl k x)"
  shows "leaf_ids pp root = Some x" "leaf_ids pp (InvalidateElement pp root) = Some x"
    "node_at pp (InvalidateElement pp root) = Some (Leaf b False k x)"
  using assms Invalidate_node_at [of pp root] by (simp_all add: leaf_ids_def InvalidateElement_def set_clean_def)

lemma uinv_Invalidate:
  assumes "uinv hp lh (Some root)" and "node_at pp root = Some q"
  shows "uinv hp lh (Some (InvalidateElement pp root)) \<and> look (Some (InvalidateElement pp root)) = look (Some root)"
proof -
  have "cache_ok hp (LeafHash lh) (fst (Invalidate pp root))"
    using Invalidate_cache [of hp "LeafHash lh" root pp] uinvD(1) [OF assms(1)] assms(2) by (simp add: tree_inv_def tree_simps)
  then show ?thesis using assms(1) by (simp add: uinv_def look_def tree_inv_def tree_simps InvalidateElement_def)
qed

lemma set_ids_spec:
  assumes "uinv hp lh (Some root)" and "node_at pp root = Some (Leaf b cl k x)" and "ids_ok x'"
  defines "root' \<equiv> set_ids pp x' (InvalidateElement pp root)"
  shows "uinv hp lh (Some root') \<and> look (Some root') = (look (Some root))(k := Some x')"
proof -
  let ?r1 = "InvalidateElement pp root"
  have n1: "node_at pp ?r1 = Some (Leaf b False k x)" by (rule leaf_ids_Invalidate(3) [OF assms(2)])
  have r': "root' = ReplaceTip pp (Leaf b False k x') ?r1" using n1 by (simp add: root'_def set_ids_def)
  note I = uinv_Invalidate [OF assms(1,2)]
  have wf1: "wf_node 321 0 ?r1" using I uinvD(1) [of hp lh "Some ?r1"] by (simp add: tree_inv_def tree_simps)
  have wf: "wf_node 321 0 root'" unfolding r'
    using wf_node_at [OF wf1 n1] by (intro ReplaceTip_wf [OF wf1 n1]) auto
  have "cache_ok hp (LeafHash lh) ?r1 \<and> dirty_path pp ?r1"
    using Invalidate_cache [of hp "LeafHash lh" root pp] uinvD(1) [OF assms(1)] assms(2) by (simp add: tree_inv_def tree_simps InvalidateElement_def)
  then have ca: "cache_ok hp (LeafHash lh) root'" unfolding r' by (intro ReplaceTip_cache) simp_all
  obtain A B where AB: "leaves ?r1 = A @ [(k, x)] @ B" "leaves root' = A @ [(k, x')] @ B"
    using node_at_leaves [OF n1] unfolding r' by auto
  have uq: "fst y \<noteq> k" if "y \<in> set A \<union> set B" for y
  proof
    assume "fst y = k"
    moreover have "sorted_wrt (\<lambda>x y. bval (fst x) 0 (321 - 0) < bval (fst y) 0 (321 - 0)) (leaves ?r1)" by (rule leaves_sorted [OF wf1])
    ultimately show False using that unfolding AB(1) by (fastforce simp: sorted_wrt_append)
  qed
  have el: "elems (Some root') = {y \<in> elems (Some ?r1). fst y \<noteq> k} \<union> {y. fst y = k \<and> Some (snd y) = Some x'}"
    using uq by (auto simp: tree_simps AB)
  have k: "is_key k" using uinvD(3) [of hp lh "Some ?r1" k x] I AB(1) by (simp add: tree_simps)
  have "\<forall>(j, y) \<in> elems (Some root'). ids_ok y \<and> is_key j"
    unfolding el using I assms(3) k uinvD(2,3) [of hp lh "Some ?r1"] by auto
  then have U: "uinv hp lh (Some root')" using wf ca by (simp add: uinv_def tree_inv_def tree_simps)
  then show ?thesis using look_upd [OF conjunct1 [OF I] U el] I by simp
qed

lemma Delete_look:
  assumes "uinv hp lh (Some root)" and "node_at pp root = Some (Leaf b cl k x)"
  shows "\<exists>t'. Delete (Some root) pp = Some t' \<and> uinv hp lh t' \<and> look t' = (look (Some root))(k := None)"
proof -
  have W: "wf_tree 321 (Some root)" "tree_cache hp (LeafHash lh) (Some root)" using uinvD(1) [OF assms(1)] by (simp_all add: tree_inv_def)
  from Delete_spec [OF W(1) refl assms(2), of hp "LeafHash lh"] obtain t' where
    D: "Delete (Some root) pp = Some t'" "wf_tree 321 t'" "elems t' = elems (Some root) - {(k, x)}" "tree_cache hp (LeafHash lh) t'"
    using W(2) by blast
  have U: "uinv hp lh t'" using D assms(1) by (auto simp: uinv_def tree_inv_def)
  have "(k, x) \<in> elems (Some root)" using node_at_leaves [OF assms(2)] by (auto simp: tree_simps)
  then have "elems t' = {y \<in> elems (Some root). fst y \<noteq> k} \<union> {y. fst y = k \<and> Some (snd y) = None}"
    unfolding D(3) using uinv_unique [OF assms(1)] by auto
  from look_upd [OF assms(1) U this] D(1) U show ?thesis by blast
qed

text \<open>Searching with creation: the leaf of the key is there already, or it is inserted.\<close>

lemma Find_look:
  assumes "uinv hp lh t" and "is_key k"
  shows "\<exists>root cu pp b cl. Find t k s_Bits True (ID v) = Some (Some root, cu, True, look t k = None) \<and> m_pp cu = Some pp \<and>
    uinv hp lh (Some root) \<and> node_at pp root = Some (Leaf b cl k (case look t k of None \<Rightarrow> ID v | Some x \<Rightarrow> x)) \<and>
    look (Some root) = (look t)(k := Some (case look t k of None \<Rightarrow> ID v | Some x \<Rightarrow> x))"
proof (cases "look t k")
  case None
  then have "fresh 321 k (elems t)" using look_fresh [OF assms(1) is_key_ok [OF assms(2)]] by simp
  from Find_fresh [OF uinvD(1) [OF assms(1)] this, of "ID v"] obtain t' cu where
    F: "Find t k 321 True (ID v) = Some (t', cu, True, True)" "tree_inv hp (LeafHash lh) 321 t'"
      "elems t' = insert (k, ID v) (elems t)" "found_at 321 k t' cu k (ID v)" by blast
  from F(4) obtain root pp b cl where P: "m_pp cu = Some pp" "t' = Some root" "node_at pp root = Some (Leaf b cl k (ID v))"
    by (auto simp: found_at_def)
  have U: "uinv hp lh t'" using F(2,3) assms by (auto simp: uinv_def ids_ok_def)
  have "fst y \<noteq> k" if "y \<in> elems t" for y using that look_iff [OF assms(1), of k "snd y"] None by (cases y) auto
  then have "elems t' = {y \<in> elems t. fst y \<noteq> k} \<union> {y. fst y = k \<and> Some (snd y) = Some (ID v)}" unfolding F(3) by auto
  from look_upd [OF assms(1) U this] show ?thesis using F(1) P U None
    by (intro exI [of _ root] exI [of _ cu] exI [of _ pp] exI [of _ b] exI [of _ cl]) simp
next
  case (Some x)
  have W: "wf_tree 321 t" using uinvD(1) [OF assms(1)] by (simp add: tree_inv_def)
  show ?thesis
  proof (rule Find_cases [OF W, of k "ID v" _ hp "LeafHash lh"])
    fix cu k' x' assume F: "Find t k 321 True (ID v) = Some (t, cu, True, False)" "found_at 321 k t cu k' x'" "(k', x') \<in> elems t"
    from F(2) obtain root pp b cl where P: "m_pp cu = Some pp" "t = Some root" "node_at pp root = Some (Leaf b cl k' x')" "agree 321 k' k"
      by (auto simp: found_at_def)
    have "k' = k" using key_eqI [OF uinvD(4) [OF assms(1) F(3)] is_key_ok [OF assms(2)] P(4)] .
    moreover have "(k, x) \<in> elems t" using look_iff [OF assms(1)] Some by simp
    then have "x' = x" using uinv_unique [OF assms(1)] F(3) \<open>k' = k\<close> by simp
    ultimately show ?thesis using F(1) P Some assms(1)
      by (intro exI [of _ root] exI [of _ cu] exI [of _ pp] exI [of _ b] exI [of _ cl]) auto
  next
    assume "\<forall>y \<in> fst ` elems t. \<not> agree 321 y k"
    then show ?thesis using look_iff [OF assms(1), of k x] Some by force
  qed simp
qed

subsection \<open>What the handlers do to the numbers of outputs\<close>

abbreviation pkey :: "bytes \<Rightarrow> u8 \<Rightarrow> u64 \<Rightarrow> bytes" where
  "pkey X Y m \<equiv> Key_of_Data \<lparr>kd_X = X, kd_Y = Y, kd_Maturity = m\<rparr>"

abbreviation ikey :: "TxInput \<Rightarrow> bytes" where
  "ikey v \<equiv> pkey (in_X v) (in_Y v) (in_Maturity v)"

definition in_ok :: "TxInput \<Rightarrow> bool" where
  "in_ok v \<longleftrightarrow> length (in_X v) = 32 \<and> in_Y v < 2"

definition out_ok :: "TxOutput \<Rightarrow> bool" where
  "out_ok v \<longleftrightarrow> length (out_X v) = 32 \<and> out_Y v < 2"

definition okey :: "RulesMaturity \<Rightarrow> u64 \<Rightarrow> u64 option \<Rightarrow> TxOutput \<Rightarrow> bytes" where
  "okey rules h pHMax v = pkey (out_X v) (out_Y v) (case pHMax of None \<Rightarrow> get_MinMaturity rules v h | Some _ \<Rightarrow> out_Maturity v)"

lemma is_key_pkey: "length X = 32 \<Longrightarrow> Y < 2 \<Longrightarrow> is_key (pkey X Y m)"
  by (auto simp: is_key_def)

lemma cnt_None: "cnt t k = 0 \<longleftrightarrow> look t k = None" if "uinv hp lh t"
  using look_iff [OF that, of k] uinvD(2) [OF that, of k] length_ids by (cases "look t k") (auto simp: cnt_def)

lemma HandleInput_Bwd_spec:
  assumes "uinv hp lh (m_Utxos s)" and "in_ok v" and "Suc (cnt (m_Utxos s) (ikey v)) < 2 ^ 32"
  shows "\<exists>t'. HandleInput_Bwd v s = Some (True, v, s\<lparr>m_Utxos := t'\<rparr>) \<and> uinv hp lh t' \<and>
    cnt t' = (cnt (m_Utxos s))(ikey v := Suc (cnt (m_Utxos s) (ikey v)))"
proof -
  let ?t = "m_Utxos s" and ?k = "ikey v" and ?y = "case look (m_Utxos s) (ikey v) of None \<Rightarrow> ID (in_ID v) | Some x \<Rightarrow> x"
  have key: "is_key ?k" using assms(2) by (simp add: in_ok_def is_key_pkey)
  from Find_look [OF assms(1) key, of "in_ID v"] obtain root cu pp b cl where
    F: "Find ?t ?k s_Bits True (ID (in_ID v)) = Some (Some root, cu, True, look ?t ?k = None)" "m_pp cu = Some pp"
      "uinv hp lh (Some root)" "node_at pp root = Some (Leaf b cl ?k ?y)" "look (Some root) = (look ?t)(?k := Some ?y)" by blast
  show ?thesis
  proof (cases "look ?t ?k")
    case None
    then have "HandleInput_Bwd v s = Some (True, v, s\<lparr>m_Utxos := Some root\<rparr>)" using F(1,2) by (simp add: HandleInput_Bwd_def)
    moreover have "cnt (Some root) = (cnt ?t)(?k := Suc (cnt ?t ?k))" using cnt_upd [OF F(5)] None by (simp add: ids_def cnt_def)
    ultimately show ?thesis using F(3) by blast
  next
    case (Some x)
    have n: "node_at pp root = Some (Leaf b cl ?k x)" using F(4) Some by simp
    have "(?k, x) \<in> elems ?t" using Some look_iff [OF assms(1)] by simp
    then have ok: "ids_ok x" using uinvD(2) [OF assms(1)] by blast
    have P: "ids_ok (PushID (in_ID v) x)" "ids (PushID (in_ID v) x) = in_ID v # ids x"
      using PushID_spec [OF ok, of "in_ID v"] assms(3) Some by (simp_all add: cnt_def)
    let ?r = "set_ids pp (PushID (in_ID v) x) (InvalidateElement pp root)"
    have "HandleInput_Bwd v s = Some (True, v, s\<lparr>m_Utxos := Some ?r\<rparr>)"
      using F(1,2) Some n leaf_ids_Invalidate(1) [OF n] Invalidate_set_ids [OF n] by (simp add: HandleInput_Bwd_def)
    moreover have "cnt (Some ?r) = (cnt ?t)(?k := Suc (cnt ?t ?k))"
    proof -
      have "look (Some ?r) = (look ?t)(?k := Some (PushID (in_ID v) x))" using set_ids_spec [OF F(3) n P(1)] F(5) by simp
      from cnt_upd [OF this] show ?thesis using P(2) Some by (simp add: cnt_def)
    qed
    ultimately show ?thesis using set_ids_spec [OF F(3) n P(1)] by blast
  qed
qed

lemma HandleOutput_Fwd_spec:
  assumes "uinv hp lh (m_Utxos s)" and "out_ok v" and "Suc (cnt (m_Utxos s) (okey rules h pHMax v)) < 2 ^ 32"
    and "pHMax \<noteq> None \<longrightarrow> get_MinMaturity rules v h \<le> out_Maturity v"
  shows "\<exists>t'. HandleOutput rules v h pHMax True s = Some (True, s\<lparr>m_Utxos := t', m_Txos := m_Txos s + 1\<rparr>) \<and> uinv hp lh t' \<and>
    cnt t' = (cnt (m_Utxos s))(okey rules h pHMax v := Suc (cnt (m_Utxos s) (okey rules h pHMax v)))"
proof -
  let ?t = "m_Utxos s" and ?k = "okey rules h pHMax v" and ?y = "case look (m_Utxos s) (okey rules h pHMax v) of None \<Rightarrow> ID (m_Txos s) | Some x \<Rightarrow> x"
  have key: "is_key ?k" using assms(2) by (simp add: okey_def out_ok_def is_key_pkey)
  from Find_look [OF assms(1) key, of "m_Txos s"] obtain root cu pp b cl where
    F: "Find ?t ?k s_Bits True (ID (m_Txos s)) = Some (Some root, cu, True, look ?t ?k = None)" "m_pp cu = Some pp"
      "uinv hp lh (Some root)" "node_at pp root = Some (Leaf b cl ?k ?y)" "look (Some root) = (look ?t)(?k := Some ?y)" by blast
  note I = leaf_ids_Invalidate [OF F(4)] uinv_Invalidate [OF F(3,4)]
  have ng: "\<not> (case pHMax of None \<Rightarrow> False | Some _ \<Rightarrow> out_Maturity v < get_MinMaturity rules v h)"
    using assms(4) by (cases pHMax) simp_all
  have H: "HandleOutput rules v h pHMax True s =
      (if look ?t ?k = None then Some (True, s\<lparr>m_Utxos := Some (InvalidateElement pp root), m_Txos := m_Txos s + 1\<rparr>)
       else if get_Count ?y + 1 = 0 then Some (False, s\<lparr>m_Utxos := Some (InvalidateElement pp root)\<rparr>)
       else Some (True, s\<lparr>m_Utxos := Some (set_ids pp (PushID (m_Txos s) ?y) (InvalidateElement pp root)), m_Txos := m_Txos s + 1\<rparr>))"
    using F(1,2) ng I(2) by (simp add: HandleOutput_def okey_def [symmetric] Let_def)
  show ?thesis
  proof (cases "look ?t ?k")
    case None
    moreover have "cnt (Some (InvalidateElement pp root)) = (cnt ?t)(?k := Suc (cnt ?t ?k))"
      using cnt_upd [of "Some (InvalidateElement pp root)" ?t ?k "Some ?y"] F(5) I(4) None by (simp add: ids_def cnt_def)
    ultimately show ?thesis using H I(4) by auto
  next
    case (Some x)
    have "(?k, x) \<in> elems ?t" using Some look_iff [OF assms(1)] by simp
    then have ok: "ids_ok x" using uinvD(2) [OF assms(1)] by blast
    have lt: "Suc (length (ids x)) < 2 ^ 32" using assms(3) Some by (simp add: cnt_def)
    have P: "ids_ok (PushID (m_Txos s) x)" "ids (PushID (m_Txos s) x) = m_Txos s # ids x" using PushID_spec [OF ok lt] by simp_all
    have n: "node_at pp root = Some (Leaf b cl ?k x)" using F(4) Some by simp
    note S = set_ids_spec [OF F(3) n P(1)]
    have "get_Count x + 1 \<noteq> 0" using get_Count_ids [OF ok] of_nat_Suc_nz [OF lt] by simp
    then have "HandleOutput rules v h pHMax True s =
        Some (True, s\<lparr>m_Utxos := Some (set_ids pp (PushID (m_Txos s) x) (InvalidateElement pp root)), m_Txos := m_Txos s + 1\<rparr>)"
      using H Some by simp
    moreover have "look (Some (set_ids pp (PushID (m_Txos s) x) (InvalidateElement pp root))) = (look ?t)(?k := Some (PushID (m_Txos s) x))"
      using S F(5) by simp
    from cnt_upd [OF this] have "cnt (Some (set_ids pp (PushID (m_Txos s) x) (InvalidateElement pp root))) = (cnt ?t)(?k := Suc (cnt ?t ?k))"
      using P(2) Some by (simp add: cnt_def)
    ultimately show ?thesis using S by blast
  qed
qed

lemma HandleOutput_Fwd_refused:
  assumes "uinv hp lh (m_Utxos s)" and "out_ok v"
    and "\<not> Suc (cnt (m_Utxos s) (okey rules h pHMax v)) < 2 ^ 32 \<or> pHMax \<noteq> None \<and> out_Maturity v < get_MinMaturity rules v h"
  shows "\<exists>t'. HandleOutput rules v h pHMax True s = Some (False, s\<lparr>m_Utxos := t'\<rparr>) \<and> uinv hp lh t' \<and> cnt t' = cnt (m_Utxos s)"
proof (cases "pHMax \<noteq> None \<and> out_Maturity v < get_MinMaturity rules v h")
  case True
  then have "HandleOutput rules v h pHMax True s = Some (False, s\<lparr>m_Utxos := m_Utxos s\<rparr>)" by (cases pHMax) (simp_all add: HandleOutput_def)
  then show ?thesis using assms(1) by blast
next
  case False
  let ?t = "m_Utxos s" and ?k = "okey rules h pHMax v"
  have key: "is_key ?k" using assms(2) by (simp add: okey_def out_ok_def is_key_pkey)
  have c: "\<not> Suc (cnt ?t ?k) < 2 ^ 32" using assms(3) False by blast
  then obtain x where x: "look ?t ?k = Some x" by (cases "look ?t ?k") (simp_all add: cnt_def)
  then have "(?k, x) \<in> elems ?t" using look_iff [OF assms(1)] by simp
  then have ok: "ids_ok x" using uinvD(2) [OF assms(1)] by blast
  then have len: "Suc (length (ids x)) = 2 ^ 32" using length_ids [OF ok] c x by (simp add: cnt_def)
  have z: "get_Count x + 1 = 0"
  proof -
    have "get_Count x + 1 = of_nat (Suc (length (ids x)))" using get_Count_ids [OF ok] by simp
    also have "\<dots> = 0" unfolding len by simp
    finally show ?thesis .
  qed
  from Find_look [OF assms(1) key, of "m_Txos s"] x obtain root cu pp b cl where
    F: "Find ?t ?k s_Bits True (ID (m_Txos s)) = Some (Some root, cu, True, False)" "m_pp cu = Some pp"
      "uinv hp lh (Some root)" "node_at pp root = Some (Leaf b cl ?k x)" "look (Some root) = (look ?t)(?k := Some x)" by auto
  note I = leaf_ids_Invalidate [OF F(4)] uinv_Invalidate [OF F(3,4)]
  have ng: "\<not> (case pHMax of None \<Rightarrow> False | Some _ \<Rightarrow> out_Maturity v < get_MinMaturity rules v h)" using False by (cases pHMax) simp_all
  have "HandleOutput rules v h pHMax True s = Some (False, s\<lparr>m_Utxos := Some (InvalidateElement pp root)\<rparr>)"
    using F(1,2) ng I(2) z by (simp add: HandleOutput_def okey_def [symmetric] Let_def)
  moreover have "cnt (Some (InvalidateElement pp root)) = cnt ?t"
    using cnt_upd [of "Some (InvalidateElement pp root)" ?t ?k "Some x"] F(5) I(4) x by (auto simp: cnt_def fun_eq_iff)
  ultimately show ?thesis using I(4) by blast
qed

lemma HandleOutput_Bwd_spec:
  assumes "uinv hp lh (m_Utxos s)" and "out_ok v" and "0 < cnt (m_Utxos s) (okey rules h pHMax v)"
    and "pHMax \<noteq> None \<longrightarrow> get_MinMaturity rules v h \<le> out_Maturity v"
  shows "\<exists>t'. HandleOutput rules v h pHMax False s = Some (True, s\<lparr>m_Utxos := t', m_Txos := m_Txos s - 1\<rparr>) \<and> uinv hp lh t' \<and>
    cnt t' = (cnt (m_Utxos s))(okey rules h pHMax v := cnt (m_Utxos s) (okey rules h pHMax v) - 1)"
proof -
  let ?t = "m_Utxos s" and ?k = "okey rules h pHMax v"
  have key: "is_key ?k" using assms(2) by (simp add: okey_def out_ok_def is_key_pkey)
  obtain x where x: "look ?t ?k = Some x" using assms(3) by (cases "look ?t ?k") (simp_all add: cnt_def)
  then have "(?k, x) \<in> elems ?t" using look_iff [OF assms(1)] by simp
  then have ok: "ids_ok x" using uinvD(2) [OF assms(1)] by blast
  from Find_look [OF assms(1) key, of "m_Txos s"] x obtain root cu pp b cl where
    F: "Find ?t ?k s_Bits True (ID (m_Txos s)) = Some (Some root, cu, True, False)" "m_pp cu = Some pp"
      "uinv hp lh (Some root)" "node_at pp root = Some (Leaf b cl ?k x)" "look (Some root) = (look ?t)(?k := Some x)" by auto
  note I = leaf_ids_Invalidate [OF F(4)] uinv_Invalidate [OF F(3,4)]
  have ng: "\<not> (case pHMax of None \<Rightarrow> False | Some _ \<Rightarrow> out_Maturity v < get_MinMaturity rules v h)"
    using assms(4) by (cases pHMax) simp_all
  show ?thesis
  proof (cases x)
    case (ID w)
    from Delete_look [OF _ I(3)] I(4) obtain t' where D: "Delete (Some (InvalidateElement pp root)) pp = Some t'" "uinv hp lh t'"
      "look t' = (look ?t)(?k := None)" using F(5) by auto
    have "HandleOutput rules v h pHMax False s = Some (True, s\<lparr>m_Utxos := t', m_Txos := m_Txos s - 1\<rparr>)"
      using F(1,2) ng I(2) D(1) ID by (simp add: HandleOutput_def okey_def [symmetric] Let_def)
    moreover have "cnt t' = (cnt ?t)(?k := cnt ?t ?k - 1)" using cnt_upd [OF D(3)] x ID by (simp add: cnt_def ids_def)
    ultimately show ?thesis using D(2) by blast
  next
    case (IDs q)
    then have "IsExt x" by (simp add: IsExt_def)
    from PopID_spec [OF ok this] obtain x' where P: "PopID x = Some (hd (ids x), x')" "ids_ok x'" "ids x' = tl (ids x)" by blast
    note S = set_ids_spec [OF F(3,4) P(2)]
    let ?r = "set_ids pp x' (InvalidateElement pp root)"
    have "HandleOutput rules v h pHMax False s = Some (True, s\<lparr>m_Utxos := Some ?r, m_Txos := m_Txos s - 1\<rparr>)"
      using F(1,2) ng I(2) P(1) IDs by (simp add: HandleOutput_def okey_def [symmetric] Let_def)
    moreover have "look (Some ?r) = (look ?t)(?k := Some x')" using S F(5) by simp
    from cnt_upd [OF this] have "cnt (Some ?r) = (cnt ?t)(?k := cnt ?t ?k - 1)" using P(3) x by (simp add: cnt_def)
    ultimately show ?thesis using S by blast
  qed
qed

text \<open>Which keys lie between two maturities of one commitment.\<close>

lemma lex_between:
  assumes "x * 2 ^ 65 + y * 2 ^ 64 + z0 \<le> x' * 2 ^ 65 + y' * 2 ^ 64 + z \<and> x' * 2 ^ 65 + y' * 2 ^ 64 + z \<le> x * 2 ^ 65 + y * 2 ^ 64 + z1"
    and "y < 2" "y' < (2 :: nat)" "z0 < 2 ^ 64" "z < 2 ^ 64" "z1 < 2 ^ 64"
  shows "x' = x \<and> y' = y \<and> z0 \<le> z \<and> z \<le> z1"
proof -
  have "2 * x + y \<le> 2 * x' + y'" using assms by simp
  moreover have "2 * x' + y' \<le> 2 * x + y" using assms by simp
  ultimately have "x' = x \<and> y' = y" using assms(2,3) by presburger
  then show ?thesis using assms(1) by simp
qed

lemma pkey_between:
  assumes "length X = 32" "Y < 2" and "is_key k" and "m0 \<le> m1"
  shows "bval (pkey X Y m0) 0 321 \<le> bval k 0 321 \<and> bval k 0 321 \<le> bval (pkey X Y m1) 0 321 \<longleftrightarrow>
    (\<exists>m. k = pkey X Y m \<and> m0 \<le> m \<and> m \<le> m1)"
proof -
  obtain d where d: "k = Key_of_Data d" "length (kd_X d) = 32" "kd_Y d < 2" using assms(3) by (auto simp: is_key_def)
  have le: "unat m < 2 ^ 64" for m :: u64 using unsigned_less [of m, where 'a = nat] by simp
  have y: "unat y = of_bool (y \<noteq> 0)" if "y < 2" for y :: u8
    using that by (cases "y = 0") (simp_all add: word_less_nat_alt unat_eq_zero [symmetric])
  have B: "bval (pkey X Y m) 0 321 = be_val X * 2 ^ 65 + unat Y * 2 ^ 64 + unat m" for m
    using bval_Key [of "\<lparr>kd_X = X, kd_Y = Y, kd_Maturity = m\<rparr>"] assms(1) y [OF assms(2)] by simp
  have D: "bval k 0 321 = be_val (kd_X d) * 2 ^ 65 + unat (kd_Y d) * 2 ^ 64 + unat (kd_Maturity d)"
    using bval_Key [OF d(2)] y [OF d(3)] by (simp only: d(1))
  have yl: "unat Y < 2" "unat (kd_Y d) < 2" using assms(2) d(3) by (simp_all add: word_less_nat_alt)
  show ?thesis
  proof
    assume A: "bval (pkey X Y m0) 0 321 \<le> bval k 0 321 \<and> bval k 0 321 \<le> bval (pkey X Y m1) 0 321"
    have "be_val (kd_X d) = be_val X \<and> unat (kd_Y d) = unat Y \<and> unat m0 \<le> unat (kd_Maturity d) \<and> unat (kd_Maturity d) \<le> unat m1"
      using A le yl unfolding B D by (intro lex_between) blast+
    then have "kd_X d = X" "kd_Y d = Y" "m0 \<le> kd_Maturity d" "kd_Maturity d \<le> m1"
      using be_val_inject d(2) assms(1) by (auto simp: word_le_nat_alt word_unat_eq_iff)
    then show "\<exists>m. k = pkey X Y m \<and> m0 \<le> m \<and> m \<le> m1" using d(1) by (intro exI [of _ "kd_Maturity d"]) (cases d, auto)
  next
    assume "\<exists>m. k = pkey X Y m \<and> m0 \<le> m \<and> m \<le> m1"
    then show "bval (pkey X Y m0) 0 321 \<le> bval k 0 321 \<and> bval k 0 321 \<le> bval (pkey X Y m1) 0 321"
      by (auto simp only: B word_le_nat_alt add_le_cancel_left)
  qed
qed

text \<open>The first leaf between two keys.\<close>

lemma iter_first: "iter (\<lambda>pp k x _. (Some (pp, k, x), False)) xs None = (case xs of [] \<Rightarrow> (None, True) | y # _ \<Rightarrow> (Some y, False))"
  by (cases xs) (auto split: prod.splits)

lemma in_bounds_bval: "in_bounds nB 0 (Some a, Some b) k \<longleftrightarrow> bval a 0 nB \<le> bval k 0 nB \<and> bval k 0 nB \<le> bval b 0 nB"
  by (auto simp: in_bounds_def Cmp_bits_sgn sgn_nat_diff)

lemma pleaves_of_leaves: "(k, x) \<in> set (leaves n) \<Longrightarrow> \<exists>p. (p, k, x) \<in> set (pleaves pp n)"
proof (induction n arbitrary: pp)
  case (Joint b cl kp h l r)
  then consider "(k, x) \<in> set (leaves l)" | "(k, x) \<in> set (leaves r)" by auto
  then show ?case using Joint.IH(1) [of "pp @ [False]"] Joint.IH(2) [of "pp @ [True]"] by cases auto
qed simp

lemma Traverse_first:
  assumes "uinv hp lh t" and "length X = 32" "Y < 2" and "m0 \<le> m1"
  shows "(Traverse (\<lambda>pp k x _. (Some (pp, k, x), False)) t (Some (pkey X Y m0), Some (pkey X Y m1)) None = (None, True) \<and>
       (\<forall>m. m0 \<le> m \<longrightarrow> m \<le> m1 \<longrightarrow> cnt t (pkey X Y m) = 0)) \<or>
    (\<exists>pp m x root b cl. Traverse (\<lambda>pp k x _. (Some (pp, k, x), False)) t (Some (pkey X Y m0), Some (pkey X Y m1)) None =
         (Some (pp, pkey X Y m, x), False) \<and> t = Some root \<and> node_at pp root = Some (Leaf b cl (pkey X Y m) x) \<and>
       look t (pkey X Y m) = Some x \<and> m0 \<le> m \<and> m \<le> m1 \<and> (\<forall>m'. m0 \<le> m' \<longrightarrow> m' < m \<longrightarrow> cnt t (pkey X Y m') = 0))"
proof (cases t)
  case None
  then show ?thesis by (simp add: Traverse_def cnt_def look_def tree_simps)
next
  case (Some n)
  let ?f = "\<lambda>pp k x _. (Some (pp, k, x), False)" and ?bnd = "(Some (pkey X Y m0), Some (pkey X Y m1))"
  let ?in = "\<lambda>x :: bool list \<times> bytes \<times> LeafIDs. in_bounds 321 0 ?bnd (fst (snd x))"
  have wf: "wf_node 321 0 n" using uinvD(1) [OF assms(1)] Some by (simp add: tree_inv_def tree_simps)
  have key: "is_key k" if "(p, k, x) \<in> set (pleaves [] n)" for p k x
  proof -
    have "snd (p, k, x) \<in> set (map snd (pleaves [] n))" using that by (metis image_eqI list.set_map)
    then show ?thesis using uinvD(3) [OF assms(1), of k x] Some by (simp add: tree_simps)
  qed
  have inb: "in_bounds 321 0 ?bnd k \<longleftrightarrow> (\<exists>m. k = pkey X Y m \<and> m0 \<le> m \<and> m \<le> m1)" if "is_key k" for k
    using pkey_between [OF assms(2,3) that assms(4)] unfolding in_bounds_bval by simp
  have T: "Traverse ?f t ?bnd None = (case filter ?in (pleaves [] n) of [] \<Rightarrow> (None, True) | y # _ \<Rightarrow> (Some y, False))"
    using Traverse_node_spec [OF wf, of ?f "[]" ?bnd None] Some by (simp add: Traverse_def iter_first)
  have absent: "cnt t (pkey X Y m) = 0" if "\<forall>p x. (p, pkey X Y m, x) \<notin> set (pleaves [] n)" for m
  proof (rule ccontr)
    assume "cnt t (pkey X Y m) \<noteq> 0"
    then obtain x where "(pkey X Y m, x) \<in> elems t" using look_iff [OF assms(1)] by (cases "look t (pkey X Y m)") (auto simp: cnt_def)
    then show False using that pleaves_of_leaves [of "pkey X Y m" x n "[]"] Some by (auto simp: tree_simps)
  qed
  show ?thesis
  proof (cases "filter ?in (pleaves [] n)")
    case Nil
    have "cnt t (pkey X Y m) = 0" if "m0 \<le> m" "m \<le> m1" for m
    proof (rule absent, intro allI notI)
      fix p x assume P: "(p, pkey X Y m, x) \<in> set (pleaves [] n)"
      then have "in_bounds 321 0 ?bnd (pkey X Y m)" using inb [OF key [OF P]] that by blast
      then show False using P Nil by (auto simp: filter_empty_conv)
    qed
    then show ?thesis using T Nil by simp
  next
    case (Cons y ys)
    obtain pp k x where y: "y = (pp, k, x)" by (cases y)
    obtain A B where AB: "pleaves [] n = A @ y # B" "\<forall>a \<in> set A. \<not> ?in a" "?in y"
      using Cons by (auto simp: filter_eq_Cons_iff)
    have yin: "(pp, k, x) \<in> set (pleaves [] n)" using AB(1) y by simp
    obtain m where m: "k = pkey X Y m" "m0 \<le> m" "m \<le> m1" using inb [OF key [OF yin]] AB(3) y by auto
    obtain b cl where nd: "node_at pp n = Some (Leaf b cl k x)" using node_at_pleaves [OF yin] by auto
    have "(k, x) \<in> set (map snd (pleaves [] n))" using AB(1) y by simp
    then have lk: "look t k = Some x" using look_iff [OF assms(1)] Some by (simp add: tree_simps)
    have "cnt t (pkey X Y m') = 0" if "m0 \<le> m'" "m' < m" for m'
    proof (rule absent, intro allI notI)
      fix p z assume P: "(p, pkey X Y m', z) \<in> set (pleaves [] n)"
      have "m' \<le> m1" using that(2) m(3) by simp
      then have I: "in_bounds 321 0 ?bnd (pkey X Y m')" using inb [OF key [OF P]] that(1) by blast
      have "m' \<noteq> m" using that(2) by simp
      have lt: "bval (pkey X Y m') 0 321 < bval k 0 321"
        using bval_Key [of "\<lparr>kd_X = X, kd_Y = Y, kd_Maturity = m'\<rparr>"] bval_Key [of "\<lparr>kd_X = X, kd_Y = Y, kd_Maturity = m\<rparr>"] assms(2) that(2) m(1)
        by (simp add: word_less_nat_alt)
      have srt: "sorted_wrt (\<lambda>a b. bval (fst (snd a)) 0 321 < bval (fst (snd b)) 0 321) (pleaves [] n)"
      proof -
        have "sorted_wrt (\<lambda>a b. bval (fst a) 0 321 < bval (fst b) 0 321) (map snd (pleaves [] n))"
          using leaves_sorted [OF wf] by (simp only: snd_pleaves diff_zero)
        then show ?thesis by (simp only: sorted_wrt_map)
      qed
      have "(p, pkey X Y m', z) \<in> set A"
      proof (rule ccontr)
        assume "(p, pkey X Y m', z) \<notin> set A"
        then have "(p, pkey X Y m', z) = y \<or> (p, pkey X Y m', z) \<in> set B" using P AB(1) by auto
        then show False
        proof
          assume "(p, pkey X Y m', z) = y"
          then show False using lt y by simp
        next
          assume "(p, pkey X Y m', z) \<in> set B"
          then have "bval k 0 321 < bval (pkey X Y m') 0 321" using srt AB(1) y by (auto simp: sorted_wrt_append)
          then show False using lt by simp
        qed
      qed
      then show False using AB(2) I by auto
    qed
    then show ?thesis using T Cons y m nd lk Some by (intro disjI2 exI [of _ pp] exI [of _ m] exI [of _ x] exI [of _ n] exI [of _ b] exI [of _ cl]) auto
  qed
qed

text \<open>The maturities an input may spend.\<close>

definition spendable :: "TxInput \<Rightarrow> u64 \<Rightarrow> u64 option \<Rightarrow> u64 \<Rightarrow> bool" where
  "spendable v h pHMax m \<longleftrightarrow> (case pHMax of None \<Rightarrow> m \<le> h - 1 | Some hMax \<Rightarrow> m = in_Maturity v \<and> m < hMax)"

definition spent :: "TxInput \<Rightarrow> u64 option \<Rightarrow> u64 \<Rightarrow> u64 \<Rightarrow> TxInput" where
  "spent v pHMax m w = (case pHMax of None \<Rightarrow> v\<lparr>in_Maturity := m, in_ID := w\<rparr> | Some _ \<Rightarrow> v)"

definition key_bounds :: "TxInput \<Rightarrow> u64 \<Rightarrow> u64 option \<Rightarrow> bytes \<times> bytes" where
  "key_bounds v h pHMax = (case pHMax of
     None \<Rightarrow> (pkey (in_X v) (in_Y v) 0, pkey (in_X v) (in_Y v) (h - 1))
   | Some _ \<Rightarrow> (pkey (in_X v) (in_Y v) (in_Maturity v), pkey (in_X v) (in_Y v) (in_Maturity v)))"

lemma first_spendable:
  assumes "uinv hp lh t" and "in_ok v" and "case pHMax of None \<Rightarrow> True | Some hMax \<Rightarrow> in_Maturity v < hMax"
  shows "(Traverse (\<lambda>pp k x _. (Some (pp, k, x), False)) t (map_prod Some Some (key_bounds v h pHMax)) None = (None, True) \<and>
       (\<forall>m. spendable v h pHMax m \<longrightarrow> cnt t (pkey (in_X v) (in_Y v) m) = 0)) \<or>
    (\<exists>pp m x root b cl. Traverse (\<lambda>pp k x _. (Some (pp, k, x), False)) t (map_prod Some Some (key_bounds v h pHMax)) None =
         (Some (pp, pkey (in_X v) (in_Y v) m, x), False) \<and> t = Some root \<and> node_at pp root = Some (Leaf b cl (pkey (in_X v) (in_Y v) m) x) \<and>
       look t (pkey (in_X v) (in_Y v) m) = Some x \<and> spendable v h pHMax m \<and>
       (\<forall>m'. spendable v h pHMax m' \<longrightarrow> m' < m \<longrightarrow> cnt t (pkey (in_X v) (in_Y v) m') = 0))"
proof (cases pHMax)
  case None
  have l: "length (in_X v) = 32" "in_Y v < 2" using assms(2) by (simp_all add: in_ok_def)
  from Traverse_first [OF assms(1) l word_zero_le [of "h - 1"]] show ?thesis
  proof (elim disjE exE conjE, goal_cases)
    case 1
    then show ?thesis by (intro disjI1) (simp add: None spendable_def key_bounds_def)
  next
    case (2 pp m x root b cl)
    then show ?thesis by (intro disjI2 exI [of _ pp] exI [of _ m] exI [of _ x] exI [of _ root] exI [of _ b] exI [of _ cl])
        (simp add: None spendable_def key_bounds_def)
  qed
next
  case (Some hMax)
  have l: "length (in_X v) = 32" "in_Y v < 2" using assms(2) by (simp_all add: in_ok_def)
  have I: "in_Maturity v \<le> m \<and> m \<le> in_Maturity v \<longleftrightarrow> m = in_Maturity v" for m by auto
  show ?thesis
  proof (rule disjE [OF Traverse_first [OF assms(1) l order_refl [of "in_Maturity v"]]], goal_cases)
    case 1
    then show ?thesis using assms(3) by (intro disjI1) (simp add: Some spendable_def key_bounds_def)
  next
    case 2
    then obtain pp m x root b cl where A: "Traverse (\<lambda>pp k x _. (Some (pp, k, x), False)) t (Some (ikey v), Some (ikey v)) None =
         (Some (pp, pkey (in_X v) (in_Y v) m, x), False)" "t = Some root" "node_at pp root = Some (Leaf b cl (pkey (in_X v) (in_Y v) m) x)"
       "look t (pkey (in_X v) (in_Y v) m) = Some x" "in_Maturity v \<le> m" "m \<le> in_Maturity v" by blast
    have "m = in_Maturity v" using A(5,6) by simp
    then show ?thesis using A(1-4) assms(3)
      by (intro disjI2 exI [of _ pp] exI [of _ m] exI [of _ x] exI [of _ root] exI [of _ b] exI [of _ cl])
        (simp add: Some spendable_def key_bounds_def)
  qed
qed

lemma HandleInput_Fwd_eq:
  assumes "case pHMax of None \<Rightarrow> True | Some hMax \<Rightarrow> in_Maturity v < hMax"
  shows "HandleInput_Fwd v h pHMax s =
    (case Traverse (\<lambda>pp k x _. (Some (pp, k, x), False)) (m_Utxos s) (map_prod Some Some (key_bounds v h pHMax)) None of
       (Some (pp, k, x), False) \<Rightarrow>
         (case x of
            ID nID \<Rightarrow> (case Delete (m_Utxos s) pp of None \<Rightarrow> None
              | Some t' \<Rightarrow> Some (True, spent v pHMax (kd_Maturity (Data_of_Key k)) nID, s\<lparr>m_Utxos := t'\<rparr>))
          | IDs q \<Rightarrow> (case PopID x of None \<Rightarrow> None
              | Some (nID, x') \<Rightarrow> Some (True, spent v pHMax (kd_Maturity (Data_of_Key k)) nID,
                  s\<lparr>m_Utxos := map_option (\<lambda>root. InvalidateElement pp (set_ids pp x' root)) (m_Utxos s)\<rparr>)))
     | _ \<Rightarrow> Some (False, v, s))"
  using assms unfolding HandleInput_Fwd_def key_bounds_def spent_def Let_def
  by (cases pHMax) (simp_all add: linorder_not_less [symmetric])

lemma HandleInput_Fwd_spec:
  assumes "uinv hp lh (m_Utxos s)" and "in_ok v"
  shows "(HandleInput_Fwd v h pHMax s = Some (False, v, s) \<and> (\<forall>m. spendable v h pHMax m \<longrightarrow> cnt (m_Utxos s) (pkey (in_X v) (in_Y v) m) = 0)) \<or>
    (\<exists>m w t'. HandleInput_Fwd v h pHMax s = Some (True, spent v pHMax m w, s\<lparr>m_Utxos := t'\<rparr>) \<and> spendable v h pHMax m \<and>
       0 < cnt (m_Utxos s) (pkey (in_X v) (in_Y v) m) \<and>
       (\<forall>m'. spendable v h pHMax m' \<longrightarrow> m' < m \<longrightarrow> cnt (m_Utxos s) (pkey (in_X v) (in_Y v) m') = 0) \<and> uinv hp lh t' \<and>
       cnt t' = (cnt (m_Utxos s))(pkey (in_X v) (in_Y v) m := cnt (m_Utxos s) (pkey (in_X v) (in_Y v) m) - 1))"
proof (cases "case pHMax of None \<Rightarrow> True | Some hMax \<Rightarrow> in_Maturity v < hMax")
  case False
  then have "HandleInput_Fwd v h pHMax s = Some (False, v, s)" "\<forall>m. \<not> spendable v h pHMax m"
    by (auto simp: HandleInput_Fwd_def spendable_def not_less split: option.splits)
  then show ?thesis by blast
next
  case True
  let ?t = "m_Utxos s" and ?K = "pkey (in_X v) (in_Y v)"
  from first_spendable [OF assms True, of h] show ?thesis
  proof (elim disjE conjE exE, goal_cases)
    case 1
    have "HandleInput_Fwd v h pHMax s = Some (False, v, s)" by (simp only: HandleInput_Fwd_eq [OF True] 1(1) prod.case option.case)
    then show ?thesis using 1(2) by blast
  next
    case (2 pp m x root b cl)
    have "(?K m, x) \<in> elems ?t" using look_iff [OF assms(1)] 2(4) by simp
    then have ok: "ids_ok x" using uinvD(2) [OF assms(1)] by blast
    have mat: "kd_Maturity (Data_of_Key (?K m)) = m"
      using Data_of_Key_of_Data [of "\<lparr>kd_X = in_X v, kd_Y = in_Y v, kd_Maturity = m\<rparr>"] assms(2) by (simp add: in_ok_def)
    have c: "cnt ?t (?K m) = length (ids x)" using 2(4) by (simp add: cnt_def)
    have U: "uinv hp lh (Some root)" using assms(1) 2(2) by simp
    show ?thesis
    proof (cases x)
      case (ID w)
      from Delete_look [OF U 2(3)] obtain t' where D: "Delete ?t pp = Some t'" "uinv hp lh t'" "look t' = (look ?t)(?K m := None)"
        unfolding 2(2) by blast
      have "HandleInput_Fwd v h pHMax s = Some (True, spent v pHMax m w, s\<lparr>m_Utxos := t'\<rparr>)"
        by (simp only: HandleInput_Fwd_eq [OF True] 2(1) prod.case option.case bool.case ID LeafIDs.case D(1) mat)
      moreover have "cnt t' = (cnt ?t)(?K m := cnt ?t (?K m) - 1)" using cnt_upd [OF D(3)] c ID by (simp add: ids_def)
      ultimately show ?thesis using 2(5,6) D(2) c ID
        by (intro disjI2 exI [of _ m] exI [of _ w] exI [of _ t']) (simp add: ids_def)
    next
      case (IDs q)
      then have "IsExt x" by (simp add: IsExt_def)
      from PopID_spec [OF ok this] obtain x' where P: "PopID x = Some (hd (ids x), x')" "ids_ok x'" "ids x' = tl (ids x)" by blast
      note S = set_ids_spec [OF U 2(3) P(2)]
      let ?r = "set_ids pp x' (InvalidateElement pp root)"
      have "HandleInput_Fwd v h pHMax s = Some (True, spent v pHMax m (hd (ids x)), s\<lparr>m_Utxos := Some ?r\<rparr>)"
        unfolding HandleInput_Fwd_eq [OF True] 2(1) prod.case option.case bool.case P(1) mat
        unfolding 2(2) option.map Invalidate_set_ids [OF 2(3)] by (simp add: IDs)
      moreover have "look (Some ?r) = (look ?t)(?K m := Some x')" using S 2(2) by simp
      from cnt_upd [OF this] have "cnt (Some ?r) = (cnt ?t)(?K m := cnt ?t (?K m) - 1)" using P(3) c by simp
      ultimately show ?thesis using 2(5,6) S c length_ids [OF ok]
        by (intro disjI2 exI [of _ m] exI [of _ "hd (ids x)"] exI [of _ "Some ?r"]) simp
    qed
  qed
qed

subsection \<open>A whole transaction\<close>

text \<open>A kernel with a relative lock names another kernel and the number of blocks to wait after it.\<close>

record 'k RelativeLock =
  rl_ID :: 'k
  rl_LockHeight :: u64

definition HeightGenesis :: u64 where "HeightGenesis = 1"

fun RelativeLocks_ok :: "('k \<Rightarrow> u64) \<Rightarrow> u64 \<Rightarrow> 'k RelativeLock option list \<Rightarrow> bool" where
  "RelativeLocks_ok FindKernel hLim [] = True"
| "RelativeLocks_ok FindKernel hLim (None # ks) = RelativeLocks_ok FindKernel hLim ks"
| "RelativeLocks_ok FindKernel hLim (Some x # ks) =
     (let h0 = FindKernel (rl_ID x)
      in if h0 < HeightGenesis then False
         else if HeightAdd h0 (rl_LockHeight x) > hLim then False
         else RelativeLocks_ok FindKernel hLim ks)"

text \<open>The loops over inputs and outputs: the boolean, the elements as left behind, how many passed, the state.\<close>

fun Inputs_loop ::
  "u64 \<Rightarrow> u64 option \<Rightarrow> bool \<Rightarrow> TxInput list \<Rightarrow> 'h::zero Utxos \<Rightarrow> (bool \<times> TxInput list \<times> nat \<times> 'h Utxos) option" where
  "Inputs_loop h pHMax bFwd [] s = Some (True, [], 0, s)"
| "Inputs_loop h pHMax bFwd (v # vs) s =
     (case HandleInput v h pHMax bFwd s of
        None \<Rightarrow> None
      | Some (False, v', s') \<Rightarrow> Some (False, v' # vs, 0, s')
      | Some (True, v', s') \<Rightarrow>
          (case Inputs_loop h pHMax bFwd vs s' of
             None \<Rightarrow> None
           | Some (ok, vs', n, s'') \<Rightarrow> Some (ok, v' # vs', Suc n, s'')))"

fun Outputs_loop ::
  "RulesMaturity \<Rightarrow> u64 \<Rightarrow> u64 option \<Rightarrow> bool \<Rightarrow> TxOutput list \<Rightarrow> 'h::zero Utxos \<Rightarrow> (bool \<times> nat \<times> 'h Utxos) option" where
  "Outputs_loop rules h pHMax bFwd [] s = Some (True, 0, s)"
| "Outputs_loop rules h pHMax bFwd (v # vs) s =
     (case HandleOutput rules v h pHMax bFwd s of
        None \<Rightarrow> None
      | Some (False, s') \<Rightarrow> Some (False, 0, s')
      | Some (True, s') \<Rightarrow>
          (case Outputs_loop rules h pHMax bFwd vs s' of
             None \<Rightarrow> None
           | Some (ok, n, s'') \<Rightarrow> Some (ok, Suc n, s'')))"

text \<open>Undoing the elements that passed, from the first on; the results of the handlers are ignored.\<close>

fun Undo_outputs :: "RulesMaturity \<Rightarrow> u64 \<Rightarrow> u64 option \<Rightarrow> TxOutput list \<Rightarrow> 'h::zero Utxos \<Rightarrow> 'h Utxos option" where
  "Undo_outputs rules h pHMax [] s = Some s"
| "Undo_outputs rules h pHMax (v # vs) s =
     (case HandleOutput rules v h pHMax False s of None \<Rightarrow> None | Some (_, s') \<Rightarrow> Undo_outputs rules h pHMax vs s')"

fun Undo_inputs :: "u64 \<Rightarrow> u64 option \<Rightarrow> TxInput list \<Rightarrow> 'h::zero Utxos \<Rightarrow> 'h Utxos option" where
  "Undo_inputs h pHMax [] s = Some s"
| "Undo_inputs h pHMax (v # vs) s =
     (case HandleInput v h pHMax False s of None \<Rightarrow> None | Some (_, _, s') \<Rightarrow> Undo_inputs h pHMax vs s')"

datatype 'h TxResult = TxOk "TxInput list" "'h Utxos" | TxRefused "TxInput list" "'h Utxos" | TxCorrupted

record 'k TxBody =
  tx_Kernels :: "'k RelativeLock option list"
  tx_Inputs :: "TxInput list"
  tx_Outputs :: "TxOutput list"

definition HandleValidatedTx ::
  "('k \<Rightarrow> u64) \<Rightarrow> RulesMaturity \<Rightarrow> 'k TxBody \<Rightarrow> u64 \<Rightarrow> bool \<Rightarrow> u64 option \<Rightarrow> 'h::zero Utxos \<Rightarrow> 'h TxResult option" where
  "HandleValidatedTx FindKernel rules tx h bFwd pHMax s =
     (if \<not> RelativeLocks_ok FindKernel (case pHMax of None \<Rightarrow> h | Some hMax \<Rightarrow> hMax) (tx_Kernels tx) then Some (TxRefused (tx_Inputs tx) s)
      else
        (case Inputs_loop h pHMax bFwd (tx_Inputs tx) s of
           None \<Rightarrow> None
         | Some (ok1, vs, nInp, s1) \<Rightarrow>
             (case (if ok1 then Outputs_loop rules h pHMax bFwd (tx_Outputs tx) s1 else Some (False, 0, s1)) of
                None \<Rightarrow> None
              | Some (bOk, nOut, s2) \<Rightarrow>
                  if bOk then Some (TxOk vs s2)
                  else if \<not> bFwd then Some TxCorrupted
                  else
                    (case Undo_outputs rules h pHMax (take nOut (tx_Outputs tx)) s2 of
                       None \<Rightarrow> None
                     | Some s3 \<Rightarrow> map_option (TxRefused vs) (Undo_inputs h pHMax (take nInp vs) s3)))))"

definition HandleValidatedBlock ::
  "('k \<Rightarrow> u64) \<Rightarrow> RulesMaturity \<Rightarrow> 'k TxBody \<Rightarrow> u64 \<Rightarrow> bool \<Rightarrow> u64 option \<Rightarrow> 'h::zero Utxos \<Rightarrow> 'h TxResult option" where
  "HandleValidatedBlock FindKernel rules body h bFwd pHMax s =
     (let s0 = (if bFwd then s else s\<lparr>m_Txos := m_Txos s - 1\<rparr>)
      in map_option (\<lambda>r. case r of TxOk vs s' \<Rightarrow> TxOk vs (if bFwd then s'\<lparr>m_Txos := m_Txos s' + 1\<rparr> else s') | _ \<Rightarrow> r)
           (HandleValidatedTx FindKernel rules body h bFwd pHMax s0))"

subsubsection \<open>Sequences of elements and the numbers of outputs\<close>

definition state_ok :: "('h \<Rightarrow> 'h \<Rightarrow> 'h) \<Rightarrow> (bytes \<Rightarrow> u32 \<Rightarrow> 'h) \<Rightarrow> 'h Utxos \<Rightarrow> bool" where
  "state_ok hp lh s \<longleftrightarrow> uinv hp lh (m_Utxos s)"

abbreviation num :: "'h Utxos \<Rightarrow> bytes \<Rightarrow> nat" where
  "num s \<equiv> cnt (m_Utxos s)"

lemma spent_ok: "in_ok v \<Longrightarrow> in_ok (spent v pHMax m w)"
  by (cases pHMax) (simp_all add: spent_def in_ok_def)

lemma ikey_spent: "spendable v h pHMax m \<Longrightarrow> ikey (spent v pHMax m w) = pkey (in_X v) (in_Y v) m"
  by (cases pHMax) (simp_all add: spent_def spendable_def)

lemma Inputs_Fwd:
  assumes "state_ok hp lh s" and "\<forall>v \<in> set vs. in_ok v"
  shows "\<exists>ok vs' n s'. Inputs_loop h pHMax True vs s = Some (ok, vs', n, s') \<and> state_ok hp lh s' \<and> m_Txos s' = m_Txos s \<and>
    length vs' = length vs \<and> n \<le> length vs \<and> (ok \<longrightarrow> n = length vs) \<and> (\<forall>v \<in> set vs'. in_ok v) \<and>
    (\<forall>k. num s k = num s' k + count_list (map ikey (take n vs')) k)"
  using assms
proof (induction vs arbitrary: s)
  case (Cons v vs)
  have v: "in_ok v" and U: "uinv hp lh (m_Utxos s)" using Cons.prems by (simp_all add: state_ok_def)
  from HandleInput_Fwd_spec [OF U v, of h pHMax] show ?case
  proof (elim disjE exE conjE, goal_cases)
    case 1
    then show ?thesis using Cons.prems
      by (intro exI [of _ False] exI [of _ "v # vs"] exI [of _ 0] exI [of _ s]) (simp add: HandleInput_def)
  next
    case (2 m w t')
    let ?s1 = "s\<lparr>m_Utxos := t'\<rparr>" and ?v' = "spent v pHMax m w"
    have "state_ok hp lh ?s1" using 2 by (simp add: state_ok_def)
    from Cons.IH [OF this] Cons.prems(2) obtain ok vs' n s' where
      I: "Inputs_loop h pHMax True vs ?s1 = Some (ok, vs', n, s')" "state_ok hp lh s'" "m_Txos s' = m_Txos s"
        "length vs' = length vs" "n \<le> length vs" "ok \<longrightarrow> n = length vs" "\<forall>v \<in> set vs'. in_ok v"
        "\<forall>k. num ?s1 k = num s' k + count_list (map ikey (take n vs')) k" by auto
    have "Inputs_loop h pHMax True (v # vs) s = Some (ok, ?v' # vs', Suc n, s')" using 2 I(1) by (simp add: HandleInput_def)
    moreover have "\<forall>k. num s k = num s' k + count_list (map ikey (take (Suc n) (?v' # vs'))) k"
    proof
      fix k
      have "num ?s1 k = num s' k + count_list (map ikey (take n vs')) k" using I(8) by blast
      then show "num s k = num s' k + count_list (map ikey (take (Suc n) (?v' # vs'))) k"
        using 2 ikey_spent [OF 2(2), of w] by (cases "k = pkey (in_X v) (in_Y v) m") auto
    qed
    ultimately show ?thesis using I spent_ok [OF v] by (intro exI [of _ ok] exI [of _ "?v' # vs'"] exI [of _ "Suc n"] exI [of _ s']) simp
  qed
qed (simp, blast)

lemma Undo_inputs_spec:
  assumes "state_ok hp lh s" and "\<forall>v \<in> set vs. in_ok v" and "\<forall>k. num s k + count_list (map ikey vs) k < 2 ^ 32"
  shows "\<exists>s'. Undo_inputs h pHMax vs s = Some s' \<and> Inputs_loop h pHMax False vs s = Some (True, vs, length vs, s') \<and>
    state_ok hp lh s' \<and> m_Txos s' = m_Txos s \<and> (\<forall>k. num s' k = num s k + count_list (map ikey vs) k)"
  using assms
proof (induction vs arbitrary: s)
  case (Cons v vs)
  have v: "in_ok v" and U: "uinv hp lh (m_Utxos s)" using Cons.prems by (simp_all add: state_ok_def)
  have lt: "Suc (num s (ikey v)) < 2 ^ 32" using spec [OF Cons.prems(3), of "ikey v"] by simp
  from HandleInput_Bwd_spec [OF U v lt] obtain t' where
    T: "HandleInput_Bwd v s = Some (True, v, s\<lparr>m_Utxos := t'\<rparr>)" "uinv hp lh t'" "cnt t' = (num s)(ikey v := Suc (num s (ikey v)))" by blast
  let ?s1 = "s\<lparr>m_Utxos := t'\<rparr>"
  have c: "num ?s1 k + count_list (map ikey vs) k = num s k + count_list (map ikey (v # vs)) k" for k using T(3) by simp
  have "state_ok hp lh ?s1" using T(2) by (simp add: state_ok_def)
  moreover have "\<forall>k. num ?s1 k + count_list (map ikey vs) k < 2 ^ 32" unfolding c using Cons.prems(3) by blast
  ultimately obtain s' where S: "Undo_inputs h pHMax vs ?s1 = Some s'" "Inputs_loop h pHMax False vs ?s1 = Some (True, vs, length vs, s')"
    "state_ok hp lh s'" "m_Txos s' = m_Txos s" "\<forall>k. num s' k = num ?s1 k + count_list (map ikey vs) k"
    using Cons.IH [of ?s1] Cons.prems(2) by auto
  have "\<forall>k. num s' k = num s k + count_list (map ikey (v # vs)) k" using S(5) c by auto
  then show ?case using S T(1) by (simp add: HandleInput_def)
qed simp

text \<open>An output that is refused for the maturity it declares (macroblocks only).\<close>

definition mat_ok :: "RulesMaturity \<Rightarrow> u64 \<Rightarrow> u64 option \<Rightarrow> TxOutput \<Rightarrow> bool" where
  "mat_ok rules h pHMax v \<longleftrightarrow> (pHMax \<noteq> None \<longrightarrow> get_MinMaturity rules v h \<le> out_Maturity v)"

lemma Outputs_Fwd:
  assumes "state_ok hp lh s" and "\<forall>v \<in> set vs. out_ok v"
  shows "\<exists>ok n s'. Outputs_loop rules h pHMax True vs s = Some (ok, n, s') \<and> state_ok hp lh s' \<and> m_Txos s' = m_Txos s + of_nat n \<and>
    n \<le> length vs \<and> (ok \<longrightarrow> n = length vs) \<and> (\<forall>v \<in> set (take n vs). mat_ok rules h pHMax v) \<and>
    (\<forall>k. num s' k = num s k + count_list (map (okey rules h pHMax) (take n vs)) k)"
  using assms
proof (induction vs arbitrary: s)
  case (Cons v vs)
  have v: "out_ok v" and U: "uinv hp lh (m_Utxos s)" using Cons.prems by (simp_all add: state_ok_def)
  let ?k = "okey rules h pHMax v"
  show ?case
  proof (cases "Suc (num s ?k) < 2 ^ 32 \<and> mat_ok rules h pHMax v")
    case False
    then have "\<not> Suc (num s ?k) < 2 ^ 32 \<or> pHMax \<noteq> None \<and> out_Maturity v < get_MinMaturity rules v h" by (auto simp: mat_ok_def)
    from HandleOutput_Fwd_refused [OF U v this] obtain t' where
      "HandleOutput rules v h pHMax True s = Some (False, s\<lparr>m_Utxos := t'\<rparr>)" "uinv hp lh t'" "cnt t' = num s" by blast
    then show ?thesis
      by (intro exI [of _ False] exI [of _ 0] exI [of _ "s\<lparr>m_Utxos := t'\<rparr>"]) (simp add: state_ok_def)
  next
    case True
    from HandleOutput_Fwd_spec [OF U v, of rules h pHMax] True obtain t' where
      T: "HandleOutput rules v h pHMax True s = Some (True, s\<lparr>m_Utxos := t', m_Txos := m_Txos s + 1\<rparr>)" "uinv hp lh t'"
        "cnt t' = (num s)(?k := Suc (num s ?k))" by (auto simp: mat_ok_def)
    let ?s1 = "s\<lparr>m_Utxos := t', m_Txos := m_Txos s + 1\<rparr>"
    have "state_ok hp lh ?s1" using T(2) by (simp add: state_ok_def)
    from Cons.IH [OF this] Cons.prems(2) obtain ok n s' where
      I: "Outputs_loop rules h pHMax True vs ?s1 = Some (ok, n, s')" "state_ok hp lh s'" "m_Txos s' = m_Txos s + 1 + of_nat n"
        "n \<le> length vs" "ok \<longrightarrow> n = length vs" "\<forall>v \<in> set (take n vs). mat_ok rules h pHMax v"
        "\<forall>k. num s' k = num ?s1 k + count_list (map (okey rules h pHMax) (take n vs)) k" by auto
    have "Outputs_loop rules h pHMax True (v # vs) s = Some (ok, Suc n, s')" using T(1) I(1) by simp
    moreover have "\<forall>k. num s' k = num s k + count_list (map (okey rules h pHMax) (take (Suc n) (v # vs))) k" using I(7) T(3) by simp
    ultimately show ?thesis using I True by (intro exI [of _ ok] exI [of _ "Suc n"] exI [of _ s']) (simp add: add.assoc)
  qed
qed (simp, blast)

lemma Undo_outputs_spec:
  assumes "state_ok hp lh s" and "\<forall>v \<in> set vs. out_ok v \<and> mat_ok rules h pHMax v"
    and "\<forall>k. count_list (map (okey rules h pHMax) vs) k \<le> num s k"
  shows "\<exists>s'. Undo_outputs rules h pHMax vs s = Some s' \<and> Outputs_loop rules h pHMax False vs s = Some (True, length vs, s') \<and>
    state_ok hp lh s' \<and> m_Txos s' = m_Txos s - of_nat (length vs) \<and>
    (\<forall>k. num s k = num s' k + count_list (map (okey rules h pHMax) vs) k)"
  using assms
proof (induction vs arbitrary: s)
  case (Cons v vs)
  let ?k = "okey rules h pHMax v"
  have v: "out_ok v" "mat_ok rules h pHMax v" and U: "uinv hp lh (m_Utxos s)" using Cons.prems by (simp_all add: state_ok_def)
  have pos: "0 < num s ?k" using spec [OF Cons.prems(3), of ?k] by simp
  from HandleOutput_Bwd_spec [OF U v(1) pos] v(2) obtain t' where
    T: "HandleOutput rules v h pHMax False s = Some (True, s\<lparr>m_Utxos := t', m_Txos := m_Txos s - 1\<rparr>)" "uinv hp lh t'"
      "cnt t' = (num s)(?k := num s ?k - 1)" by (auto simp: mat_ok_def)
  let ?s1 = "s\<lparr>m_Utxos := t', m_Txos := m_Txos s - 1\<rparr>"
  have "state_ok hp lh ?s1" using T(2) by (simp add: state_ok_def)
  moreover have "\<forall>k. count_list (map (okey rules h pHMax) vs) k \<le> num ?s1 k"
  proof
    fix k show "count_list (map (okey rules h pHMax) vs) k \<le> num ?s1 k"
      using spec [OF Cons.prems(3), of k] T(3) by (cases "k = ?k") auto
  qed
  ultimately obtain s' where S: "Undo_outputs rules h pHMax vs ?s1 = Some s'" "Outputs_loop rules h pHMax False vs ?s1 = Some (True, length vs, s')"
    "state_ok hp lh s'" "m_Txos s' = m_Txos s - 1 - of_nat (length vs)" "\<forall>k. num ?s1 k = num s' k + count_list (map (okey rules h pHMax) vs) k"
    using Cons.IH [of ?s1] Cons.prems(2) by auto
  have "\<forall>k. num s k = num s' k + count_list (map (okey rules h pHMax) (v # vs)) k"
  proof
    fix k show "num s k = num s' k + count_list (map (okey rules h pHMax) (v # vs)) k"
      using spec [OF S(5), of k] T(3) pos by (cases "k = ?k") auto
  qed
  then show ?case using S T(1) by (simp add: algebra_simps)
qed simp

lemma root_of_num:
  assumes "state_ok hp lh s" "state_ok hp lh s'" and "\<forall>k. num s k = num s' k"
  shows "root_hash hp (LeafHash lh) (m_Utxos s) = root_hash hp (LeafHash lh) (m_Utxos s')"
  using root_of_cnt [of hp lh "m_Utxos s" "m_Utxos s'"] assms by (simp add: state_ok_def fun_eq_iff)

text \<open>What applying a transaction does, whether it is accepted or refused.\<close>

definition tx_ok :: "'k TxBody \<Rightarrow> bool" where
  "tx_ok tx \<longleftrightarrow> (\<forall>v \<in> set (tx_Inputs tx). in_ok v) \<and> (\<forall>v \<in> set (tx_Outputs tx). out_ok v)"

lemma num_bound: "state_ok hp lh s \<Longrightarrow> num s k < 2 ^ 32"
  unfolding state_ok_def
  using look_iff [of hp lh "m_Utxos s" k] uinvD(2) [of hp lh "m_Utxos s" k] length_ids by (cases "look (m_Utxos s) k") (auto simp: cnt_def)

lemma HandleValidatedTx_cases:
  assumes "state_ok hp lh s" and "tx_ok tx"
  obtains
    (ok) vs s' where "HandleValidatedTx FindKernel rules tx h True pHMax s = Some (TxOk vs s')" "state_ok hp lh s'"
      "length vs = length (tx_Inputs tx)" "\<forall>v \<in> set vs. in_ok v" "\<forall>v \<in> set (tx_Outputs tx). mat_ok rules h pHMax v"
      "m_Txos s' = m_Txos s + of_nat (length (tx_Outputs tx))"
      "\<forall>k. num s k + count_list (map (okey rules h pHMax) (tx_Outputs tx)) k = num s' k + count_list (map ikey vs) k"
      "RelativeLocks_ok FindKernel (case pHMax of None \<Rightarrow> h | Some hMax \<Rightarrow> hMax) (tx_Kernels tx)"
  | (refused) vs s' where "HandleValidatedTx FindKernel rules tx h True pHMax s = Some (TxRefused vs s')" "state_ok hp lh s'"
      "m_Txos s' = m_Txos s" "\<forall>k. num s' k = num s k"
proof (cases "RelativeLocks_ok FindKernel (case pHMax of None \<Rightarrow> h | Some hMax \<Rightarrow> hMax) (tx_Kernels tx)")
  case False
  then have "HandleValidatedTx FindKernel rules tx h True pHMax s = Some (TxRefused (tx_Inputs tx) s)" by (simp add: HandleValidatedTx_def)
  from refused [OF this assms(1)] show thesis by simp
next
  case True
  from Inputs_Fwd [OF assms(1), of "tx_Inputs tx" h pHMax] assms(2) obtain ok1 vs n s1 where
    I: "Inputs_loop h pHMax True (tx_Inputs tx) s = Some (ok1, vs, n, s1)" "state_ok hp lh s1" "m_Txos s1 = m_Txos s"
      "length vs = length (tx_Inputs tx)" "ok1 \<longrightarrow> n = length (tx_Inputs tx)" "\<forall>v \<in> set vs. in_ok v"
      "\<forall>k. num s k = num s1 k + count_list (map ikey (take n vs)) k" by (auto simp: tx_ok_def)
  have und: "\<exists>s4. Undo_inputs h pHMax (take n vs) s3 = Some s4 \<and> state_ok hp lh s4 \<and> m_Txos s4 = m_Txos s3 \<and> (\<forall>k. num s4 k = num s k)"
    if "state_ok hp lh s3" "\<forall>k. num s3 k = num s1 k" for s3
  proof -
    have "\<forall>k. num s3 k + count_list (map ikey (take n vs)) k < 2 ^ 32"
    proof
      fix k show "num s3 k + count_list (map ikey (take n vs)) k < 2 ^ 32"
        using that(2) spec [OF I(7), of k] num_bound [OF assms(1), of k] by simp
    qed
    moreover have "\<forall>v \<in> set (take n vs). in_ok v" using I(6) by (auto dest: in_set_takeD)
    ultimately show ?thesis using Undo_inputs_spec [OF that(1), of "take n vs" h pHMax] that(2) I(7) by auto
  qed
  show thesis
  proof (cases ok1)
    case False
    from und [OF I(2)] obtain s4 where "Undo_inputs h pHMax (take n vs) s1 = Some s4" "state_ok hp lh s4" "m_Txos s4 = m_Txos s1" "\<forall>k. num s4 k = num s k" by auto
    with True False I(1,3) show thesis by (intro refused [of vs s4]) (simp_all add: HandleValidatedTx_def)
  next
    case ok1: True
    from Outputs_Fwd [OF I(2), of "tx_Outputs tx" rules h pHMax] assms(2) obtain ok2 m s2 where
      O: "Outputs_loop rules h pHMax True (tx_Outputs tx) s1 = Some (ok2, m, s2)" "state_ok hp lh s2" "m_Txos s2 = m_Txos s1 + of_nat m"
        "ok2 \<longrightarrow> m = length (tx_Outputs tx)" "\<forall>v \<in> set (take m (tx_Outputs tx)). mat_ok rules h pHMax v"
        "\<forall>k. num s2 k = num s1 k + count_list (map (okey rules h pHMax) (take m (tx_Outputs tx))) k" "m \<le> length (tx_Outputs tx)"
      by (auto simp: tx_ok_def)
    show thesis
    proof (cases ok2)
      case ok2: True
      then show thesis using True ok1 I O by (intro ok [of vs s2]) (simp_all add: HandleValidatedTx_def)
    next
      case False
      have "\<forall>v \<in> set (take m (tx_Outputs tx)). out_ok v \<and> mat_ok rules h pHMax v" using O(5) assms(2) by (auto simp: tx_ok_def dest: in_set_takeD)
      moreover have "\<forall>k. count_list (map (okey rules h pHMax) (take m (tx_Outputs tx))) k \<le> num s2 k" using O(6) by simp
      ultimately obtain s3 where U: "Undo_outputs rules h pHMax (take m (tx_Outputs tx)) s2 = Some s3" "state_ok hp lh s3"
        "m_Txos s3 = m_Txos s2 - of_nat (length (take m (tx_Outputs tx)))"
        "\<forall>k. num s2 k = num s3 k + count_list (map (okey rules h pHMax) (take m (tx_Outputs tx))) k"
        using Undo_outputs_spec [OF O(2), of "take m (tx_Outputs tx)" rules h pHMax] by blast
      have "\<forall>k. num s3 k = num s1 k"
      proof
        fix k show "num s3 k = num s1 k" using spec [OF U(4), of k] spec [OF O(6), of k] by simp
      qed
      from und [OF U(2) this] obtain s4 where
        "Undo_inputs h pHMax (take n vs) s3 = Some s4" "state_ok hp lh s4" "m_Txos s4 = m_Txos s3" "\<forall>k. num s4 k = num s k" by auto
      with True ok1 False I(1,3) O(1,3,7) U(1,3) show thesis
        by (intro refused [of vs s4]) (simp_all add: HandleValidatedTx_def)
    qed
  qed
qed

subsection \<open>Properties\<close>

text \<open>
  C1: applying a transaction is atomic.  On a well-formed state it always returns; when it is accepted
  every output it creates is added and every input removes exactly one output, and when an element in the
  middle is refused the elements applied before it are undone and the root hash and the number of outputs
  are those before the transaction.
\<close>

theorem Tx_atomic:
  assumes "state_ok hp lh s" and "tx_ok tx"
  shows "\<exists>r. HandleValidatedTx FindKernel rules tx h True pHMax s = Some r \<and>
    (case r of
       TxOk vs s' \<Rightarrow> state_ok hp lh s' \<and> length vs = length (tx_Inputs tx) \<and>
         m_Txos s' = m_Txos s + of_nat (length (tx_Outputs tx)) \<and>
         (\<forall>k. num s k + count_list (map (okey rules h pHMax) (tx_Outputs tx)) k = num s' k + count_list (map ikey vs) k)
     | TxRefused vs s' \<Rightarrow> state_ok hp lh s' \<and> m_Txos s' = m_Txos s \<and>
         snd (RadixTree.get_Hash hp (LeafHash lh) (m_Utxos s')) = snd (RadixTree.get_Hash hp (LeafHash lh) (m_Utxos s))
     | TxCorrupted \<Rightarrow> False)"
proof (cases rule: HandleValidatedTx_cases [OF assms, of FindKernel rules h pHMax, case_names ok refused])
  case (ok vs s')
  then show ?thesis by (intro exI [of _ "TxOk vs s'"]) simp
next
  case (refused vs s')
  then show ?thesis using root_of_num [OF refused(2) assms(1) refused(4)]
    by (intro exI [of _ "TxRefused vs s'"]) (simp add: root_hash_def)
qed

definition block1 :: "nat TxBody" where
  "block1 = \<lparr>tx_Kernels = [], tx_Inputs = [],
     tx_Outputs = [\<lparr>out_X = replicate 32 0, out_Y = 0, out_Coinbase = True, out_Incubation = 0, out_Maturity = 0\<rparr>]\<rparr>"

definition rules1 :: RulesMaturity where
  "rules1 = \<lparr>Coinbase = 60, Std = 0\<rparr>"

definition empty1 :: "nat Utxos" where
  "empty1 = \<lparr>m_Utxos = None, m_Txos = 0\<rparr>"

lemma empty1_ok: "state_ok (\<lambda>a b. a + b) (\<lambda>k c. unat c) empty1" "tx_ok block1"
  by (simp_all add: empty1_def state_ok_def uinv_def tree_inv_def tree_simps block1_def tx_ok_def out_ok_def)

theorem Tx_atomic_witness:
  "\<exists>r. HandleValidatedTx (\<lambda>_. 0) rules1 (block1\<lparr>tx_Inputs := [\<lparr>in_X = replicate 32 0, in_Y = 0, in_Maturity = 0, in_ID = 0\<rparr>]\<rparr>) 5 True None empty1 = Some r \<and>
    (case r of TxOk vs s' \<Rightarrow> state_ok (\<lambda>a b. a + b) (\<lambda>k c. unat c) s' | TxRefused vs s' \<Rightarrow> m_Txos s' = 0 | TxCorrupted \<Rightarrow> False)"
proof -
  let ?tx = "block1\<lparr>tx_Inputs := [\<lparr>in_X = replicate 32 0, in_Y = 0, in_Maturity = 0, in_ID = 0\<rparr>]\<rparr>"
  have "tx_ok ?tx" using empty1_ok(2) by (simp add: tx_ok_def in_ok_def)
  from Tx_atomic [OF empty1_ok(1) this, of "\<lambda>_. 0" rules1 5 None] obtain r where
    "HandleValidatedTx (\<lambda>_. 0) rules1 ?tx 5 True None empty1 = Some r"
    "case r of
       TxOk vs s' \<Rightarrow> state_ok (\<lambda>a b. a + b) (\<lambda>k c. unat c) s' \<and> length vs = length (tx_Inputs ?tx) \<and>
         m_Txos s' = m_Txos empty1 + of_nat (length (tx_Outputs ?tx)) \<and>
         (\<forall>k. num empty1 k + count_list (map (okey rules1 5 None) (tx_Outputs ?tx)) k = num s' k + count_list (map ikey vs) k)
     | TxRefused vs s' \<Rightarrow> state_ok (\<lambda>a b. a + b) (\<lambda>k c. unat c) s' \<and> m_Txos s' = m_Txos empty1 \<and>
         snd (RadixTree.get_Hash (\<lambda>a b. a + b) (LeafHash (\<lambda>k c. unat c)) (m_Utxos s')) =
         snd (RadixTree.get_Hash (\<lambda>a b. a + b) (LeafHash (\<lambda>k c. unat c)) (m_Utxos empty1))
     | TxCorrupted \<Rightarrow> False" by blast
  then show ?thesis by (intro exI [of _ r]) (cases r; simp add: empty1_def)
qed

text \<open>
  C2: undoing a block.  After a block has been applied, handling it backwards, with the maturities and
  identifiers that the forward pass wrote into its inputs, succeeds and restores the root hash and the
  number of outputs.
\<close>

theorem Block_undo:
  assumes "state_ok hp lh s" and "tx_ok body"
    and "HandleValidatedBlock FindKernel rules body h True pHMax s = Some (TxOk vs s')"
    and "\<forall>k. num s' k + count_list (map ikey vs) k < 2 ^ 32"
  shows "\<exists>s''. HandleValidatedBlock FindKernel rules (body\<lparr>tx_Inputs := vs\<rparr>) h False pHMax s' = Some (TxOk vs s'') \<and>
    state_ok hp lh s'' \<and> m_Txos s'' = m_Txos s \<and>
    snd (RadixTree.get_Hash hp (LeafHash lh) (m_Utxos s'')) = snd (RadixTree.get_Hash hp (LeafHash lh) (m_Utxos s))"
proof (cases rule: HandleValidatedTx_cases [OF assms(1,2), of FindKernel rules h pHMax, case_names ok refused])
  case (refused vs1 s1)
  then show ?thesis using assms(3) by (simp add: HandleValidatedBlock_def)
next
  case (ok vs1 s1)
  have eq: "vs1 = vs" "s' = s1\<lparr>m_Txos := m_Txos s1 + 1\<rparr>" using ok(1) assms(3) by (simp_all add: HandleValidatedBlock_def)
  let ?s0 = "s1\<lparr>m_Txos := m_Txos s1\<rparr>" and ?O = "map (okey rules h pHMax) (tx_Outputs body)"
  have s0: "s'\<lparr>m_Txos := m_Txos s' - 1\<rparr> = s1" using eq(2) by simp
  have bound: "\<forall>k. num s1 k + count_list (map ikey vs) k < 2 ^ 32" using assms(4) eq(2) by simp
  from Undo_inputs_spec [OF ok(2) ok(4) [unfolded eq(1)] bound, of h pHMax] obtain s2 where
    I: "Inputs_loop h pHMax False vs s1 = Some (True, vs, length vs, s2)" "state_ok hp lh s2" "m_Txos s2 = m_Txos s1"
      "\<forall>k. num s2 k = num s1 k + count_list (map ikey vs) k" by blast
  have e: "num s2 k = num s k + count_list ?O k" for k using spec [OF I(4), of k] spec [OF ok(7), of k] eq(1) by simp
  have "\<forall>v \<in> set (tx_Outputs body). out_ok v \<and> mat_ok rules h pHMax v" using ok(5) assms(2) by (simp add: tx_ok_def)
  moreover have "\<forall>k. count_list ?O k \<le> num s2 k" unfolding e by simp
  ultimately obtain s3 where U: "Outputs_loop rules h pHMax False (tx_Outputs body) s2 = Some (True, length (tx_Outputs body), s3)"
    "state_ok hp lh s3" "m_Txos s3 = m_Txos s2 - of_nat (length (tx_Outputs body))" "\<forall>k. num s2 k = num s3 k + count_list ?O k"
    using Undo_outputs_spec [OF I(2)] by blast
  have "HandleValidatedBlock FindKernel rules (body\<lparr>tx_Inputs := vs\<rparr>) h False pHMax s' = Some (TxOk vs s3)"
    using ok(8) I(1) U(1) by (simp add: HandleValidatedBlock_def HandleValidatedTx_def s0)
  moreover have "\<forall>k. num s3 k = num s k"
  proof
    fix k show "num s3 k = num s k" using spec [OF U(4), of k] e [of k] by simp
  qed
  ultimately show ?thesis using U(2,3) I(3) ok(6) root_of_num [OF U(2) assms(1)] by (auto simp: root_hash_def)
qed

theorem Block_undo_witness:
  "\<exists>vs s' s''. HandleValidatedBlock (\<lambda>_. 0) rules1 block1 5 True None empty1 = Some (TxOk vs s') \<and>
     HandleValidatedBlock (\<lambda>_. 0) rules1 (block1\<lparr>tx_Inputs := vs\<rparr>) 5 False None s' = Some (TxOk vs s'') \<and> m_Txos s'' = 0"
proof -
  let ?k = "pkey (replicate 32 0) 0 65"
  let ?s = "\<lparr>m_Utxos = Some (Leaf 321 False ?k (ID 0)), m_Txos = 2\<rparr> :: nat Utxos"
  have A: "HandleValidatedBlock (\<lambda>_. 0) rules1 block1 5 True None empty1 = Some (TxOk [] ?s)"
    by (simp add: HandleValidatedBlock_def HandleValidatedTx_def block1_def rules1_def empty1_def HandleOutput_def get_MinMaturity_def
        HeightAdd_def Find_def Goto_def leaf_ids_def InvalidateElement_def)
  have "\<forall>k. num ?s k + count_list (map ikey []) k < 2 ^ 32" by (simp add: cnt_def look_def tree_simps ids_def)
  from Block_undo [OF empty1_ok A this] obtain s'' where
    "HandleValidatedBlock (\<lambda>_. 0) rules1 (block1\<lparr>tx_Inputs := []\<rparr>) 5 False None ?s = Some (TxOk [] s'')" "m_Txos s'' = m_Txos empty1" by blast
  then show ?thesis using A by (intro exI [of _ "[]"] exI [of _ ?s] exI [of _ s'']) (simp add: empty1_def)
qed



end
