(* ===== verification/Mapped_File.thy ===== *)
theory Mapped_File
  imports UintBig
begin

section \<open>The mapped file and its block allocator (core/mapped_file.cpp)\<close>

text \<open>
  \<open>MappedFile\<close> keeps a signature, a table of banks, a fixed header and blocks of a few fixed sizes in one
  memory-mapped file.  Every bank chains its free blocks through their first word.  The operating system is a
  parameter: it grants or refuses each growth of the file.  The loops are partial functions; that they end is
  proved.  The invariant \<open>alloc_ok\<close> says that the free lists are well formed and that no two blocks overlap.
\<close>

unbundle bit_operations_syntax

subsection \<open>State\<close>

record Bank =
  m_Tail :: nat
  m_Total :: nat
  m_Free :: nat

record Hdr =
  m_Root :: nat
  m_Dirty :: bool
  m_Stamp :: bytes

text \<open>
  A mapped file as its readers see it: the size, the bytes of the signature, the banks behind it, the fixed
  header of the mapped tree, and the 64-bit word at every offset.  All words the code reads and writes are at
  multiples of eight, so two different ones never overlap; bytes that the file does not have read as zero.
\<close>

record MappedFile =
  m_nMapping :: nat
  m_Sig :: bytes
  m_Banks :: "Bank list"
  m_Hdr :: Hdr
  m_Words :: "nat \<Rightarrow> nat"

record Defs =
  m_pSig :: bytes
  m_nBanks :: nat
  m_nFixedHdr :: nat

datatype MapError = SysError

definition AlignUp :: "nat \<Rightarrow> nat \<Rightarrow> nat" where
  "AlignUp x nAlignment = nat ((int x + (int nAlignment - 1)) AND NOT (int nAlignment - 1))"

definition get_Bank0 :: "Defs \<Rightarrow> nat" where
  "get_Bank0 d = AlignUp (length (m_pSig d)) 8"

definition get_SizeMin :: "Defs \<Rightarrow> nat" where
  "get_SizeMin d = get_Bank0 d + m_nBanks d * 24 + AlignUp (m_nFixedHdr d) 8"

definition zero_bank :: Bank where
  "zero_bank = \<lparr>m_Tail = 0, m_Total = 0, m_Free = 0\<rparr>"

definition zero_hdr :: Hdr where
  "zero_hdr = \<lparr>m_Root = 0, m_Dirty = False, m_Stamp = memset0 32\<rparr>"

text \<open>
  Resizing.  The code shrinks a file only to its signature, which cuts off the banks, the header and all
  blocks; bytes added later are zero.
\<close>

definition Resize :: "Defs \<Rightarrow> nat \<Rightarrow> MappedFile \<Rightarrow> MappedFile" where
  "Resize d n f =
     (if n \<le> length (m_pSig d)
      then f\<lparr>m_nMapping := n, m_Banks := replicate (m_nBanks d) zero_bank, m_Hdr := zero_hdr, m_Words := (\<lambda>a. 0)\<rparr>
      else f\<lparr>m_nMapping := n\<rparr>)"

definition MF_Open :: "Defs \<Rightarrow> bool \<Rightarrow> MappedFile \<Rightarrow> MappedFile" where
  "MF_Open d bReset f =
     (let nSizeMin = get_SizeMin d
      in if bReset \<or> m_nMapping f < nSizeMin \<or> m_Sig f \<noteq> m_pSig d then
           let f1 = if m_nMapping f > length (m_pSig d) then Resize d (length (m_pSig d)) f else f;
               f2 = Resize d nSizeMin f1
           in f2\<lparr>m_Sig := m_pSig d\<rparr>
         else f)"

subsection \<open>Growing a bank\<close>

text \<open>Where the next offset of the list goes: into the tail of the bank, or into the block before.\<close>

datatype Slot = Tail | At nat

definition upd_bank :: "nat \<Rightarrow> (Bank \<Rightarrow> Bank) \<Rightarrow> MappedFile \<Rightarrow> MappedFile" where
  "upd_bank iBank g f = f\<lparr>m_Banks := (m_Banks f)[iBank := g (m_Banks f ! iBank)]\<rparr>"

definition put :: "nat \<Rightarrow> Slot \<Rightarrow> nat \<Rightarrow> MappedFile \<Rightarrow> MappedFile" where
  "put iBank p v f =
     (case p of Tail \<Rightarrow> upd_bank iBank (\<lambda>b. b\<lparr>m_Tail := v\<rparr>) f | At a \<Rightarrow> f\<lparr>m_Words := (m_Words f)(a := v)\<rparr>)"

partial_function (option) Grow_loop :: "nat \<Rightarrow> nat \<Rightarrow> nat \<Rightarrow> Slot \<Rightarrow> MappedFile \<Rightarrow> MappedFile option" where
  "Grow_loop iBank nSize n0 p f =
     (let n0' = n0 + nSize
      in if n0' > m_nMapping f then Some f
         else Grow_loop iBank nSize n0' (At n0)
                (upd_bank iBank (\<lambda>b. b\<lparr>m_Total := m_Total b + 1, m_Free := m_Free b + 1\<rparr>) (put iBank p n0 f)))"

text \<open>
  \<open>fs n\<close> tells whether the operating system can resize the file to \<open>n\<close> bytes and map it; new bytes of a
  file are zero.
\<close>

partial_function (option) MF_EnsureReserve ::
  "nat \<Rightarrow> (nat \<Rightarrow> bool) \<Rightarrow> nat \<Rightarrow> nat \<Rightarrow> nat \<Rightarrow> MappedFile \<Rightarrow> (MapError + MappedFile) option" where
  "MF_EnsureReserve s_PageSize fs iBank nSize nMinFree f =
     (if m_Free (m_Banks f ! iBank) < nMinFree then
        let n0 = m_nMapping f;
            n1 = AlignUp n0 s_PageSize + s_PageSize;
            nSize = AlignUp nSize 8
        in if \<not> fs n1 then Some (Inl SysError)
           else
             (case Grow_loop iBank nSize n0 Tail (f\<lparr>m_nMapping := n1\<rparr>) of
                None \<Rightarrow> None
              | Some f' \<Rightarrow> MF_EnsureReserve s_PageSize fs iBank nSize nMinFree f')
      else Some (Inr f))"

definition Allocate ::
  "nat \<Rightarrow> (nat \<Rightarrow> bool) \<Rightarrow> nat \<Rightarrow> nat \<Rightarrow> MappedFile \<Rightarrow> (MapError + nat \<times> MappedFile) option" where
  "Allocate s_PageSize fs iBank nSize f =
     (case MF_EnsureReserve s_PageSize fs iBank nSize 1 f of
        None \<Rightarrow> None
      | Some (Inl e) \<Rightarrow> Some (Inl e)
      | Some (Inr f1) \<Rightarrow>
          (let ret = m_Tail (m_Banks f1 ! iBank)
           in Some (Inr (ret, upd_bank iBank (\<lambda>b. b\<lparr>m_Tail := m_Words f1 ret, m_Free := m_Free b - 1\<rparr>) f1))))"

definition Free :: "nat \<Rightarrow> nat \<Rightarrow> MappedFile \<Rightarrow> MappedFile" where
  "Free iBank p f =
     (let f1 = f\<lparr>m_Words := (m_Words f)(p := m_Tail (m_Banks f ! iBank))\<rparr>
      in upd_bank iBank (\<lambda>b. b\<lparr>m_Tail := p, m_Free := m_Free b + 1\<rparr>) f1)"

subsection \<open>Free lists\<close>

text \<open>The list of free blocks that starts at an offset; offset zero ends it.\<close>

primrec flist :: "(nat \<Rightarrow> nat) \<Rightarrow> nat \<Rightarrow> nat list \<Rightarrow> bool" where
  "flist w x [] \<longleftrightarrow> x = 0"
| "flist w x (a # as) \<longleftrightarrow> x = a \<and> a \<noteq> 0 \<and> flist w (w a) as"

lemma flist_upd: "u \<notin> set xs \<Longrightarrow> flist (w(u := v)) x xs = flist w x xs"
  by (induction xs arbitrary: x) auto

lemma flist_cong: "(\<And>a. a \<in> set xs \<Longrightarrow> w a = w' a) \<Longrightarrow> flist w x xs = flist w' x xs"
  by (induction xs arbitrary: x) auto

lemma AlignUp_pow2: "AlignUp x (2 ^ k) = (x + 2 ^ k - 1) div 2 ^ k * 2 ^ k"
proof -
  have m: "z AND NOT (mask k) = push_bit k (drop_bit k z)" for z :: int
    by (rule bit_eqI) (auto simp: bit_simps)
  have e: "int x + (int (2 ^ k) - 1) = int (x + 2 ^ k - 1)" by (subst of_nat_diff) (simp_all add: Suc_le_eq)
  have "AlignUp x (2 ^ k) = nat (push_bit k (drop_bit k (int (x + 2 ^ k - 1))))"
    unfolding AlignUp_def e using m by (simp add: mask_eq_exp_minus_1)
  also have "\<dots> = push_bit k (drop_bit k (x + 2 ^ k - 1))"
    by (simp only: push_bit_of_nat drop_bit_of_nat nat_int)
  finally show ?thesis by (simp add: push_bit_eq_mult drop_bit_eq_div)
qed

lemma AlignUp_props: "x \<le> AlignUp x (2 ^ k)" "2 ^ k dvd AlignUp x (2 ^ k)"
proof -
  have "(x + 2 ^ k - 1) mod 2 ^ k < 2 ^ k" by simp
  moreover have "(x + 2 ^ k - 1) div 2 ^ k * 2 ^ k + (x + 2 ^ k - 1) mod 2 ^ k = x + 2 ^ k - 1" by (rule div_mult_mod_eq)
  ultimately show "x \<le> AlignUp x (2 ^ k)" unfolding AlignUp_pow2 by linarith
qed (simp add: AlignUp_pow2)

lemma AlignUp_dvd: "2 ^ k dvd x \<Longrightarrow> AlignUp x (2 ^ k) = x"
proof -
  assume "2 ^ k dvd x"
  then obtain q where x: "x = 2 ^ k * q" by (elim dvdE)
  have "(2 ^ k * q + 2 ^ k - 1) div 2 ^ k = q"
  proof (rule div_nat_eqI)
    have "1 \<le> (2 :: nat) ^ k" by simp
    then show "2 ^ k * q \<le> 2 ^ k * q + 2 ^ k - 1" "2 ^ k * q + 2 ^ k - 1 < 2 ^ k * Suc q"
      unfolding mult_Suc_right by linarith+
  qed
  then show ?thesis by (simp add: AlignUp_pow2 x)
qed

subsection \<open>The loop that cuts a new page into blocks\<close>

definition cell :: "nat \<Rightarrow> Slot \<Rightarrow> MappedFile \<Rightarrow> nat" where
  "cell iBank p f = (case p of Tail \<Rightarrow> m_Tail (m_Banks f ! iBank) | At a \<Rightarrow> m_Words f a)"

text \<open>What the loop leaves behind when it has cut the bytes from \<open>n0\<close> on into \<open>K\<close> blocks.\<close>

definition grown :: "nat \<Rightarrow> nat \<Rightarrow> nat \<Rightarrow> Slot \<Rightarrow> nat \<Rightarrow> MappedFile \<Rightarrow> MappedFile \<Rightarrow> bool" where
  "grown iBank nSize n0 p K f f' \<longleftrightarrow> m_nMapping f' = m_nMapping f \<and>
     flist (m_Words f') (cell iBank p f') (map (\<lambda>k. n0 + k * nSize) [0..<K]) \<and>
     (\<forall>a < n0. p \<noteq> At a \<longrightarrow> m_Words f' a = m_Words f a) \<and> (\<forall>a. m_nMapping f \<le> a \<longrightarrow> m_Words f' a = 0) \<and>
     m_Banks f' = (m_Banks f)[iBank := \<lparr>m_Tail = m_Tail (m_Banks f' ! iBank), m_Total = m_Total (m_Banks f ! iBank) + K,
       m_Free = m_Free (m_Banks f ! iBank) + K\<rparr>] \<and>
     (p \<noteq> Tail \<longrightarrow> m_Tail (m_Banks f' ! iBank) = m_Tail (m_Banks f ! iBank))"

lemma Grow_loop_spec:
  assumes "0 < nSize" and "iBank < length (m_Banks f)" and "0 < n0" and "n0 \<le> m_nMapping f" and "case p of Tail \<Rightarrow> True | At a \<Rightarrow> a < n0"
    and "\<forall>a \<ge> n0. m_Words f a = 0" and "cell iBank p f = 0"
  shows "\<exists>f'. Grow_loop iBank nSize n0 p f = Some f' \<and> grown iBank nSize n0 p ((m_nMapping f - n0) div nSize) f f'"
  using assms
proof (induction "m_nMapping f - n0" arbitrary: n0 p f rule: less_induct)
  case less
  show ?case
  proof (cases "n0 + nSize > m_nMapping f")
    case True
    then have G: "Grow_loop iBank nSize n0 p f = Some f" by (subst Grow_loop.simps) (simp add: Let_def)
    have "m_nMapping f - n0 < nSize" using True less.prems(1) by linarith
    then have K: "(m_nMapping f - n0) div nSize = 0" by simp
    have "\<lparr>m_Tail = m_Tail b, m_Total = m_Total b, m_Free = m_Free b\<rparr> = b" for b :: Bank by simp
    note this [of "m_Banks f ! iBank"]
    then have "(m_Banks f)[iBank := \<lparr>m_Tail = m_Tail (m_Banks f ! iBank), m_Total = m_Total (m_Banks f ! iBank) + 0,
        m_Free = m_Free (m_Banks f ! iBank) + 0\<rparr>] = m_Banks f" by (simp only: add_0_right list_update_id)
    then show ?thesis using G K less.prems by (intro exI [of _ f]) (simp add: grown_def)
  next
    case False
    define f1 where "f1 = upd_bank iBank (\<lambda>b. b\<lparr>m_Total := m_Total b + 1, m_Free := m_Free b + 1\<rparr>) (put iBank p n0 f)"
    have G: "Grow_loop iBank nSize n0 p f = Grow_loop iBank nSize (n0 + nSize) (At n0) f1"
      using False by (subst Grow_loop.simps) (simp add: Let_def f1_def)
    have m1: "m_nMapping f1 = m_nMapping f" by (cases p) (simp_all add: f1_def put_def upd_bank_def)
    have w1: "m_Words f1 a = (if p = At a then n0 else m_Words f a)" for a by (cases p) (auto simp: f1_def put_def upd_bank_def)
    have b1: "m_Banks f1 = (m_Banks f)[iBank := \<lparr>m_Tail = (if p = Tail then n0 else m_Tail (m_Banks f ! iBank)),
        m_Total = m_Total (m_Banks f ! iBank) + 1, m_Free = m_Free (m_Banks f ! iBank) + 1\<rparr>]"
      using less.prems(2) by (cases p; cases "m_Banks f ! iBank") (simp_all add: f1_def put_def upd_bank_def)
    have z1: "\<forall>a \<ge> n0 + nSize. m_Words f1 a = 0" using less.prems(5,6) w1 by (cases p) auto
    have c1: "cell iBank (At n0) f1 = 0" using less.prems(5,6) w1 [of n0] by (cases p) (simp_all add: cell_def)
    let ?K = "(m_nMapping f - (n0 + nSize)) div nSize"
    have lt: "m_nMapping f1 - (n0 + nSize) < m_nMapping f - n0" using False less.prems(1) m1 by simp
    obtain f' where I: "Grow_loop iBank nSize (n0 + nSize) (At n0) f1 = Some f'" "grown iBank nSize (n0 + nSize) (At n0) ?K f1 f'"
      using less.hyps [OF lt less.prems(1) _ _ _ _ z1 c1] False less.prems(1,2,3) b1 m1 by auto
    note J = I(2) [unfolded grown_def]
    have t1: "m_Tail (m_Banks f' ! iBank) = m_Tail (m_Banks f1 ! iBank)" using J by simp
    have KS: "(m_nMapping f - n0) div nSize = Suc ?K"
    proof -
      have "m_nMapping f - n0 = (m_nMapping f - (n0 + nSize)) + nSize" using False by simp
      then have "(m_nMapping f - n0) div nSize = ((m_nMapping f - (n0 + nSize)) + nSize) div nSize" by (rule arg_cong)
      also have "\<dots> = Suc ?K" using less.prems(1) by (simp add: div_add_self2)
      finally show ?thesis .
    qed
    have c: "cell iBank p f' = n0"
    proof (cases p)
      case Tail
      then show ?thesis using t1 b1 less.prems(2) by (simp add: cell_def)
    next
      case (At a)
      then have "m_Words f' a = m_Words f1 a" using J less.prems(1,5) by auto
      then show ?thesis using At w1 [of a] by (simp add: cell_def)
    qed
    have xs: "map (\<lambda>k. n0 + k * nSize) [0..<Suc ?K] = n0 # map (\<lambda>k. (n0 + nSize) + k * nSize) [0..<?K]"
      by (simp only: upt_conv_Cons zero_less_Suc list.map flip: map_Suc_upt) (simp add: algebra_simps)
    have fl: "flist (m_Words f') (cell iBank p f') (map (\<lambda>k. n0 + k * nSize) [0..<Suc ?K])"
      unfolding xs c using J less.prems(3) by (simp add: cell_def)
    have "m_Banks f' = (m_Banks f1)[iBank := \<lparr>m_Tail = m_Tail (m_Banks f' ! iBank), m_Total = m_Total (m_Banks f1 ! iBank) + ?K,
       m_Free = m_Free (m_Banks f1 ! iBank) + ?K\<rparr>]" using J by blast
    then have bk: "m_Banks f' = (m_Banks f)[iBank := \<lparr>m_Tail = m_Tail (m_Banks f' ! iBank), m_Total = m_Total (m_Banks f ! iBank) + Suc ?K,
        m_Free = m_Free (m_Banks f ! iBank) + Suc ?K\<rparr>]"
      using b1 less.prems(2) by simp
    have tl: "p \<noteq> Tail \<longrightarrow> m_Tail (m_Banks f' ! iBank) = m_Tail (m_Banks f ! iBank)" using t1 b1 less.prems(2) by simp
    have wd: "\<forall>a < n0. p \<noteq> At a \<longrightarrow> m_Words f' a = m_Words f a" using J w1 by simp
    have "grown iBank nSize n0 p (Suc ?K) f f'"
    proof -
      have "m_nMapping f' = m_nMapping f" "\<forall>a. m_nMapping f \<le> a \<longrightarrow> m_Words f' a = 0" using J m1 by simp_all
      then show ?thesis unfolding grown_def using fl bk tl wd by (intro conjI)
    qed
    then show ?thesis using G I(1) KS by auto
  qed
qed

subsection \<open>The invariant of the allocator\<close>

text \<open>
  \<open>al i\<close> is the set of blocks of bank \<open>i\<close> that are in use, \<open>sz i\<close> the size of its blocks.  All blocks
  lie behind the header and within the file, and no two of them overlap, whether free or in use.
\<close>

definition disj :: "nat \<times> nat \<Rightarrow> nat \<times> nat \<Rightarrow> bool" where
  "disj x y \<longleftrightarrow> fst x + snd x \<le> fst y \<or> fst y + snd y \<le> fst x"

definition frees :: "MappedFile \<Rightarrow> nat \<Rightarrow> nat list \<Rightarrow> bool" where
  "frees f i xs \<longleftrightarrow> flist (m_Words f) (m_Tail (m_Banks f ! i)) xs \<and> distinct xs \<and> m_Free (m_Banks f ! i) = length xs"

definition blocks :: "(nat \<Rightarrow> nat set) \<Rightarrow> (nat \<Rightarrow> nat list) \<Rightarrow> nat \<Rightarrow> nat set" where
  "blocks al fr i = al i \<union> set (fr i)"

definition alloc_ok :: "nat \<Rightarrow> (nat \<Rightarrow> nat) \<Rightarrow> (nat \<Rightarrow> nat set) \<Rightarrow> (nat \<Rightarrow> nat list) \<Rightarrow> MappedFile \<Rightarrow> bool" where
  "alloc_ok hdr sz al fr f \<longleftrightarrow> 0 < hdr \<and> hdr \<le> m_nMapping f \<and> 8 dvd m_nMapping f \<and>
     (\<forall>i < length (m_Banks f). 0 < sz i \<and> frees f i (fr i) \<and> al i \<inter> set (fr i) = {} \<and> finite (al i) \<and>
        m_Total (m_Banks f ! i) = length (fr i) + card (al i)) \<and>
     (\<forall>i < length (m_Banks f). \<forall>a \<in> blocks al fr i. hdr \<le> a \<and> a + sz i \<le> m_nMapping f \<and> 8 dvd a) \<and>
     (\<forall>i < length (m_Banks f). \<forall>j < length (m_Banks f). \<forall>a \<in> blocks al fr i. \<forall>b \<in> blocks al fr j.
        (i, a) \<noteq> (j, b) \<longrightarrow> disj (a, sz i) (b, sz j)) \<and>
     (\<forall>a \<ge> m_nMapping f. m_Words f a = 0)"

lemma disj_neq: "disj (a, s) (b, s') \<Longrightarrow> 0 < s \<Longrightarrow> 0 < s' \<Longrightarrow> a \<noteq> b"
  by (auto simp: disj_def)

lemma disj_sym: "disj x y \<Longrightarrow> disj y x"
  by (auto simp: disj_def)

lemma alloc_okD:
  assumes "alloc_ok hdr sz al fr f" and "i < length (m_Banks f)"
  shows "0 < sz i" "frees f i (fr i)" "al i \<inter> set (fr i) = {}" "finite (al i)" "m_Total (m_Banks f ! i) = length (fr i) + card (al i)"
    and "a \<in> blocks al fr i \<Longrightarrow> hdr \<le> a \<and> a + sz i \<le> m_nMapping f \<and> 8 dvd a"
    and "j < length (m_Banks f) \<Longrightarrow> a \<in> blocks al fr i \<Longrightarrow> b \<in> blocks al fr j \<Longrightarrow> (i, a) \<noteq> (j, b) \<Longrightarrow> disj (a, sz i) (b, sz j)"
  using assms unfolding alloc_ok_def by blast+

text \<open>Taking the first block of the list, and putting a block back.\<close>

lemma take_block:
  assumes ok: "alloc_ok hdr sz al fr f" and i: "i < length (m_Banks f)" and x: "fr i = x # xs"
  shows "m_Tail (m_Banks f ! i) = x"
    and "alloc_ok hdr sz (al(i := insert x (al i))) (fr(i := xs)) (upd_bank i (\<lambda>b. b\<lparr>m_Tail := m_Words f x, m_Free := m_Free b - 1\<rparr>) f)"
proof -
  note D = alloc_okD [OF ok i]
  have F: "flist (m_Words f) (m_Tail (m_Banks f ! i)) (x # xs)" "distinct (x # xs)" "m_Free (m_Banks f ! i) = Suc (length xs)"
    using D(2) x by (auto simp: frees_def)
  show "m_Tail (m_Banks f ! i) = x" using F(1) by simp
  let ?f = "upd_bank i (\<lambda>b. b\<lparr>m_Tail := m_Words f x, m_Free := m_Free b - 1\<rparr>) f"
  have b: "blocks (al(i := insert x (al i))) (fr(i := xs)) j = blocks al fr j" for j using x by (auto simp: blocks_def)
  have l: "length (m_Banks ?f) = length (m_Banks f)" "m_nMapping ?f = m_nMapping f" "m_Words ?f = m_Words f" by (simp_all add: upd_bank_def)
  have "0 < sz j \<and> frees ?f j ((fr(i := xs)) j) \<and> (al(i := insert x (al i))) j \<inter> set ((fr(i := xs)) j) = {} \<and>
      finite ((al(i := insert x (al i))) j) \<and> m_Total (m_Banks ?f ! j) = length ((fr(i := xs)) j) + card ((al(i := insert x (al i))) j)"
    if j: "j < length (m_Banks f)" for j
  proof (cases "j = i")
    case True
    have "x \<notin> al i" using D(3) x by auto
    then show ?thesis using True i F D x by (auto simp: frees_def upd_bank_def)
  next
    case False
    then show ?thesis using alloc_okD [OF ok j] by (auto simp: frees_def upd_bank_def)
  qed
  then show "alloc_ok hdr sz (al(i := insert x (al i))) (fr(i := xs)) ?f"
    using ok unfolding alloc_ok_def b l by blast
qed

lemma flist_block_upd:
  assumes ok: "alloc_ok hdr sz al fr f" and i: "i < length (m_Banks f)" and a: "a \<in> al i" and w: "a \<le> u" "u < a + sz i"
    and j: "j < length (m_Banks f)"
  shows "u \<notin> set (fr j)" "u < m_nMapping f"
proof -
  have ab: "a \<in> blocks al fr i" using a by (simp add: blocks_def)
  show "u \<notin> set (fr j)"
  proof
    assume u: "u \<in> set (fr j)"
    then have ub: "u \<in> blocks al fr j" by (simp add: blocks_def)
    have "(i, a) \<noteq> (j, u)" using alloc_okD(3) [OF ok i] a u by auto
    from alloc_okD(7) [OF ok i j ab ub this] show False using w alloc_okD(1) [OF ok j] by (auto simp: disj_def)
  qed
  show "u < m_nMapping f" using alloc_okD(6) [OF ok i ab] w by linarith
qed

lemma write_block:
  assumes ok: "alloc_ok hdr sz al fr f" and i: "i < length (m_Banks f)" and a: "a \<in> al i" and w: "a \<le> u" "u < a + sz i"
  shows "alloc_ok hdr sz al fr (f\<lparr>m_Words := (m_Words f)(u := v)\<rparr>)"
proof -
  let ?f = "f\<lparr>m_Words := (m_Words f)(u := v)\<rparr>"
  have "frees ?f j (fr j)" if j: "j < length (m_Banks f)" for j
    using alloc_okD(2) [OF ok j] flist_block_upd(1) [OF ok i a w j] by (simp add: frees_def flist_upd)
  moreover have "\<forall>b \<ge> m_nMapping f. m_Words ?f b = 0" using ok flist_block_upd(2) [OF ok i a w i] by (auto simp: alloc_ok_def)
  ultimately show ?thesis using ok unfolding alloc_ok_def by simp
qed

lemma give_block:
  assumes ok: "alloc_ok hdr sz al fr f" and i: "i < length (m_Banks f)" and p: "p \<in> al i"
  shows "alloc_ok hdr sz (al(i := al i - {p})) (fr(i := p # fr i)) (Free i p f)"
proof -
  note D = alloc_okD [OF ok i]
  let ?al = "al(i := al i - {p})" and ?fr = "fr(i := p # fr i)" and ?f = "Free i p f"
  have b: "blocks ?al ?fr j = blocks al fr j" for j using p by (auto simp: blocks_def)
  have W: "m_Words ?f = (m_Words f)(p := m_Tail (m_Banks f ! i))" "length (m_Banks ?f) = length (m_Banks f)" "m_nMapping ?f = m_nMapping f"
    by (simp_all add: Free_def upd_bank_def Let_def)
  have pn: "p \<notin> set (fr j)" if "j < length (m_Banks f)" for j using flist_block_upd(1) [OF ok i p _ _ that, of p] D(1) by simp
  have p0: "p \<noteq> 0" using D(6) [of p] p ok by (auto simp: blocks_def alloc_ok_def)
  have "0 < sz j \<and> frees ?f j (?fr j) \<and> ?al j \<inter> set (?fr j) = {} \<and> finite (?al j) \<and>
      m_Total (m_Banks ?f ! j) = length (?fr j) + card (?al j)" if j: "j < length (m_Banks f)" for j
  proof (cases "j = i")
    case True
    have "0 < card (al i)" using p D(4) by (auto simp: card_gt_0_iff)
    then show ?thesis using True i p p0 D pn [OF i] by (auto simp: frees_def flist_upd Free_def upd_bank_def Let_def card_Diff_singleton)
  next
    case False
    then show ?thesis using alloc_okD [OF ok j] pn [OF j] by (auto simp: frees_def flist_upd Free_def upd_bank_def Let_def)
  qed
  moreover have "p < m_nMapping f" using flist_block_upd(2) [OF ok i p _ _ i, of p] D(1) by simp
  ultimately show ?thesis using ok unfolding alloc_ok_def b W by auto
qed

subsection \<open>Opening\<close>

text \<open>A file that ends within the signature has no banks, no header and no blocks: they read as zero.\<close>

definition short_ok :: "Defs \<Rightarrow> MappedFile \<Rightarrow> bool" where
  "short_ok d f \<longleftrightarrow> (m_nMapping f \<le> length (m_pSig d) \<longrightarrow>
     m_Banks f = replicate (m_nBanks d) zero_bank \<and> m_Hdr f = zero_hdr \<and> m_Words f = (\<lambda>a. 0))"

definition fresh_file :: "Defs \<Rightarrow> MappedFile" where
  "fresh_file d = \<lparr>m_nMapping = get_SizeMin d, m_Sig = m_pSig d, m_Banks = replicate (m_nBanks d) zero_bank, m_Hdr = zero_hdr, m_Words = (\<lambda>a. 0)\<rparr>"

lemma AlignUp8: "AlignUp x 8 = (x + 7) div 8 * 8"
  using AlignUp_pow2 [of x 3] by simp

lemma get_SizeMin_props: "length (m_pSig d) \<le> get_SizeMin d" "8 dvd get_SizeMin d"
proof -
  have "8 dvd (m_nBanks d * 24)" by simp
  then show "8 dvd get_SizeMin d" unfolding get_SizeMin_def get_Bank0_def AlignUp8 by (intro dvd_add) simp_all
  show "length (m_pSig d) \<le> get_SizeMin d" using AlignUp_props(1) [of "length (m_pSig d)" 3] unfolding get_SizeMin_def get_Bank0_def by simp
qed

lemma MF_Open_reset:
  assumes "short_ok d f" and "bReset \<or> m_nMapping f < get_SizeMin d \<or> m_Sig f \<noteq> m_pSig d" and "0 < m_nBanks d"
  shows "MF_Open d bReset f = fresh_file d"
proof -
  have lt: "length (m_pSig d) < get_SizeMin d"
    using assms(3) AlignUp_props(1) [of "length (m_pSig d)" 3] unfolding get_SizeMin_def get_Bank0_def by simp
  show ?thesis
  proof (cases "m_nMapping f > length (m_pSig d)")
    case True
    then show ?thesis using assms(2) lt by (simp add: MF_Open_def Let_def Resize_def fresh_file_def)
  next
    case False
    then show ?thesis using assms(1,2) lt by (simp add: MF_Open_def Let_def Resize_def fresh_file_def short_ok_def)
  qed
qed

lemma fresh_alloc_ok:
  assumes "0 < m_nBanks d" and "\<forall>i < m_nBanks d. 0 < sz i"
  shows "alloc_ok (get_SizeMin d) sz (\<lambda>i. {}) (\<lambda>i. []) (fresh_file d)"
proof -
  have "0 < get_SizeMin d" using assms(1) by (simp add: get_SizeMin_def)
  then show ?thesis using assms(2) get_SizeMin_props(2)
    by (simp add: alloc_ok_def fresh_file_def frees_def blocks_def zero_bank_def)
qed

subsection \<open>Reserving and allocating\<close>

lemma disj_grid: "k \<noteq> k' \<Longrightarrow> disj (n0 + k * s, s) (n0 + k' * s, s)"
proof (induction k k' rule: linorder_wlog)
  case (le k k')
  then have "Suc k * s \<le> k' * s" by (intro mult_right_mono) simp_all
  then show ?case by (simp add: disj_def)
next
  case (sym k k')
  then show ?case using disj_sym by blast
qed

lemma grow_block:
  assumes ok: "alloc_ok hdr sz al fr f" and i: "i < length (m_Banks f)" and e: "fr i = []" and s8: "8 dvd sz i"
    and n1: "m_nMapping f \<le> n1" "8 dvd n1" and g: "grown i (sz i) (m_nMapping f) Tail K (f\<lparr>m_nMapping := n1\<rparr>) f'"
    and K: "K = (n1 - m_nMapping f) div sz i"
  shows "alloc_ok hdr sz al (fr(i := map (\<lambda>k. m_nMapping f + k * sz i) [0..<K])) f'"
proof -
  note D = alloc_okD [OF ok i]
  let ?n0 = "m_nMapping f" and ?N = "map (\<lambda>k. m_nMapping f + k * sz i) [0..<K]"
  note G = g [unfolded grown_def, simplified]
  have bk: "m_Banks f' = (m_Banks f)[i := \<lparr>m_Tail = m_Tail (m_Banks f' ! i), m_Total = m_Total (m_Banks f ! i) + K,
     m_Free = m_Free (m_Banks f ! i) + K\<rparr>]" using G by blast
  have l: "length (m_Banks f') = length (m_Banks f)" using arg_cong [OF bk, of length] by simp
  have other: "m_Banks f' ! j = m_Banks f ! j" if "j \<noteq> i" for j using arg_cong [OF bk, of "\<lambda>b. b ! j"] that by simp
  have cnt: "m_Total (m_Banks f' ! i) = m_Total (m_Banks f ! i) + K" "m_Free (m_Banks f' ! i) = m_Free (m_Banks f ! i) + K"
    using arg_cong [OF bk, of "\<lambda>b. b ! i"] i by (metis nth_list_update_eq Bank.select_convs(2), metis nth_list_update_eq Bank.select_convs(3))
  have sz0: "0 < sz i" by (rule D(1))
  have F0: "m_Free (m_Banks f ! i) = 0" using D(2) e by (simp add: frees_def)
  have inN: "?n0 \<le> b \<and> b + sz i \<le> n1 \<and> 8 dvd b" if b: "b \<in> set ?N" for b
  proof -
    from b obtain k where k: "k < K" "b = ?n0 + k * sz i" by auto
    have "Suc k * sz i \<le> K * sz i" using k(1) by (intro mult_right_mono) simp_all
    also have "\<dots> \<le> n1 - ?n0" unfolding K by (rule div_times_less_eq_dividend)
    finally have "b + sz i \<le> n1" using k(2) n1(1) by simp
    moreover have "8 dvd b" unfolding k(2) using ok s8 by (simp add: alloc_ok_def)
    ultimately show ?thesis using k(2) by simp
  qed
  have dN: "distinct ?N" using sz0 by (simp add: distinct_map inj_on_def)
  have old: "hdr \<le> a \<and> a + sz j \<le> ?n0 \<and> 8 dvd a" if "j < length (m_Banks f)" "a \<in> blocks al fr j" for j a
    using alloc_okD(6) [OF ok that] .
  have w: "m_Words f' a = m_Words f a" if "a < ?n0" for a using G that by simp
  have bl: "blocks al (fr(i := ?N)) j = (if j = i then blocks al fr i \<union> set ?N else blocks al fr j)" for j
    using e by (auto simp: blocks_def)
  have "0 < sz j \<and> frees f' j ((fr(i := ?N)) j) \<and> al j \<inter> set ((fr(i := ?N)) j) = {} \<and> finite (al j) \<and>
      m_Total (m_Banks f' ! j) = length ((fr(i := ?N)) j) + card (al j)" if j: "j < length (m_Banks f)" for j
  proof (cases "j = i")
    case True
    have "al i \<inter> set ?N = {}"
    proof -
      have "b \<notin> al i" if "b \<in> set ?N" for b using inN [OF that] old [OF i, of b] sz0 by (auto simp: blocks_def)
      then show ?thesis by blast
    qed
    moreover have "frees f' i ?N" using G dN F0 cnt by (simp add: frees_def cell_def)
    ultimately show ?thesis using True D e cnt by simp
  next
    case False
    have "frees f' j (fr j)"
    proof -
      have "a < ?n0" if "a \<in> set (fr j)" for a using old [OF j, of a] that alloc_okD(1) [OF ok j] by (auto simp: blocks_def)
      then have "flist (m_Words f') x (fr j) = flist (m_Words f) x (fr j)" for x using w by (intro flist_cong) blast
      then show ?thesis using alloc_okD(2) [OF ok j] other [OF False] by (simp add: frees_def)
    qed
    then show ?thesis using False alloc_okD [OF ok j] other [OF False] by simp
  qed
  moreover have "hdr \<le> a \<and> a + sz j \<le> n1 \<and> 8 dvd a" if "j < length (m_Banks f)" "a \<in> blocks al (fr(i := ?N)) j" for j a
    using that(2) old [OF that(1), of a] inN [of a] n1(1) ok unfolding bl alloc_ok_def by (auto split: if_splits)
  moreover have "disj (a, sz j) (b, sz j')" if "j < length (m_Banks f)" "j' < length (m_Banks f)" "a \<in> blocks al (fr(i := ?N)) j"
      "b \<in> blocks al (fr(i := ?N)) j'" "(j, a) \<noteq> (j', b)" for j j' a b
  proof -
    note H = that
    have new: "disj (x, sz l) (y, sz i)" if "l < length (m_Banks f)" "x \<in> blocks al fr l" "y \<in> set ?N" for l x y
      using old [OF that(1,2)] inN [OF that(3)] by (simp add: disj_def)
    consider "a \<in> blocks al fr j" "b \<in> blocks al fr j'" | "a \<in> blocks al fr j" "j' = i" "b \<in> set ?N"
      | "j = i" "a \<in> set ?N" "b \<in> blocks al fr j'" | "j = i" "a \<in> set ?N" "j' = i" "b \<in> set ?N"
      using H(3,4) unfolding bl by (auto split: if_splits)
    then show ?thesis
    proof cases
      case 1
      then show ?thesis using alloc_okD(7) [OF ok H(1,2) _ _ H(5)] by blast
    next
      case 2
      then show ?thesis using new [OF H(1)] by blast
    next
      case 3
      then show ?thesis using new [OF H(2), THEN disj_sym] by blast
    next
      case 4
      then show ?thesis using H(5) by (auto intro!: disj_grid)
    qed
  qed
  moreover have "m_nMapping f' = n1" "\<forall>a \<ge> n1. m_Words f' a = 0" using G by simp_all
  ultimately show ?thesis using ok n1 l unfolding alloc_ok_def by simp
qed

lemma AlignUp_8_8: "AlignUp (AlignUp x 8) 8 = AlignUp x 8"
  using AlignUp_dvd [of 3 "AlignUp x 8"] AlignUp_props(2) [of 3 x] by simp

text \<open>Reserving one block: nothing to do, a refusal of the system, or one growth of the file.\<close>

lemma Reserve_spec:
  assumes ok: "alloc_ok hdr sz al fr f" and i: "i < length (m_Banks f)" and k: "3 \<le> k"
    and s: "sz i = AlignUp nSize 8" "sz i \<le> 2 ^ k"
  shows "fr i \<noteq> [] \<Longrightarrow> MF_EnsureReserve (2 ^ k) fs i nSize 1 f = Some (Inr f)"
    and "fr i = [] \<Longrightarrow> \<not> fs (AlignUp (m_nMapping f) (2 ^ k) + 2 ^ k) \<Longrightarrow> MF_EnsureReserve (2 ^ k) fs i nSize 1 f = Some (Inl SysError)"
    and "fr i = [] \<Longrightarrow> fs (AlignUp (m_nMapping f) (2 ^ k) + 2 ^ k) \<Longrightarrow>
      \<exists>f' xs. MF_EnsureReserve (2 ^ k) fs i nSize 1 f = Some (Inr f') \<and> xs \<noteq> [] \<and> length (m_Banks f') = length (m_Banks f) \<and>
        alloc_ok hdr sz al (fr(i := xs)) f' \<and> (\<forall>a < m_nMapping f. m_Words f' a = m_Words f a) \<and> m_nMapping f \<le> m_nMapping f'"
proof -
  note D = alloc_okD [OF ok i]
  show "MF_EnsureReserve (2 ^ k) fs i nSize 1 f = Some (Inr f)" if "fr i \<noteq> []"
    using that D(2) by (subst MF_EnsureReserve.simps) (simp add: frees_def)
  show "MF_EnsureReserve (2 ^ k) fs i nSize 1 f = Some (Inl SysError)" if "fr i = []" "\<not> fs (AlignUp (m_nMapping f) (2 ^ k) + 2 ^ k)"
    using that D(2) by (subst MF_EnsureReserve.simps) (simp add: frees_def Let_def)
  assume e: "fr i = []" and fs: "fs (AlignUp (m_nMapping f) (2 ^ k) + 2 ^ k)"
  define n1 where "n1 = AlignUp (m_nMapping f) (2 ^ k) + 2 ^ k"
  define K where "K = (n1 - m_nMapping f) div sz i"
  let ?g = "f\<lparr>m_nMapping := n1\<rparr>"
  have a: "m_nMapping f + 2 ^ k \<le> n1" unfolding n1_def using AlignUp_props(1) [of "m_nMapping f" k] by simp
  have n8: "8 dvd n1"
  proof -
    have "(2 :: nat) ^ 3 dvd 2 ^ k" using k by (rule le_imp_power_dvd)
    then show ?thesis unfolding n1_def using AlignUp_props(2) [of k "m_nMapping f"] by (intro dvd_add) (auto dest: dvd_trans)
  qed
  have T0: "m_Tail (m_Banks f ! i) = 0" "m_Free (m_Banks f ! i) = 0" using D(2) e by (simp_all add: frees_def)
  have z: "\<forall>a \<ge> m_nMapping f. m_Words f a = 0" "0 < m_nMapping f" using ok by (simp_all add: alloc_ok_def)
  obtain f' where f': "Grow_loop i (sz i) (m_nMapping f) Tail ?g = Some f'" and g: "grown i (sz i) (m_nMapping f) Tail K ?g f'"
    using Grow_loop_spec [of "sz i" i ?g "m_nMapping f" Tail] D(1) i z a T0 by (auto simp: cell_def K_def)
  have "sz i \<le> n1 - m_nMapping f" using a s(2) by linarith
  then have K: "0 < K" unfolding K_def using D(1) by (simp add: div_greater_zero_iff)
  have bk: "m_Banks f' = (m_Banks f)[i := \<lparr>m_Tail = m_Tail (m_Banks f' ! i), m_Total = m_Total (m_Banks f ! i) + K, m_Free = m_Free (m_Banks f ! i) + K\<rparr>]"
    using g unfolding grown_def by simp
  have l: "length (m_Banks f') = length (m_Banks f)" using arg_cong [OF bk, of length] by simp
  have fr: "m_Free (m_Banks f' ! i) = K" using arg_cong [OF bk, of "\<lambda>b. m_Free (b ! i)"] i T0 by simp
  have "MF_EnsureReserve (2 ^ k) fs i (sz i) 1 f' = Some (Inr f')" using fr K by (subst MF_EnsureReserve.simps) simp
  then have 1: "MF_EnsureReserve (2 ^ k) fs i nSize 1 f = Some (Inr f')"
    using T0 fs f' s(1) by (subst MF_EnsureReserve.simps) (simp add: Let_def n1_def)
  have 2: "alloc_ok hdr sz al (fr(i := map (\<lambda>k. m_nMapping f + k * sz i) [0..<K])) f'"
    using grow_block [OF ok i e _ _ n8 g K_def] s(1) AlignUp_props(2) [of 3 nSize] a by simp
  have 3: "\<forall>a < m_nMapping f. m_Words f' a = m_Words f a" "m_nMapping f \<le> m_nMapping f'" using g a unfolding grown_def by simp_all
  show "\<exists>f' xs. MF_EnsureReserve (2 ^ k) fs i nSize 1 f = Some (Inr f') \<and> xs \<noteq> [] \<and> length (m_Banks f') = length (m_Banks f) \<and>
        alloc_ok hdr sz al (fr(i := xs)) f' \<and> (\<forall>a < m_nMapping f. m_Words f' a = m_Words f a) \<and> m_nMapping f \<le> m_nMapping f'"
    using 1 2 3 l K by (intro exI [of _ f'] exI [of _ "map (\<lambda>k. m_nMapping f + k * sz i) [0..<K]"]) simp
qed

text \<open>The two outcomes of a reservation.\<close>

lemma Reserve_cases:
  assumes "alloc_ok hdr sz al fr f" and "i < length (m_Banks f)" and "3 \<le> k" and "sz i = AlignUp nSize 8" "sz i \<le> 2 ^ k"
  obtains (fail) "fr i = []" "\<not> fs (AlignUp (m_nMapping f) (2 ^ k) + 2 ^ k)" "MF_EnsureReserve (2 ^ k) fs i nSize 1 f = Some (Inl SysError)"
  | (ready) f' xs where "MF_EnsureReserve (2 ^ k) fs i nSize 1 f = Some (Inr f')" "xs \<noteq> []" "length (m_Banks f') = length (m_Banks f)"
      "alloc_ok hdr sz al (fr(i := xs)) f'" "\<And>j. fr j \<noteq> [] \<Longrightarrow> (fr(i := xs)) j = fr j" "\<forall>a < m_nMapping f. m_Words f' a = m_Words f a" "m_nMapping f \<le> m_nMapping f'"
proof (cases "fr i = []")
  case True
  show ?thesis
  proof (cases "fs (AlignUp (m_nMapping f) (2 ^ k) + 2 ^ k)")
    case fs: True
    from Reserve_spec(3) [where fs = fs, OF assms True fs] show ?thesis using ready True by (metis fun_upd_other)
  next
    case False
    then show ?thesis using fail True Reserve_spec(2) [where fs = fs, OF assms True False] by blast
  qed
next
  case False
  have "fr(i := fr i) = fr" by simp
  then show ?thesis using ready [of f "fr i"] False Reserve_spec(1) [where fs = fs, OF assms False] assms(1) by simp
qed

lemma Allocate_spec:
  assumes ok: "alloc_ok hdr sz al fr f" and i: "i < length (m_Banks f)" and k: "3 \<le> k" and s: "sz i = AlignUp nSize 8" "sz i \<le> 2 ^ k"
  shows "\<not> fs (AlignUp (m_nMapping f) (2 ^ k) + 2 ^ k) \<and> fr i = [] \<and> Allocate (2 ^ k) fs i nSize f = Some (Inl SysError) \<or>
    (\<exists>p f' fr'. Allocate (2 ^ k) fs i nSize f = Some (Inr (p, f')) \<and> alloc_ok hdr sz (al(i := insert p (al i))) fr' f' \<and> p \<notin> al i \<and>
      length (m_Banks f') = length (m_Banks f) \<and> (\<forall>a < m_nMapping f. m_Words f' a = m_Words f a) \<and> m_nMapping f \<le> m_nMapping f')"
proof (cases rule: Reserve_cases [where fs = fs, OF assms, case_names fail ok])
  case fail
  then show ?thesis by (simp add: Allocate_def)
next
  case (ok f1 xs)
  let ?fr = "fr(i := xs)"
  obtain p ys where x: "?fr i = p # ys" using ok(2) by (cases xs) auto
  have i1: "i < length (m_Banks f1)" using i ok(3) by simp
  let ?f' = "upd_bank i (\<lambda>b. b\<lparr>m_Tail := m_Words f1 p, m_Free := m_Free b - 1\<rparr>) f1"
  note T = take_block [OF ok(4) i1 x]
  have "Allocate (2 ^ k) fs i nSize f = Some (Inr (p, ?f'))" using ok(1) T(1) by (simp add: Allocate_def Let_def)
  moreover have "p \<notin> al i" using alloc_okD(3) [OF ok(4) i1] x by auto
  ultimately show ?thesis using T(2) ok(3,6,7) by (auto simp: upd_bank_def)
qed

subsection \<open>Runs of the allocator\<close>

text \<open>
  The states that a file reaches from its creation: blocks are reserved, allocated, freed, and their owners
  write into them.  The system may grant or refuse every single growth.
\<close>

inductive mreach :: "nat \<Rightarrow> Defs \<Rightarrow> nat list \<Rightarrow> (nat \<Rightarrow> nat set) \<Rightarrow> MappedFile \<Rightarrow> bool" for page d sizes where
  created: "mreach page d sizes (\<lambda>i. {}) (MF_Open d True f)" if "short_ok d f"
| reserved: "mreach page d sizes al f'" if "mreach page d sizes al f" and "i < length sizes"
    and "MF_EnsureReserve page fs i (sizes ! i) 1 f = Some (Inr f')"
| allocated: "mreach page d sizes (al(i := insert p (al i))) f'" if "mreach page d sizes al f" and "i < length sizes"
    and "Allocate page fs i (sizes ! i) f = Some (Inr (p, f'))"
| freed: "mreach page d sizes (al(i := al i - {p})) (Free i p f)" if "mreach page d sizes al f" and "i < length sizes" and "p \<in> al i"
| written: "mreach page d sizes al (f\<lparr>m_Words := (m_Words f)(u := v)\<rparr>)" if "mreach page d sizes al f" and "i < length sizes"
    and "a \<in> al i" and "8 dvd u" and "a \<le> u" and "u + 8 \<le> a + sizes ! i"

definition sizes_ok :: "nat \<Rightarrow> Defs \<Rightarrow> nat list \<Rightarrow> bool" where
  "sizes_ok k d sizes \<longleftrightarrow> 3 \<le> k \<and> length sizes = m_nBanks d \<and> sizes \<noteq> [] \<and> (\<forall>s \<in> set sizes. 8 \<le> s \<and> AlignUp s 8 \<le> 2 ^ k)"

lemma sizes_okD:
  assumes "sizes_ok k d sizes" and "i < length sizes"
  shows "3 \<le> k" "0 < AlignUp (sizes ! i) 8" "AlignUp (sizes ! i) 8 \<le> 2 ^ k" "sizes ! i \<le> AlignUp (sizes ! i) 8"
proof -
  have "8 \<le> sizes ! i" using assms by (simp add: sizes_ok_def)
  moreover show "sizes ! i \<le> AlignUp (sizes ! i) 8" using AlignUp_props(1) [of "sizes ! i" 3] by simp
  ultimately show "0 < AlignUp (sizes ! i) 8" by linarith
qed (use assms in \<open>simp_all add: sizes_ok_def\<close>)

lemma mreach_ok:
  assumes r: "mreach (2 ^ k) d sizes al f" and s: "sizes_ok k d sizes"
  shows "length (m_Banks f) = length sizes \<and> (\<exists>fr. alloc_ok (get_SizeMin d) (\<lambda>i. AlignUp (sizes ! i) 8) al fr f)"
  using r
proof (induction rule: mreach.induct)
  case (created f)
  have n: "0 < m_nBanks d" using s by (cases sizes) (simp_all add: sizes_ok_def)
  have "\<forall>i < m_nBanks d. 0 < AlignUp (sizes ! i) 8" using sizes_okD(2) [OF s] s by (simp add: sizes_ok_def)
  from fresh_alloc_ok [OF n this] show ?case using MF_Open_reset [OF created _ n, of True] s by (auto simp: fresh_file_def sizes_ok_def)
next
  case (reserved al f i fs f')
  then obtain fr where l: "length (m_Banks f) = length sizes" and ok: "alloc_ok (get_SizeMin d) (\<lambda>i. AlignUp (sizes ! i) 8) al fr f" by blast
  have i: "i < length (m_Banks f)" using l reserved(2) by simp
  show ?case
  proof (cases rule: Reserve_cases [where fs = fs and nSize = "sizes ! i", OF ok i sizes_okD(1) [OF s reserved(2)] refl sizes_okD(3) [OF s reserved(2)], case_names fail ok])
    case fail
    then show ?thesis using reserved(3) by simp
  next
    case (ok f'' xs)
    then show ?thesis using reserved(3) l by auto
  qed
next
  case (allocated al f i fs p f')
  then obtain fr where l: "length (m_Banks f) = length sizes" and ok: "alloc_ok (get_SizeMin d) (\<lambda>i. AlignUp (sizes ! i) 8) al fr f" by blast
  have i: "i < length (m_Banks f)" using l allocated(2) by simp
  show ?case
    using Allocate_spec [where fs = fs and nSize = "sizes ! i", OF ok i sizes_okD(1) [OF s allocated(2)] refl sizes_okD(3) [OF s allocated(2)]]
      allocated(3) l by (auto simp del: fun_upd_apply)
next
  case (freed al f i p)
  then obtain fr where l: "length (m_Banks f) = length sizes" and ok: "alloc_ok (get_SizeMin d) (\<lambda>i. AlignUp (sizes ! i) 8) al fr f" by blast
  have i: "i < length (m_Banks f)" using l freed(2) by simp
  have "length (m_Banks (Free i p f)) = length sizes" using l by (simp add: Free_def upd_bank_def Let_def)
  then show ?case using give_block [OF ok i freed(3)] by blast
next
  case (written al f i a u v)
  then obtain fr where l: "length (m_Banks f) = length sizes" and ok: "alloc_ok (get_SizeMin d) (\<lambda>i. AlignUp (sizes ! i) 8) al fr f" by blast
  have i: "i < length (m_Banks f)" using l written(2) by simp
  have "u < a + AlignUp (sizes ! i) 8" using written(6) sizes_okD(4) [OF s written(2)] by linarith
  then show ?case using write_block [OF ok i written(3) written(5)] l by auto
qed

definition defs_ex :: Defs where
  "defs_ex = \<lparr>m_pSig = [1, 2], m_nBanks = 1, m_nFixedHdr = 48\<rparr>"

definition file_ex :: MappedFile where
  "file_ex = \<lparr>m_nMapping = 0, m_Sig = [], m_Banks = [zero_bank], m_Hdr = zero_hdr, m_Words = (\<lambda>a. 0)\<rparr>"

declare Grow_loop.simps [code] MF_EnsureReserve.simps [code]

lemma ex_run:
  "sizes_ok 4 defs_ex [16]" "short_ok defs_ex file_ex"
  "\<exists>f'. mreach (2 ^ 4) defs_ex [16] ((\<lambda>i. {})(0 := {80})) f'"
proof -
  show "sizes_ok 4 defs_ex [16]" by (simp add: sizes_ok_def defs_ex_def AlignUp8)
  show s: "short_ok defs_ex file_ex" by (simp add: short_ok_def defs_ex_def file_ex_def)
  have "map_option (map_sum id fst) (Allocate (2 ^ 4) (\<lambda>n. True) 0 16 (MF_Open defs_ex True file_ex)) = Some (Inr 80)" by code_simp
  then obtain r where r: "Allocate (2 ^ 4) (\<lambda>n. True) 0 16 (MF_Open defs_ex True file_ex) = Some r" "map_sum id fst r = Inr 80" by auto
  then obtain f' where "Allocate (2 ^ 4) (\<lambda>n. True) 0 16 (MF_Open defs_ex True file_ex) = Some (Inr (80, f'))"
    by (cases r) auto
  from mreach.allocated [OF mreach.created [OF s], of 0 "[16]" "2 ^ 4" "\<lambda>n. True" 80 f'] this
  show "\<exists>f'. mreach (2 ^ 4) defs_ex [16] ((\<lambda>i. {})(0 := {80})) f'" by auto
qed

text \<open>
  C21: blocks never overlap.  In every state that a mapped file reaches by reserving, allocating, freeing and
  writing into allocated blocks, all blocks in use lie behind the header and within the file, and no two of
  them share a byte, whatever banks they belong to.
\<close>

theorem Blocks_separate:
  assumes "mreach (2 ^ k) d sizes al f" and "sizes_ok k d sizes" and "i < length sizes" and "a \<in> al i"
  shows "get_SizeMin d \<le> a \<and> a + sizes ! i \<le> m_nMapping f \<and>
    (\<forall>j < length sizes. \<forall>b \<in> al j. (i, a) = (j, b) \<or> a + sizes ! i \<le> b \<or> b + sizes ! j \<le> a)"
proof -
  obtain fr where l: "length (m_Banks f) = length sizes" and ok: "alloc_ok (get_SizeMin d) (\<lambda>i. AlignUp (sizes ! i) 8) al fr f"
    using mreach_ok [OF assms(1,2)] by blast
  have i: "i < length (m_Banks f)" and a: "a \<in> blocks al fr i" using l assms(3,4) by (simp_all add: blocks_def)
  have si: "sizes ! i \<le> AlignUp (sizes ! i) 8" by (rule sizes_okD(4) [OF assms(2,3)])
  have "(i, a) = (j, b) \<or> a + sizes ! i \<le> b \<or> b + sizes ! j \<le> a" if j: "j < length sizes" and b: "b \<in> al j" for j b
  proof (cases "(i, a) = (j, b)")
    case False
    have "disj (a, AlignUp (sizes ! i) 8) (b, AlignUp (sizes ! j) 8)"
      using alloc_okD(7) [OF ok i _ a _ False] j b l by (simp add: blocks_def)
    then show ?thesis using si sizes_okD(4) [OF assms(2) j] by (auto simp: disj_def)
  qed simp
  then show ?thesis using alloc_okD(6) [OF ok i a] si by auto
qed

theorem Blocks_separate_witness:
  "\<exists>f. mreach (2 ^ 4) defs_ex [16] ((\<lambda>i. {})(0 := {80})) f \<and> get_SizeMin defs_ex \<le> 80 \<and> 80 + 16 \<le> m_nMapping f"
proof -
  obtain f where f: "mreach (2 ^ 4) defs_ex [16] ((\<lambda>i. {})(0 := {80})) f" using ex_run(3) by blast
  from Blocks_separate [OF this ex_run(1), of 0 80] f show ?thesis by auto
qed

text \<open>
  C22: allocation always ends.  In every reachable state a request for a block returns: with an error only if
  the list of the bank is empty and the system refuses to enlarge the file, and otherwise with a block that
  was not in use, while every word of the file that was there before keeps its value.
\<close>

theorem Allocate_returns:
  assumes "mreach (2 ^ k) d sizes al f" and "sizes_ok k d sizes" and "i < length sizes"
  shows "(if m_Free (m_Banks f ! i) = 0 \<and> \<not> fs (AlignUp (m_nMapping f) (2 ^ k) + 2 ^ k)
    then Allocate (2 ^ k) fs i (sizes ! i) f = Some (Inl SysError)
    else \<exists>p f'. Allocate (2 ^ k) fs i (sizes ! i) f = Some (Inr (p, f')) \<and> p \<notin> al i \<and> mreach (2 ^ k) d sizes (al(i := insert p (al i))) f' \<and>
      (\<forall>a < m_nMapping f. m_Words f' a = m_Words f a))"
proof -
  obtain fr where l: "length (m_Banks f) = length sizes" and ok: "alloc_ok (get_SizeMin d) (\<lambda>i. AlignUp (sizes ! i) 8) al fr f"
    using mreach_ok [OF assms(1,2)] by blast
  have i: "i < length (m_Banks f)" using l assms(3) by simp
  have e: "m_Free (m_Banks f ! i) = 0 \<longleftrightarrow> fr i = []" using alloc_okD(2) [OF ok i] by (simp add: frees_def)
  note S = Allocate_spec [where fs = fs and nSize = "sizes ! i", OF ok i sizes_okD(1) [OF assms(2,3)] refl sizes_okD(3) [OF assms(2,3)]]
  note R = Reserve_spec [where fs = fs and nSize = "sizes ! i", OF ok i sizes_okD(1) [OF assms(2,3)] refl sizes_okD(3) [OF assms(2,3)]]
  show ?thesis
  proof (cases "m_Free (m_Banks f ! i) = 0 \<and> \<not> fs (AlignUp (m_nMapping f) (2 ^ k) + 2 ^ k)")
    case True
    then show ?thesis using R(2) e by (simp add: Allocate_def)
  next
    case False
    then obtain p f' where A: "Allocate (2 ^ k) fs i (sizes ! i) f = Some (Inr (p, f'))" "p \<notin> al i" "\<forall>a < m_nMapping f. m_Words f' a = m_Words f a"
      using S e by blast
    from mreach.allocated [OF assms(1,3) A(1)] show ?thesis using False A by auto
  qed
qed

theorem Allocate_returns_witness:
  "\<exists>p f'. Allocate (2 ^ 4) (\<lambda>n. True) 0 16 (MF_Open defs_ex True file_ex) = Some (Inr (p, f'))"
  using Allocate_returns [OF mreach.created [OF ex_run(2)] ex_run(1), of 0 "\<lambda>n. True"] by auto

end
