(* ===== verification/UtxoImage.thy ===== *)
theory UtxoImage
  imports Mapped_File BlockElements
begin

section \<open>The image of the unspent outputs (UtxoTreeMapped, CommitUtxosAndDB)\<close>

text \<open>
  The node keeps its tree of unspent outputs in a mapped file next to the database, and reuses the file at
  the next start if it is marked clean and bears the stamp stored in the database.  This theory has the
  mapped tree (core/radixtree.cpp, \<open>UtxoTreeMapped\<close>), the opening and the commit of the node
  (node/processor.cpp, \<open>InitUtxoMapping\<close>, \<open>CommitUtxosAndDB\<close>), and a step relation of all runs, in which a
  process may die at any moment.  The hash of stamps and the random generator are parameters.
\<close>

unbundle bit_operations_syntax

subsection \<open>The mapped tree\<close>

record TreeMapped =
  m_Mapping :: MappedFile
  m_RootOffset :: nat

definition s_pSig :: bytes where
  "s_pSig = [0x44, 0x98, 0xFF, 0xD5, 0xDD, 0x1A, 0x46, 0xF8, 0xA1, 0xCD, 0x14, 0xEA, 0xFE, 0x35, 0xD7, 0xFA]"

datatype BankType = TLeaf | TJoint | TQueue | TNode

primrec bank_of :: "BankType \<Rightarrow> nat" where
  "bank_of TLeaf = 0"
| "bank_of TJoint = 1"
| "bank_of TQueue = 2"
| "bank_of TNode = 3"

definition tree_defs :: Defs where
  "tree_defs = \<lparr>m_pSig = s_pSig, m_nBanks = 4, m_nFixedHdr = 48\<rparr>"


definition set_Hdr :: "(Hdr \<Rightarrow> Hdr) \<Rightarrow> TreeMapped \<Rightarrow> TreeMapped" where
  "set_Hdr g t = t\<lparr>m_Mapping := (m_Mapping t)\<lparr>m_Hdr := g (m_Hdr (m_Mapping t))\<rparr>\<rparr>"




text \<open>
  One reservation per bank.  The sizes of the four node types depend on the compiler: \<open>sizeof_T\<close> gives them.
  An exception becomes \<open>CorruptionException\<close>.
\<close>

datatype ImgError = CorruptionException

fun UTM_Reserve :: "nat \<Rightarrow> (nat \<Rightarrow> bool) \<Rightarrow> (BankType \<Rightarrow> nat) \<Rightarrow> BankType list \<Rightarrow> MappedFile \<Rightarrow> (ImgError + MappedFile) option" where
  "UTM_Reserve page fs sizeof_T [] f = Some (Inr f)"
| "UTM_Reserve page fs sizeof_T (b # bs) f =
     (case MF_EnsureReserve page fs (bank_of b) (sizeof_T b) 1 f of
        None \<Rightarrow> None
      | Some (Inl e) \<Rightarrow> Some (Inl CorruptionException)
      | Some (Inr f') \<Rightarrow> UTM_Reserve page fs sizeof_T bs f')"

definition UTM_EnsureReserve :: "nat \<Rightarrow> (nat \<Rightarrow> bool) \<Rightarrow> (BankType \<Rightarrow> nat) \<Rightarrow> TreeMapped \<Rightarrow> (ImgError + TreeMapped) option" where
  "UTM_EnsureReserve page fs sizeof_T t =
     (case UTM_Reserve page fs sizeof_T [TLeaf, TJoint, TQueue, TNode] (m_Mapping t) of
        None \<Rightarrow> None
      | Some (Inl e) \<Rightarrow> Some (Inl e)
      | Some (Inr f) \<Rightarrow> Some (Inr (t\<lparr>m_Mapping := f\<rparr>)))"

definition UTM_Create :: "nat \<Rightarrow> (nat \<Rightarrow> bool) \<Rightarrow> (BankType \<Rightarrow> nat) \<Rightarrow> BankType \<Rightarrow> TreeMapped \<Rightarrow> (MapError + nat \<times> TreeMapped) option" where
  "UTM_Create page fs sizeof_T b t =
     (case Allocate page fs (bank_of b) (sizeof_T b) (m_Mapping t) of
        None \<Rightarrow> None
      | Some (Inl e) \<Rightarrow> Some (Inl e)
      | Some (Inr (p, f)) \<Rightarrow> Some (Inr (p, t\<lparr>m_Mapping := f\<rparr>)))"

definition UTM_Delete :: "BankType \<Rightarrow> nat \<Rightarrow> TreeMapped \<Rightarrow> TreeMapped" where
  "UTM_Delete b p t = t\<lparr>m_Mapping := Free (bank_of b) p (m_Mapping t)\<rparr>"

subsection \<open>The image and the database\<close>


definition no_stamp :: bytes where
  "no_stamp = Negate (Assign 32 [1])"




subsection \<open>Runs with crashes\<close>




text \<open>The invariant: a clean image that bears the stamp of the database holds the outputs of the database.\<close>

definition present :: "MappedFile \<Rightarrow> bool" where
  "present f \<longleftrightarrow> get_SizeMin tree_defs \<le> m_nMapping f \<and> m_Sig f = m_pSig tree_defs"




lemma no_stamp_val: "no_stamp = replicate 32 0xFF"
  by code_simp







lemma present_set_Hdr [simp]: "present (m_Mapping (set_Hdr g t)) = present (m_Mapping t)"
  by (simp add: present_def set_Hdr_def)






definition empty_ex :: MappedFile where
  "empty_ex = \<lparr>m_nMapping = 0, m_Sig = [], m_Banks = replicate 4 zero_bank, m_Hdr = zero_hdr, m_Words = (\<lambda>a. 0)\<rparr>"










subsection \<open>The reserve\<close>

text \<open>The sizes of the four node types, in the order of the banks.\<close>

abbreviation tree_sizes :: "(BankType \<Rightarrow> nat) \<Rightarrow> nat list" where
  "tree_sizes sizeof_T \<equiv> map sizeof_T [TLeaf, TJoint, TQueue, TNode]"

lemma bank_of_size: "bank_of b < length (tree_sizes sizeof_T)" "tree_sizes sizeof_T ! bank_of b = sizeof_T b"
  by (cases b; simp add: numeral_3_eq_3 numeral_2_eq_2)+

lemma UTM_Reserve_free:
  assumes "sizes_ok k tree_defs (tree_sizes sizeof_T)" and "alloc_ok hdr (\<lambda>i. AlignUp (tree_sizes sizeof_T ! i) 8) al fr f" and "length (m_Banks f) = 4"
    and "UTM_Reserve (2 ^ k) fs sizeof_T bs f = Some (Inr f')"
  shows "\<exists>fr'. alloc_ok hdr (\<lambda>i. AlignUp (tree_sizes sizeof_T ! i) 8) al fr' f' \<and> length (m_Banks f') = 4 \<and>
    (\<forall>i. fr i \<noteq> [] \<longrightarrow> fr' i \<noteq> []) \<and> (\<forall>b \<in> set bs. fr' (bank_of b) \<noteq> []) \<and>
    (\<forall>a < m_nMapping f. m_Words f' a = m_Words f a) \<and> m_nMapping f \<le> m_nMapping f'"
  using assms(2-)
proof (induction bs arbitrary: f fr)
  case (Cons b bs)
  have i: "bank_of b < length (m_Banks f)" using Cons.prems(2) by (cases b) simp_all
  note S = sizes_okD [OF assms(1) bank_of_size(1) [of b], unfolded bank_of_size]
  have sz: "AlignUp (tree_sizes sizeof_T ! bank_of b) 8 = AlignUp (sizeof_T b) 8" by (simp only: bank_of_size)
  show ?case
  proof (cases rule: Reserve_cases [where fs = fs and nSize = "sizeof_T b", OF Cons.prems(1) i S(1) sz S(3) [folded sz], case_names fail ok])
    case fail
    then show ?thesis using Cons.prems(3) by simp
  next
    case (ok f1 xs)
    have "UTM_Reserve (2 ^ k) fs sizeof_T bs f1 = Some (Inr f')" using Cons.prems(3) ok(1) by simp
    from Cons.IH [OF ok(4) _ this] ok(3) Cons.prems(2) obtain fr' where F: "alloc_ok hdr (\<lambda>i. AlignUp (tree_sizes sizeof_T ! i) 8) al fr' f'" "length (m_Banks f') = 4"
        "\<forall>i. (fr(bank_of b := xs)) i \<noteq> [] \<longrightarrow> fr' i \<noteq> []" "\<forall>b \<in> set bs. fr' (bank_of b) \<noteq> []"
        "\<forall>a < m_nMapping f1. m_Words f' a = m_Words f1 a" "m_nMapping f1 \<le> m_nMapping f'" by auto
    have "\<forall>a < m_nMapping f. m_Words f' a = m_Words f a" "m_nMapping f \<le> m_nMapping f'" using F(5,6) ok(6,7) by auto
    moreover have "fr' i \<noteq> []" if "fr i \<noteq> []" for i using F(3) ok(2) that by (cases "i = bank_of b") auto
    moreover have "fr' (bank_of b) \<noteq> []" using F(3) ok(2) by simp
    ultimately show ?thesis using F by (intro exI [of _ fr']) auto
  qed
qed auto

text \<open>The reserve is a quiet change: it keeps every word of the file as it was, and only adds memory at its end.\<close>

lemma EnsureReserve_quiet:
  assumes "mreach (2 ^ k) tree_defs (tree_sizes sizeof_T) al (m_Mapping t)" and "sizes_ok k tree_defs (tree_sizes sizeof_T)"
    and "UTM_EnsureReserve (2 ^ k) fs sizeof_T t = Some (Inr t')"
  shows "m_RootOffset t' = m_RootOffset t \<and> m_nMapping (m_Mapping t) \<le> m_nMapping (m_Mapping t') \<and>
    (\<forall>a < m_nMapping (m_Mapping t). m_Words (m_Mapping t') a = m_Words (m_Mapping t) a)"
proof -
  have l: "length (m_Banks (m_Mapping t)) = 4" and ok: "\<exists>fr. alloc_ok (get_SizeMin tree_defs) (\<lambda>i. AlignUp (tree_sizes sizeof_T ! i) 8) al fr (m_Mapping t)"
    using mreach_ok [OF assms(1,2)] by simp_all
  obtain f' where f': "UTM_Reserve (2 ^ k) fs sizeof_T [TLeaf, TJoint, TQueue, TNode] (m_Mapping t) = Some (Inr f')" "t' = t\<lparr>m_Mapping := f'\<rparr>"
    using assms(3) by (auto simp: UTM_EnsureReserve_def split: option.splits sum.splits)
  have "(\<forall>a < m_nMapping (m_Mapping t). m_Words f' a = m_Words (m_Mapping t) a) \<and> m_nMapping (m_Mapping t) \<le> m_nMapping f'"
    using ok UTM_Reserve_free [OF assms(2) _ l f'(1)] by blast
  then show ?thesis using f'(2) by simp
qed

text \<open>
  C23: what the reserve is for.  When \<open>EnsureReserve\<close> has succeeded, the next node of each of the four types can
  be created without enlarging the file, hence without moving the mapping, even if the system refuses any growth.
\<close>

theorem Reserve_suffices:
  assumes "mreach (2 ^ k) tree_defs (tree_sizes sizeof_T) al (m_Mapping t)" and "sizes_ok k tree_defs (tree_sizes sizeof_T)"
    and "UTM_EnsureReserve (2 ^ k) fs sizeof_T t = Some (Inr t')"
  shows "\<exists>p t''. UTM_Create (2 ^ k) fs' sizeof_T b t' = Some (Inr (p, t'')) \<and> p \<notin> al (bank_of b) \<and> m_nMapping (m_Mapping t'') = m_nMapping (m_Mapping t')"
proof -
  have l: "length (m_Banks (m_Mapping t)) = 4" and ok: "\<exists>fr. alloc_ok (get_SizeMin tree_defs) (\<lambda>i. AlignUp (tree_sizes sizeof_T ! i) 8) al fr (m_Mapping t)"
    using mreach_ok [OF assms(1,2)] by simp_all
  obtain f' where f': "UTM_Reserve (2 ^ k) fs sizeof_T [TLeaf, TJoint, TQueue, TNode] (m_Mapping t) = Some (Inr f')" "t' = t\<lparr>m_Mapping := f'\<rparr>"
    using assms(3) by (auto simp: UTM_EnsureReserve_def split: option.splits sum.splits)
  obtain fr where fr: "alloc_ok (get_SizeMin tree_defs) (\<lambda>i. AlignUp (tree_sizes sizeof_T ! i) 8) al fr f'" "length (m_Banks f') = 4"
      "\<forall>b \<in> set [TLeaf, TJoint, TQueue, TNode]. fr (bank_of b) \<noteq> []" using ok UTM_Reserve_free [OF assms(2) _ l f'(1)] by blast
  have "fr (bank_of b) \<noteq> []" using fr(3) by (cases b) simp_all
  then obtain p ys where x: "fr (bank_of b) = p # ys" by (cases "fr (bank_of b)") auto
  have i: "bank_of b < length (m_Banks f')" using fr(2) by (cases b) simp_all
  have "0 < m_Free (m_Banks f' ! bank_of b)" using alloc_okD(2) [OF fr(1) i] x by (simp add: frees_def)
  then have "MF_EnsureReserve (2 ^ k) fs' (bank_of b) (sizeof_T b) 1 f' = Some (Inr f')" by (subst MF_EnsureReserve.simps) simp
  then have A: "UTM_Create (2 ^ k) fs' sizeof_T b t' = Some (Inr (p, t'\<lparr>m_Mapping := upd_bank (bank_of b) (\<lambda>b. b\<lparr>m_Tail := m_Words f' p, m_Free := m_Free b - 1\<rparr>) f'\<rparr>))"
    using take_block(1) [OF fr(1) i x] f'(2) by (simp add: UTM_Create_def Allocate_def Let_def)
  have B: "p \<notin> al (bank_of b)" using alloc_okD(3) [OF fr(1) i] x by auto
  show ?thesis by (rule exI, rule exI, rule conjI, rule A, rule conjI, rule B) (simp add: upd_bank_def f'(2))
qed

theorem Reserve_suffices_witness:
  "\<exists>t' p t''. UTM_EnsureReserve (2 ^ 4) (\<lambda>n. True) (\<lambda>b. 16) \<lparr>m_Mapping = MF_Open tree_defs True empty_ex, m_RootOffset = 0\<rparr> = Some (Inr t') \<and>
     UTM_Create (2 ^ 4) (\<lambda>n. False) (\<lambda>b. 16) TNode t' = Some (Inr (p, t''))"
proof -
  let ?t = "\<lparr>m_Mapping = MF_Open tree_defs True empty_ex, m_RootOffset = 0\<rparr>"
  have s: "sizes_ok 4 tree_defs (tree_sizes (\<lambda>b. 16))" by (simp add: sizes_ok_def tree_defs_def AlignUp8)
  have f: "short_ok tree_defs empty_ex" by (simp add: short_ok_def tree_defs_def empty_ex_def)
  have "map_option isl (UTM_EnsureReserve (2 ^ 4) (\<lambda>n. True) (\<lambda>b. 16) ?t) = Some False" by code_simp
  then obtain t' where t': "UTM_EnsureReserve (2 ^ 4) (\<lambda>n. True) (\<lambda>b. 16) ?t = Some (Inr t')"
    by (auto simp: isl_def) (metis sumE)
  have "mreach (2 ^ 4) tree_defs (tree_sizes (\<lambda>b. 16)) (\<lambda>i. {}) (m_Mapping ?t)" using mreach.created [OF f] by simp
  from Reserve_suffices [OF this s t', of "\<lambda>n. False" TNode] t' show ?thesis by blast
qed

text \<open>The reserve of one node is not enough for two: \<open>PushID\<close> on a leaf with a single identifier creates two.\<close>

definition Create_two :: "(nat \<Rightarrow> bool) \<Rightarrow> TreeMapped \<Rightarrow> bool" where
  "Create_two fs t =
     (case UTM_Create 16 fs (\<lambda>b. 16) TNode t of
        Some (Inr (p, t1)) \<Rightarrow> (case UTM_Create 16 fs (\<lambda>b. 16) TNode t1 of Some (Inr q) \<Rightarrow> True | r \<Rightarrow> False)
      | r \<Rightarrow> False)"

lemma Reserve_not_two:
  "\<exists>t'. UTM_EnsureReserve 16 (\<lambda>n. True) (\<lambda>b. 16) \<lparr>m_Mapping = MF_Open tree_defs True empty_ex, m_RootOffset = 0\<rparr> = Some (Inr t') \<and>
     \<not> Create_two (\<lambda>n. False) t'"
proof -
  let ?r = "UTM_EnsureReserve 16 (\<lambda>n. True) (\<lambda>b. 16) \<lparr>m_Mapping = MF_Open tree_defs True empty_ex, m_RootOffset = 0\<rparr>"
  have "map_option (map_sum id (Create_two (\<lambda>n. False))) ?r = Some (Inr False)" by code_simp
  then obtain x where x: "?r = Some x" "map_sum id (Create_two (\<lambda>n. False)) x = Inr False" by auto
  then show ?thesis by (cases x) auto
qed

end
