(* ===== verification/PeerManager.thy ===== *)
theory PeerManager
  imports Grimm_Prelude
begin

section \<open>The peer manager (core/peer_manager.cpp)\<close>

text \<open>
  The node rates the peers it knows, keeps them in intrusive containers ordered by identifier, rating,
  adjusted rating and address, and decides with which of them to stay connected.  The clock readings and the
  objects that \<open>AllocPeer\<close> returns are arguments of the operations.  \<open>pm_ok\<close> is the invariant of the
  containers; every operation keeps it, also the in-place adjustment of the ratings of starving peers.
\<close>

unbundle bit_operations_syntax

subsection \<open>Ratings\<close>

definition Rating_Initial :: u32 where "Rating_Initial = 1024"
definition Rating_PenaltyNetworkErr :: u32 where "Rating_PenaltyNetworkErr = 128"
definition Rating_Max :: u32 where "Rating_Max = 10240"

definition Saturate :: "u32 \<Rightarrow> u32" where
  "Saturate v = (if v < Rating_Max then v else Rating_Max)"

definition Rating_Inc :: "u32 \<Rightarrow> u32 \<Rightarrow> u32" where
  "Rating_Inc r delta = Saturate (r + delta)"

definition Rating_Dec :: "u32 \<Rightarrow> u32 \<Rightarrow> u32" where
  "Rating_Dec r delta = (if r > delta then r - delta else 1)"

subsection \<open>State\<close>

record Cfg =
  m_DesiredHighest :: u32
  m_DesiredTotal :: u32
  m_TimeoutDisconnect_ms :: u32
  m_TimeoutReconnect_ms :: u32
  m_TimeoutAddrChange_s :: u32
  m_StarvationRatioInc :: u32
  m_StarvationRatioDec :: u32

definition default_cfg :: Cfg where
  "default_cfg = \<lparr>m_DesiredHighest = 5, m_DesiredTotal = 10, m_TimeoutDisconnect_ms = 1000 * 60 * 2, m_TimeoutReconnect_ms = 1000,
     m_TimeoutAddrChange_s = 60 * 60 * 2, m_StarvationRatioInc = 1, m_StarvationRatioDec = 2\<rparr>"

record PeerInfo =
  m_Key :: bytes
  m_Raw :: u32
  m_Increment :: u32
  m_Now :: bool
  m_Next :: bool
  m_Addr :: u64
  m_LastSeen :: u64
  m_LastActivity_ms :: u32

text \<open>
  The objects live in a store, \<open>m_Peers\<close>; the intrusive containers hold their handles, the ordered ones in
  the order in which they are traversed.
\<close>

record PeerMan =
  m_Peers :: "nat \<Rightarrow> PeerInfo"
  m_IDs :: "nat list"
  m_Ratings :: "nat list"
  m_AdjustedRatings :: "nat list"
  m_Addrs :: "nat list"
  m_Active :: "nat list"
  m_TicksLast_ms :: u32

definition Adjusted :: "PeerInfo \<Rightarrow> u32" where
  "Adjusted pi = Saturate (m_Raw pi + m_Increment pi)"

text \<open>Insertion into an ordered multiset: behind all elements that are not greater.\<close>

primrec ms_insert :: "(nat \<Rightarrow> int) \<Rightarrow> nat \<Rightarrow> nat list \<Rightarrow> nat list" where
  "ms_insert key x [] = [x]"
| "ms_insert key x (y # ys) = (if key x < key y then x # y # ys else y # ms_insert key x ys)"

definition raw_key :: "PeerMan \<Rightarrow> nat \<Rightarrow> int" where
  "raw_key s h = - uint (m_Raw (m_Peers s h))"

definition adj_key :: "PeerMan \<Rightarrow> nat \<Rightarrow> int" where
  "adj_key s h = - uint (Adjusted (m_Peers s h))"

definition id_key :: "PeerMan \<Rightarrow> nat \<Rightarrow> int" where
  "id_key s h = int (be_val (m_Key (m_Peers s h)))"

definition addr_key :: "PeerMan \<Rightarrow> nat \<Rightarrow> int" where
  "addr_key s h = uint (m_Addr (m_Peers s h))"

definition upd :: "nat \<Rightarrow> (PeerInfo \<Rightarrow> PeerInfo) \<Rightarrow> PeerMan \<Rightarrow> PeerMan" where
  "upd h g s = s\<lparr>m_Peers := (m_Peers s)(h := g (m_Peers s h))\<rparr>"

definition zero_id :: bytes where "zero_id = replicate 32 0"

subsection \<open>Operations\<close>

definition OnActive :: "u32 \<Rightarrow> nat \<Rightarrow> bool \<Rightarrow> PeerMan \<Rightarrow> PeerMan" where
  "OnActive now h bActive s =
     (if m_Now (m_Peers s h) \<noteq> bActive then
        let s1 = upd h (\<lambda>p. p\<lparr>m_Now := bActive, m_LastActivity_ms := now\<rparr>) s
        in if bActive then s1\<lparr>m_Active := m_Active s1 @ [h]\<rparr> else s1\<lparr>m_Active := remove1 h (m_Active s1)\<rparr>
      else s)"

text \<open>\<open>p\<close> is the object that \<open>AllocPeer\<close> returns at the handle \<open>h\<close>; its address is empty.\<close>

definition PM_Find :: "bytes \<Rightarrow> bool \<Rightarrow> nat \<Rightarrow> PeerInfo \<Rightarrow> PeerMan \<Rightarrow> nat option \<times> bool \<times> PeerMan" where
  "PM_Find k bCreate h p s =
     (case List.find (\<lambda>x. m_Key (m_Peers s x) = k) (m_IDs s) of
        Some x \<Rightarrow> (Some x, False, s)
      | None \<Rightarrow>
          if \<not> bCreate then (None, bCreate, s)
          else
            let s1 = s\<lparr>m_Peers := (m_Peers s)(h := p\<lparr>m_Key := k\<rparr>)\<rparr>;
                s2 = (if k \<noteq> zero_id then s1\<lparr>m_IDs := ms_insert (id_key s1) h (m_IDs s1)\<rparr> else s1);
                s3 = upd h (\<lambda>p. p\<lparr>m_Raw := Rating_Initial\<rparr>) s2;
                s4 = s3\<lparr>m_Ratings := ms_insert (raw_key s3) h (m_Ratings s3)\<rparr>;
                s5 = upd h (\<lambda>p. p\<lparr>m_Increment := 0\<rparr>) s4;
                s6 = s5\<lparr>m_AdjustedRatings := ms_insert (adj_key s5) h (m_AdjustedRatings s5)\<rparr>
            in (Some h, bCreate, upd h (\<lambda>p. p\<lparr>m_Now := False, m_LastSeen := 0, m_LastActivity_ms := 0\<rparr>) s6))"

definition OnSeen :: "u64 \<Rightarrow> nat \<Rightarrow> PeerMan \<Rightarrow> PeerMan" where
  "OnSeen ts h s = upd h (\<lambda>p. p\<lparr>m_LastSeen := ts\<rparr>) s"

definition ModifyRatingInternal :: "nat \<Rightarrow> u32 \<Rightarrow> bool \<Rightarrow> bool \<Rightarrow> PeerMan \<Rightarrow> PeerMan" where
  "ModifyRatingInternal h delta bAdd ban s =
     (let s1 = s\<lparr>m_Ratings := remove1 h (m_Ratings s)\<rparr>;
          s2 = (if m_Raw (m_Peers s1 h) \<noteq> 0 then s1\<lparr>m_AdjustedRatings := remove1 h (m_AdjustedRatings s1)\<rparr> else s1);
          s3 = (if ban then upd h (\<lambda>p. p\<lparr>m_Raw := 0, m_Increment := 0\<rparr>) s2
                else
                  let s' = upd h (\<lambda>p. p\<lparr>m_Raw := (if bAdd then Rating_Inc (m_Raw p) delta else Rating_Dec (m_Raw p) delta)\<rparr>) s2
                  in s'\<lparr>m_AdjustedRatings := ms_insert (adj_key s') h (m_AdjustedRatings s')\<rparr>)
      in s3\<lparr>m_Ratings := ms_insert (raw_key s3) h (m_Ratings s3)\<rparr>)"

definition ModifyRating :: "nat \<Rightarrow> u32 \<Rightarrow> bool \<Rightarrow> PeerMan \<Rightarrow> PeerMan" where
  "ModifyRating h delta bAdd s = ModifyRatingInternal h delta bAdd False s"

definition Ban :: "nat \<Rightarrow> PeerMan \<Rightarrow> PeerMan" where
  "Ban h s = ModifyRatingInternal h 0 False True s"

definition RemoveAddr :: "nat \<Rightarrow> PeerMan \<Rightarrow> PeerMan" where
  "RemoveAddr h s =
     (if m_Addr (m_Peers s h) \<noteq> 0 then upd h (\<lambda>p. p\<lparr>m_Addr := 0\<rparr>) (s\<lparr>m_Addrs := remove1 h (m_Addrs s)\<rparr>) else s)"

definition find_addr :: "u64 \<Rightarrow> PeerMan \<Rightarrow> nat option" where
  "find_addr a s = List.find (\<lambda>x. m_Addr (m_Peers s x) = a) (m_Addrs s)"

definition ModifyAddr :: "nat \<Rightarrow> u64 \<Rightarrow> PeerMan \<Rightarrow> PeerMan" where
  "ModifyAddr h a s =
     (if a = m_Addr (m_Peers s h) then s
      else
        let s1 = RemoveAddr h s
        in if a = 0 then s1
           else
             let s2 = (case find_addr a s1 of Some x \<Rightarrow> RemoveAddr x s1 | None \<Rightarrow> s1);
                 s3 = upd h (\<lambda>p. p\<lparr>m_Addr := a\<rparr>) s2
             in s3\<lparr>m_Addrs := ms_insert (addr_key s3) h (m_Addrs s3)\<rparr>)"

definition OnRemoteError :: "Cfg \<Rightarrow> u32 \<Rightarrow> nat \<Rightarrow> bool \<Rightarrow> PeerMan \<Rightarrow> PeerMan" where
  "OnRemoteError c now h bShouldBan s =
     (if bShouldBan then Ban h s
      else
        let dt_ms = now - m_LastActivity_ms (m_Peers s h)
        in if dt_ms < m_TimeoutDisconnect_ms c then ModifyRating h Rating_PenaltyNetworkErr False s else s)"

definition IsOutdated :: "Cfg \<Rightarrow> u64 \<Rightarrow> PeerInfo \<Rightarrow> bool" where
  "IsOutdated c ts p \<longleftrightarrow> ts - m_LastSeen p > ucast (m_TimeoutAddrChange_s c)"

definition OnPeer :: "Cfg \<Rightarrow> u64 \<Rightarrow> bytes \<Rightarrow> u64 \<Rightarrow> bool \<Rightarrow> nat \<Rightarrow> PeerInfo \<Rightarrow> PeerMan \<Rightarrow> nat option \<times> PeerMan" where
  "OnPeer c ts k a bAddrVerified h p s =
     (if k = zero_id \<and> \<not> bAddrVerified then (None, s)
      else
        case (if k = zero_id then find_addr a s else None) of
          Some x \<Rightarrow> (Some x, s)
        | None \<Rightarrow>
            (case PM_Find k True h p s of
               (Some r, b, s1) \<Rightarrow>
                 (Some r, if bAddrVerified \<or> m_Addr (m_Peers s1 r) = 0 \<or> IsOutdated c ts (m_Peers s1 r) then ModifyAddr r a s1 else s1)
             | (None, b, s1) \<Rightarrow> (None, s1)))"

definition PM_Delete :: "u32 \<Rightarrow> nat \<Rightarrow> PeerMan \<Rightarrow> PeerMan" where
  "PM_Delete now h s =
     (let s1 = RemoveAddr h (OnActive now h False s);
          s2 = s1\<lparr>m_Ratings := remove1 h (m_Ratings s1)\<rparr>;
          s3 = (if m_Raw (m_Peers s2 h) \<noteq> 0 then s2\<lparr>m_AdjustedRatings := remove1 h (m_AdjustedRatings s2)\<rparr> else s2)
      in if m_Key (m_Peers s3 h) \<noteq> zero_id then s3\<lparr>m_IDs := remove1 h (m_IDs s3)\<rparr> else s3)"

lemma upd_simps [simp]:
  "m_Peers (upd h g s) = (m_Peers s)(h := g (m_Peers s h))" "m_IDs (upd h g s) = m_IDs s" "m_Ratings (upd h g s) = m_Ratings s"
  "m_AdjustedRatings (upd h g s) = m_AdjustedRatings s" "m_Addrs (upd h g s) = m_Addrs s" "m_Active (upd h g s) = m_Active s"
  "m_TicksLast_ms (upd h g s) = m_TicksLast_ms s"
  by (simp_all add: upd_def)

lemma Delete_Ratings: "m_Ratings (PM_Delete now h s) = remove1 h (m_Ratings s)"
  by (simp add: PM_Delete_def Let_def RemoveAddr_def OnActive_def)

function PM_Clear :: "u32 \<Rightarrow> PeerMan \<Rightarrow> PeerMan" where
  "PM_Clear now s = (case m_Ratings s of [] \<Rightarrow> s | h # hs \<Rightarrow> PM_Clear now (PM_Delete now h s))"
  by pat_completeness auto
termination
  by (relation "measure (\<lambda>(now, s). length (m_Ratings s))") (simp_all add: Delete_Ratings)

subsection \<open>Adjusting the ratings\<close>

text \<open>
  First loop: active peers leave the set, for the others the increment grows in place.  Second loop: the
  increment of the active peers shrinks, and they are put back.
\<close>

fun Starve_loop :: "u32 \<Rightarrow> nat list \<Rightarrow> PeerMan \<Rightarrow> PeerMan" where
  "Starve_loop rInc [] s = s"
| "Starve_loop rInc (h # hs) s =
     (let s' = (if m_Now (m_Peers s h) then s\<lparr>m_AdjustedRatings := remove1 h (m_AdjustedRatings s)\<rparr>
                else upd h (\<lambda>p. p\<lparr>m_Increment := Rating_Inc (m_Increment p) rInc\<rparr>) s)
      in Starve_loop rInc hs s')"

fun Sated_loop :: "u32 \<Rightarrow> nat list \<Rightarrow> PeerMan \<Rightarrow> PeerMan" where
  "Sated_loop rDec [] s = s"
| "Sated_loop rDec (h # hs) s =
     (let s1 = upd h (\<lambda>p. p\<lparr>m_Increment := (if m_Increment p > rDec then m_Increment p - rDec else 0)\<rparr>) s
      in Sated_loop rDec hs (s1\<lparr>m_AdjustedRatings := ms_insert (adj_key s1) h (m_AdjustedRatings s1)\<rparr>))"

definition elapsed_s :: "u32 \<Rightarrow> u32 \<Rightarrow> u32" where
  "elapsed_s t_ms last_ms =
     (let dt_ms = t_ms - last_ms;
          dt_s = dt_ms div 1000
      in if t_ms mod 1000 < last_ms mod 1000 then dt_s + 1 else dt_s)"

definition UpdateRatingsInternal :: "Cfg \<Rightarrow> u32 \<Rightarrow> PeerMan \<Rightarrow> PeerMan" where
  "UpdateRatingsInternal c t_ms s =
     (let dt_s = elapsed_s t_ms (m_TicksLast_ms s);
          rInc = dt_s * m_StarvationRatioInc c;
          rDec = dt_s * m_StarvationRatioDec c;
          s1 = Starve_loop rInc (m_AdjustedRatings s) s
      in Sated_loop rDec (m_Active s1) s1)"

subsection \<open>Selecting the peers\<close>

fun Early_loop :: "Cfg \<Rightarrow> u32 \<Rightarrow> nat list \<Rightarrow> nat \<Rightarrow> PeerMan \<Rightarrow> nat \<times> PeerMan" where
  "Early_loop c t [] nSelected s = (nSelected, s)"
| "Early_loop c t (h # hs) nSelected s =
     (let bTooEarly = (t - m_LastActivity_ms (m_Peers s h) < m_TimeoutDisconnect_ms c)
      in Early_loop c t hs (if bTooEarly then nSelected + 1 else nSelected) (upd h (\<lambda>p. p\<lparr>m_Next := bTooEarly\<rparr>) s))"

text \<open>\<open>clk h\<close> is the reading of the clock when the peer \<open>h\<close> is switched.\<close>

definition ActivatePeerInternal :: "Cfg \<Rightarrow> (nat \<Rightarrow> u32) \<Rightarrow> u32 \<Rightarrow> nat \<Rightarrow> nat \<times> PeerMan \<Rightarrow> nat \<times> PeerMan" where
  "ActivatePeerInternal c clk t h st =
     (let (nSelected, s) = st;
          p = m_Peers s h
      in if m_Now p \<and> m_Next p then st
         else if m_Addr p = 0 then st
         else if \<not> m_Now p \<and> t - m_LastActivity_ms p < m_TimeoutReconnect_ms c then st
         else if m_Raw p = 0 then st
         else
           let s1 = upd h (\<lambda>p. p\<lparr>m_Next := True\<rparr>) s
           in (nSelected + 1, if \<not> m_Now (m_Peers s1 h) then OnActive (clk h) h True s1 else s1))"

fun Highest_loop :: "Cfg \<Rightarrow> (nat \<Rightarrow> u32) \<Rightarrow> u32 \<Rightarrow> nat list \<Rightarrow> nat \<Rightarrow> nat \<times> PeerMan \<Rightarrow> nat \<times> PeerMan" where
  "Highest_loop c clk t [] nHighest st = st"
| "Highest_loop c clk t (h # hs) nHighest st =
     (if nHighest < unat (m_DesiredHighest c) \<and> fst st < unat (m_DesiredTotal c)
      then Highest_loop c clk t hs (nHighest + 1) (ActivatePeerInternal c clk t h st)
      else st)"

fun Adjusted_loop :: "Cfg \<Rightarrow> (nat \<Rightarrow> u32) \<Rightarrow> u32 \<Rightarrow> nat list \<Rightarrow> nat \<times> PeerMan \<Rightarrow> nat \<times> PeerMan" where
  "Adjusted_loop c clk t [] st = st"
| "Adjusted_loop c clk t (h # hs) st =
     (if fst st < unat (m_DesiredTotal c) then Adjusted_loop c clk t hs (ActivatePeerInternal c clk t h st) else st)"

fun Excess_loop :: "(nat \<Rightarrow> u32) \<Rightarrow> nat list \<Rightarrow> PeerMan \<Rightarrow> PeerMan" where
  "Excess_loop clk [] s = s"
| "Excess_loop clk (h # hs) s = Excess_loop clk hs (if \<not> m_Next (m_Peers s h) then OnActive (clk h) h False s else s)"

definition PM_Update :: "Cfg \<Rightarrow> (nat \<Rightarrow> u32) \<Rightarrow> u32 \<Rightarrow> PeerMan \<Rightarrow> PeerMan" where
  "PM_Update c clk nTicks_ms s =
     (let s1 = (if m_TicksLast_ms s \<noteq> 0 then UpdateRatingsInternal c nTicks_ms s else s);
          s2 = s1\<lparr>m_TicksLast_ms := nTicks_ms\<rparr>;
          st = Early_loop c nTicks_ms (m_Active s2) 0 s2;
          st = Highest_loop c clk nTicks_ms (m_Ratings (snd st)) 0 st;
          st = Adjusted_loop c clk nTicks_ms (m_AdjustedRatings (snd st)) st
      in Excess_loop clk (m_Active (snd st)) (snd st))"

subsection \<open>Invariant\<close>

text \<open>
  Every container holds exactly the peers it is meant for, once, and in order; ratings and increments stay
  within the saturation; banned peers have no increment and are not active; no two peers share an address or
  a non-zero identifier.
\<close>

definition members :: "PeerMan \<Rightarrow> nat list \<Rightarrow> (PeerInfo \<Rightarrow> bool) \<Rightarrow> bool" where
  "members s xs P \<longleftrightarrow> distinct xs \<and> set xs = {h \<in> set (m_Ratings s). P (m_Peers s h)}"

definition asc :: "(nat \<Rightarrow> int) \<Rightarrow> nat list \<Rightarrow> bool" where
  "asc key xs \<longleftrightarrow> sorted (map key xs)"

definition peer_ok :: "PeerInfo \<Rightarrow> bool" where
  "peer_ok p \<longleftrightarrow> m_Raw p \<le> Rating_Max \<and> m_Increment p \<le> Rating_Max \<and> (m_Raw p = 0 \<longrightarrow> m_Increment p = 0 \<and> \<not> m_Now p)"

definition pm_ok :: "PeerMan \<Rightarrow> bool" where
  "pm_ok s \<longleftrightarrow> distinct (m_Ratings s) \<and> asc (raw_key s) (m_Ratings s) \<and>
     members s (m_AdjustedRatings s) (\<lambda>p. m_Raw p \<noteq> 0) \<and> asc (adj_key s) (m_AdjustedRatings s) \<and>
     members s (m_IDs s) (\<lambda>p. m_Key p \<noteq> zero_id) \<and> asc (id_key s) (m_IDs s) \<and> inj_on (\<lambda>h. m_Key (m_Peers s h)) (set (m_IDs s)) \<and>
     members s (m_Addrs s) (\<lambda>p. m_Addr p \<noteq> 0) \<and> asc (addr_key s) (m_Addrs s) \<and> inj_on (\<lambda>h. m_Addr (m_Peers s h)) (set (m_Addrs s)) \<and>
     members s (m_Active s) m_Now \<and> (\<forall>h \<in> set (m_Ratings s). peer_ok (m_Peers s h))"

lemma set_ms_insert [simp]: "set (ms_insert key x xs) = insert x (set xs)"
  by (induction xs) auto

lemma distinct_ms_insert [simp]: "distinct (ms_insert key x xs) \<longleftrightarrow> x \<notin> set xs \<and> distinct xs"
  by (induction xs) auto

lemma asc_ms_insert: "asc key xs \<Longrightarrow> asc key (ms_insert key x xs)"
proof (induction xs)
  case (Cons y ys)
  then show ?case by (auto simp: asc_def)
qed (simp add: asc_def)

lemma asc_remove1: "asc key xs \<Longrightarrow> asc key (remove1 x xs)"
  by (induction xs) (auto simp: asc_def dest: notin_set_remove1 in_set_remove1 [THEN iffD1, rotated] set_remove1_subset [THEN subsetD])

lemma asc_cong: "(\<And>x. x \<in> set xs \<Longrightarrow> key x = key' x) \<Longrightarrow> asc key xs = asc key' xs"
  unfolding asc_def by (metis map_cong)

lemma Max_u32: "unat Rating_Max = 10240"
  by (simp add: Rating_Max_def)

lemma Saturate_le [simp]: "Saturate v \<le> Rating_Max"
  by (simp add: Saturate_def less_imp_le)

lemmas key_defs = raw_key_def adj_key_def id_key_def addr_key_def

lemma key_updates [simp]:
  "raw_key (m_Ratings_update g s) = raw_key s" "raw_key (m_AdjustedRatings_update g s) = raw_key s" "raw_key (m_IDs_update g s) = raw_key s" "raw_key (m_Addrs_update g s) = raw_key s" "raw_key (m_Active_update g s) = raw_key s" "raw_key (m_TicksLast_ms_update t s) = raw_key s"
  "adj_key (m_Ratings_update g s) = adj_key s" "adj_key (m_AdjustedRatings_update g s) = adj_key s" "adj_key (m_IDs_update g s) = adj_key s" "adj_key (m_Addrs_update g s) = adj_key s" "adj_key (m_Active_update g s) = adj_key s" "adj_key (m_TicksLast_ms_update t s) = adj_key s"
  "id_key (m_Ratings_update g s) = id_key s" "id_key (m_AdjustedRatings_update g s) = id_key s" "id_key (m_IDs_update g s) = id_key s" "id_key (m_Addrs_update g s) = id_key s" "id_key (m_Active_update g s) = id_key s" "id_key (m_TicksLast_ms_update t s) = id_key s"
  "addr_key (m_Ratings_update g s) = addr_key s" "addr_key (m_AdjustedRatings_update g s) = addr_key s" "addr_key (m_IDs_update g s) = addr_key s" "addr_key (m_Addrs_update g s) = addr_key s" "addr_key (m_Active_update g s) = addr_key s" "addr_key (m_TicksLast_ms_update t s) = addr_key s"
  by (simp_all add: fun_eq_iff key_defs)

text \<open>Facts about the containers when one peer changes.\<close>

lemma members_sub: "members s xs P \<Longrightarrow> h \<in> set xs \<Longrightarrow> h \<in> set (m_Ratings s) \<and> P (m_Peers s h)"
  by (auto simp: members_def)

lemma members_frame:
  assumes "members s xs P" and "set (m_Ratings s') = set (m_Ratings s)" and "\<And>h. h \<in> set (m_Ratings s) \<Longrightarrow> P (m_Peers s' h) = P (m_Peers s h)"
  shows "members s' xs P"
  using assms by (auto simp: members_def)

lemma asc_frame:
  assumes "members s xs P" and "asc (key s) xs" and "\<And>h. h \<in> set (m_Ratings s) \<Longrightarrow> key s' h = key s h"
  shows "asc (key s') xs"
proof -
  have "asc (key s') xs = asc (key s) xs" using members_sub [OF assms(1)] assms(3) by (intro asc_cong) blast
  then show ?thesis using assms(2) by simp
qed

lemma inj_frame:
  assumes "members s xs P" and "inj_on (\<lambda>h. f (m_Peers s h)) (set xs)" and "\<And>h. h \<in> set (m_Ratings s) \<Longrightarrow> f (m_Peers s' h) = f (m_Peers s h)"
  shows "inj_on (\<lambda>h. f (m_Peers s' h)) (set xs)"
  using assms(2) members_sub [OF assms(1)] assms(3) by (simp add: inj_on_def)

text \<open>The five containers one by one.\<close>

definition ratings_ok :: "PeerMan \<Rightarrow> bool" where
  "ratings_ok s \<longleftrightarrow> distinct (m_Ratings s) \<and> asc (raw_key s) (m_Ratings s)"

definition adjusted_ok :: "PeerMan \<Rightarrow> bool" where
  "adjusted_ok s \<longleftrightarrow> members s (m_AdjustedRatings s) (\<lambda>p. m_Raw p \<noteq> 0) \<and> asc (adj_key s) (m_AdjustedRatings s)"

definition ids_ok :: "PeerMan \<Rightarrow> bool" where
  "ids_ok s \<longleftrightarrow> members s (m_IDs s) (\<lambda>p. m_Key p \<noteq> zero_id) \<and> asc (id_key s) (m_IDs s) \<and> inj_on (\<lambda>h. m_Key (m_Peers s h)) (set (m_IDs s))"

definition addrs_ok :: "PeerMan \<Rightarrow> bool" where
  "addrs_ok s \<longleftrightarrow> members s (m_Addrs s) (\<lambda>p. m_Addr p \<noteq> 0) \<and> asc (addr_key s) (m_Addrs s) \<and> inj_on (\<lambda>h. m_Addr (m_Peers s h)) (set (m_Addrs s))"

definition active_ok :: "PeerMan \<Rightarrow> bool" where
  "active_ok s \<longleftrightarrow> members s (m_Active s) m_Now"

definition peers_ok :: "PeerMan \<Rightarrow> bool" where
  "peers_ok s \<longleftrightarrow> (\<forall>h \<in> set (m_Ratings s). peer_ok (m_Peers s h))"

lemma pm_ok_split: "pm_ok s \<longleftrightarrow> ratings_ok s \<and> adjusted_ok s \<and> ids_ok s \<and> addrs_ok s \<and> active_ok s \<and> peers_ok s"
  by (auto simp: pm_ok_def ratings_ok_def adjusted_ok_def ids_ok_def addrs_ok_def active_ok_def peers_ok_def)

definition same :: "(PeerInfo \<Rightarrow> 'a) \<Rightarrow> PeerMan \<Rightarrow> PeerMan \<Rightarrow> bool" where
  "same f s s' \<longleftrightarrow> (\<forall>h \<in> set (m_Ratings s). f (m_Peers s' h) = f (m_Peers s h))"

lemma same_upd: "(\<And>p. f (g p) = f p) \<Longrightarrow> same f s (upd h g s)"
  by (simp add: same_def)

lemma same_refl [simp]: "same f s s"
  by (simp add: same_def)

lemma ratings_frame: "ratings_ok s \<Longrightarrow> m_Ratings s' = m_Ratings s \<Longrightarrow> same m_Raw s s' \<Longrightarrow> ratings_ok s'"
  unfolding ratings_ok_def same_def using asc_cong [of "m_Ratings s" "raw_key s'" "raw_key s"] by (simp add: raw_key_def)

lemma adjusted_frame:
  assumes "adjusted_ok s" and "set (m_Ratings s') = set (m_Ratings s)" and "m_AdjustedRatings s' = m_AdjustedRatings s" and "same m_Raw s s'" and "same m_Increment s s'"
  shows "adjusted_ok s'"
proof -
  have "members s' (m_AdjustedRatings s) (\<lambda>p. m_Raw p \<noteq> 0)"
    using assms members_frame [of s "m_AdjustedRatings s" "\<lambda>p. m_Raw p \<noteq> 0" s'] by (simp add: adjusted_ok_def same_def)
  moreover have "asc (adj_key s') (m_AdjustedRatings s)"
    using assms asc_frame [of s "m_AdjustedRatings s" "\<lambda>p. m_Raw p \<noteq> 0" adj_key s'] by (simp add: adjusted_ok_def same_def adj_key_def Adjusted_def)
  ultimately show ?thesis using assms(3) by (simp add: adjusted_ok_def)
qed

lemma ids_frame:
  assumes "ids_ok s" and "set (m_Ratings s') = set (m_Ratings s)" and "m_IDs s' = m_IDs s" and "same m_Key s s'"
  shows "ids_ok s'"
proof -
  have m: "members s (m_IDs s) (\<lambda>p. m_Key p \<noteq> zero_id)" using assms(1) by (simp add: ids_ok_def)
  have "members s' (m_IDs s) (\<lambda>p. m_Key p \<noteq> zero_id)" using members_frame [OF m, of s'] assms by (simp add: same_def)
  moreover have "asc (id_key s') (m_IDs s)" using asc_frame [OF m, of id_key s'] assms by (simp add: ids_ok_def same_def id_key_def)
  moreover have "inj_on (\<lambda>h. m_Key (m_Peers s' h)) (set (m_IDs s))" using inj_frame [OF m, of m_Key s'] assms by (simp add: ids_ok_def same_def)
  ultimately show ?thesis using assms(3) by (simp add: ids_ok_def)
qed

lemma addrs_frame:
  assumes "addrs_ok s" and "set (m_Ratings s') = set (m_Ratings s)" and "m_Addrs s' = m_Addrs s" and "same m_Addr s s'"
  shows "addrs_ok s'"
proof -
  have m: "members s (m_Addrs s) (\<lambda>p. m_Addr p \<noteq> 0)" using assms(1) by (simp add: addrs_ok_def)
  have "members s' (m_Addrs s) (\<lambda>p. m_Addr p \<noteq> 0)" using members_frame [OF m, of s'] assms by (simp add: same_def)
  moreover have "asc (addr_key s') (m_Addrs s)" using asc_frame [OF m, of addr_key s'] assms by (simp add: addrs_ok_def same_def addr_key_def)
  moreover have "inj_on (\<lambda>h. m_Addr (m_Peers s' h)) (set (m_Addrs s))" using inj_frame [OF m, of m_Addr s'] assms by (simp add: addrs_ok_def same_def)
  ultimately show ?thesis using assms(3) by (simp add: addrs_ok_def)
qed

lemma active_frame: "active_ok s \<Longrightarrow> set (m_Ratings s') = set (m_Ratings s) \<Longrightarrow> m_Active s' = m_Active s \<Longrightarrow> same m_Now s s' \<Longrightarrow> active_ok s'"
  unfolding active_ok_def same_def using members_frame [of s "m_Active s" m_Now s'] by simp

lemma peers_frame:
  "peers_ok s \<Longrightarrow> set (m_Ratings s') = set (m_Ratings s) \<Longrightarrow> same m_Raw s s' \<Longrightarrow> same m_Increment s s' \<Longrightarrow> same m_Now s s' \<Longrightarrow> peers_ok s'"
  by (simp add: peers_ok_def same_def peer_ok_def)

lemmas frames = ratings_frame adjusted_frame ids_frame addrs_frame active_frame peers_frame

text \<open>Taking a peer out of a container and putting one in.\<close>

lemma members_take:
  assumes "members s xs P" and "set (m_Ratings s') = set (m_Ratings s)" and "\<And>x. x \<noteq> h \<Longrightarrow> m_Peers s' x = m_Peers s x" and "\<not> P (m_Peers s' h)"
  shows "members s' (remove1 h xs) P"
  using assms by (auto simp: members_def) metis

lemma members_put:
  assumes "members s xs P" and "set (m_Ratings s') = set (m_Ratings s)" and "\<And>x. x \<noteq> h \<Longrightarrow> m_Peers s' x = m_Peers s x" and "P (m_Peers s' h)"
    and "h \<in> set (m_Ratings s)" and "\<not> P (m_Peers s h)"
  shows "members s' (ms_insert key h xs) P" "members s' (xs @ [h]) P"
  using assms by (auto simp: members_def) metis+

lemma asc_take:
  assumes "distinct xs" and "asc (key s) xs" and "\<And>x. x \<noteq> h \<Longrightarrow> key s' x = key s x"
  shows "asc (key s') (remove1 h xs)"
proof -
  have "asc (key s') (remove1 h xs) = asc (key s) (remove1 h xs)" using assms(1,3) by (intro asc_cong) auto
  then show ?thesis using asc_remove1 [OF assms(2)] by simp
qed

lemma asc_put:
  assumes "h \<notin> set xs" and "asc (key s) xs" and "\<And>x. x \<noteq> h \<Longrightarrow> key s' x = key s x"
  shows "asc (key s') (ms_insert (key s') h xs)"
proof -
  have "asc (key s') xs = asc (key s) xs" using assms(1,3) by (intro asc_cong) metis
  then show ?thesis using asc_ms_insert assms(2) by blast
qed

lemma frames_trivial:
  assumes "pm_ok s" and "m_Ratings s' = m_Ratings s" "m_AdjustedRatings s' = m_AdjustedRatings s" "m_IDs s' = m_IDs s" "m_Addrs s' = m_Addrs s" "m_Active s' = m_Active s"
    and "same m_Raw s s'" "same m_Increment s s'" "same m_Key s s'" "same m_Addr s s'" "same m_Now s s'"
  shows "pm_ok s'"
proof -
  have O: "ratings_ok s" "adjusted_ok s" "ids_ok s" "addrs_ok s" "active_ok s" "peers_ok s" using assms(1) by (simp_all add: pm_ok_split)
  have S: "set (m_Ratings s') = set (m_Ratings s)" using assms(2) by simp
  show ?thesis unfolding pm_ok_split
    by (intro conjI ratings_frame [OF O(1)] adjusted_frame [OF O(2) S] ids_frame [OF O(3) S] addrs_frame [OF O(4) S] active_frame [OF O(5) S] peers_frame [OF O(6) S] assms)
qed

lemma OnSeen_ok: "pm_ok s \<Longrightarrow> pm_ok (OnSeen ts h s)"
  unfolding OnSeen_def by (rule frames_trivial) (auto intro!: same_upd)

lemma OnActive_simps [simp]:
  "m_Ratings (OnActive now h b s) = m_Ratings s" "m_AdjustedRatings (OnActive now h b s) = m_AdjustedRatings s"
  "m_IDs (OnActive now h b s) = m_IDs s" "m_Addrs (OnActive now h b s) = m_Addrs s" "x \<noteq> h \<Longrightarrow> m_Peers (OnActive now h b s) x = m_Peers s x"
  "m_Raw (m_Peers (OnActive now h b s) x) = m_Raw (m_Peers s x)" "m_Increment (m_Peers (OnActive now h b s) x) = m_Increment (m_Peers s x)"
  "m_Key (m_Peers (OnActive now h b s) x) = m_Key (m_Peers s x)" "m_Addr (m_Peers (OnActive now h b s) x) = m_Addr (m_Peers s x)"
  "m_Now (m_Peers (OnActive now h b s) h) = b" "m_Next (m_Peers (OnActive now h b s) x) = m_Next (m_Peers s x)"
  by (auto simp: OnActive_def Let_def)

lemma OnActive_ok:
  assumes ok: "pm_ok s" and h: "h \<in> set (m_Ratings s)" and b: "b \<longrightarrow> m_Raw (m_Peers s h) \<noteq> 0"
  shows "pm_ok (OnActive now h b s)"
proof (cases "m_Now (m_Peers s h) = b")
  case True
  then show ?thesis using ok by (simp add: OnActive_def)
next
  case False
  let ?s = "OnActive now h b s"
  have "members ?s (m_Active ?s) m_Now"
  proof (cases b)
    case True
    then have "m_Active ?s = m_Active s @ [h]" using False by (simp add: OnActive_def Let_def)
    then show ?thesis using members_put(2) [of s "m_Active s" m_Now ?s h] ok h False True by (simp add: pm_ok_def)
  next
    case b: False
    then have "m_Active ?s = remove1 h (m_Active s)" using False by (simp add: OnActive_def Let_def)
    then show ?thesis using members_take [of s "m_Active s" m_Now ?s h] ok b by (simp add: pm_ok_def)
  qed
  moreover have "peer_ok (m_Peers ?s x)" if "x \<in> set (m_Ratings s)" for x
    using ok that b by (cases "x = h") (auto simp: pm_ok_def peer_ok_def)
  ultimately show ?thesis using ok frames(1-4) [of s ?s] unfolding pm_ok_split by (simp add: active_ok_def peers_ok_def same_def)
qed

text \<open>Rating changes stay within the bounds, and only a ban gives zero.\<close>

lemma Inc_bounds:
  assumes "r \<le> Rating_Max" and "unat delta + unat Rating_Max < 2 ^ 32"
  shows "unat (Rating_Inc r delta) = min (unat r + unat delta) (unat Rating_Max)" "0 < r \<or> 0 < delta \<Longrightarrow> Rating_Inc r delta \<noteq> 0"
proof -
  have "unat r \<le> unat Rating_Max" using assms(1) by (simp add: word_le_nat_alt)
  then have "unat (r + delta) = unat r + unat delta" using assms(2) by (simp add: unat_word_ariths)
  then show e: "unat (Rating_Inc r delta) = min (unat r + unat delta) (unat Rating_Max)"
    by (simp add: Rating_Inc_def Saturate_def word_less_nat_alt)
  assume "0 < r \<or> 0 < delta"
  then have "0 < unat r + unat delta" by (auto simp: word_less_nat_alt)
  then show "Rating_Inc r delta \<noteq> 0" using e Max_u32 by auto
qed

lemma Dec_bounds:
  assumes "r \<le> Rating_Max"
  shows "Rating_Dec r delta \<le> Rating_Max" "Rating_Dec r delta \<noteq> 0"
proof -
  show "Rating_Dec r delta \<noteq> 0" by (auto simp: Rating_Dec_def)
  show "Rating_Dec r delta \<le> Rating_Max"
  proof (cases "r > delta")
    case True
    then have "unat (r - delta) = unat r - unat delta" by (intro unat_sub) simp
    then show ?thesis using True assms by (simp add: Rating_Dec_def word_le_nat_alt)
  qed (simp add: Rating_Dec_def Rating_Max_def)
qed

lemma Modify_simps [simp]:
  "m_IDs (ModifyRatingInternal h delta bAdd ban s) = m_IDs s" "m_Addrs (ModifyRatingInternal h delta bAdd ban s) = m_Addrs s"
  "m_Active (ModifyRatingInternal h delta bAdd ban s) = m_Active s"
  "x \<noteq> h \<Longrightarrow> m_Peers (ModifyRatingInternal h delta bAdd ban s) x = m_Peers s x"
  "m_Key (m_Peers (ModifyRatingInternal h delta bAdd ban s) x) = m_Key (m_Peers s x)"
  "m_Addr (m_Peers (ModifyRatingInternal h delta bAdd ban s) x) = m_Addr (m_Peers s x)"
  "m_Now (m_Peers (ModifyRatingInternal h delta bAdd ban s) x) = m_Now (m_Peers s x)"
  by (simp_all add: ModifyRatingInternal_def Let_def)

lemma Modify_set: "h \<in> set (m_Ratings s) \<Longrightarrow> distinct (m_Ratings s) \<Longrightarrow> set (m_Ratings (ModifyRatingInternal h delta bAdd ban s)) = set (m_Ratings s)"
  by (auto simp: ModifyRatingInternal_def Let_def)

lemma Modify_ratings:
  assumes ok: "ratings_ok s"
  shows "ratings_ok (ModifyRatingInternal h delta bAdd ban s)"
proof -
  let ?s = "ModifyRatingInternal h delta bAdd ban s"
  have d: "distinct (m_Ratings s)" and a: "asc (raw_key s) (m_Ratings s)" using ok by (simp_all add: ratings_ok_def)
  have r: "m_Ratings ?s = ms_insert (raw_key ?s) h (remove1 h (m_Ratings s))"
    by (simp add: ModifyRatingInternal_def Let_def)
  have k: "raw_key ?s x = raw_key s x" if "x \<noteq> h" for x using that by (simp add: raw_key_def)
  have "asc (raw_key ?s) (m_Ratings ?s)" unfolding r
    using asc_put [of h "remove1 h (m_Ratings s)" raw_key s ?s] d asc_remove1 [OF a] k by simp
  then show ?thesis using d r by (simp add: ratings_ok_def)
qed

lemma Modify_raw:
  "m_Raw (m_Peers (ModifyRatingInternal h delta bAdd ban s) h) =
     (if ban then 0 else if bAdd then Rating_Inc (m_Raw (m_Peers s h)) delta else Rating_Dec (m_Raw (m_Peers s h)) delta)"
  "m_Increment (m_Peers (ModifyRatingInternal h delta bAdd ban s) h) = (if ban then 0 else m_Increment (m_Peers s h))"
  by (simp_all add: ModifyRatingInternal_def Let_def)

lemma Modify_adjusted:
  assumes ok: "ratings_ok s" "adjusted_ok s" and h: "h \<in> set (m_Ratings s)" and raw: "\<not> ban \<longrightarrow> m_Raw (m_Peers (ModifyRatingInternal h delta bAdd ban s) h) \<noteq> 0"
  shows "adjusted_ok (ModifyRatingInternal h delta bAdd ban s)"
proof -
  let ?s = "ModifyRatingInternal h delta bAdd ban s" and ?xs = "if m_Raw (m_Peers s h) \<noteq> 0 then remove1 h (m_AdjustedRatings s) else m_AdjustedRatings s"
  have m: "members s (m_AdjustedRatings s) (\<lambda>p. m_Raw p \<noteq> 0)" and a: "asc (adj_key s) (m_AdjustedRatings s)" and d: "distinct (m_Ratings s)"
    using ok by (simp_all add: adjusted_ok_def ratings_ok_def)
  have hx: "h \<notin> set ?xs" using m by (auto simp: members_def)
  have k: "adj_key ?s x = adj_key s x" if "x \<noteq> h" for x using that by (simp add: adj_key_def)
  have xs: "distinct ?xs" "asc (adj_key s) ?xs" "set ?xs = {x \<in> set (m_Ratings s). m_Raw (m_Peers s x) \<noteq> 0} - {h}"
    using m a asc_remove1 [OF a] by (auto simp: members_def)
  have S: "set (m_Ratings ?s) = set (m_Ratings s)" by (rule Modify_set [OF h d])
  have o: "x \<noteq> h \<Longrightarrow> m_Raw (m_Peers ?s x) = m_Raw (m_Peers s x)" for x by simp
  show ?thesis
  proof (cases ban)
    case True
    then have e: "m_AdjustedRatings ?s = ?xs" by (simp add: ModifyRatingInternal_def Let_def)
    have "asc (adj_key ?s) ?xs = asc (adj_key s) ?xs" using hx k by (intro asc_cong) metis
    moreover have "{x \<in> set (m_Ratings s). m_Raw (m_Peers ?s x) \<noteq> 0} = {x \<in> set (m_Ratings s). m_Raw (m_Peers s x) \<noteq> 0} - {h}"
      using True Modify_raw(1) [of h delta bAdd ban s] o by (intro set_eqI) (case_tac "x = h"; simp)
    ultimately show ?thesis unfolding adjusted_ok_def e members_def S using xs by (simp only:)
  next
    case False
    then have e: "m_AdjustedRatings ?s = ms_insert (adj_key ?s) h ?xs"
      by (simp add: ModifyRatingInternal_def Let_def)
    have "asc (adj_key ?s) (m_AdjustedRatings ?s)" unfolding e by (rule asc_put [OF hx xs(2) k])
    moreover have "{x \<in> set (m_Ratings s). m_Raw (m_Peers ?s x) \<noteq> 0} = insert h ({x \<in> set (m_Ratings s). m_Raw (m_Peers s x) \<noteq> 0} - {h})"
      using False raw h o by (intro set_eqI) (case_tac "x = h"; simp)
    moreover have "distinct (m_AdjustedRatings ?s)" "set (m_AdjustedRatings ?s) = insert h (set ?xs)" unfolding e using hx xs(1) by simp_all
    ultimately show ?thesis unfolding adjusted_ok_def members_def S using xs(3) by (simp only:)
  qed
qed

lemma Modify_ok:
  assumes ok: "pm_ok s" and h: "h \<in> set (m_Ratings s)" and ban: "ban \<longrightarrow> \<not> m_Now (m_Peers s h)"
    and d: "bAdd \<longrightarrow> unat delta + unat Rating_Max < 2 ^ 32 \<and> (0 < m_Raw (m_Peers s h) \<or> 0 < delta)"
  shows "pm_ok (ModifyRatingInternal h delta bAdd ban s)"
proof -
  let ?s = "ModifyRatingInternal h delta bAdd ban s"
  have O: "ratings_ok s" "adjusted_ok s" "ids_ok s" "addrs_ok s" "active_ok s" "peers_ok s" using ok by (simp_all add: pm_ok_split)
  have p: "peer_ok (m_Peers s h)" using O(6) h by (simp add: peers_ok_def)
  have S: "set (m_Ratings ?s) = set (m_Ratings s)" using Modify_set [OF h] O(1) by (simp add: ratings_ok_def)
  have b: "m_Raw (m_Peers ?s h) \<le> Rating_Max \<and> (\<not> ban \<longrightarrow> m_Raw (m_Peers ?s h) \<noteq> 0)"
  proof -
    define r where "r = m_Raw (m_Peers s h)"
    have r: "r \<le> Rating_Max" using p by (simp add: peer_ok_def r_def)
    have "Rating_Inc r delta \<le> Rating_Max" by (simp add: Rating_Inc_def)
    moreover have "Rating_Inc r delta \<noteq> 0" if bAdd using Inc_bounds(2) [OF r, of delta] d that by (simp add: r_def)
    ultimately show ?thesis using Dec_bounds [OF r, of delta] by (simp add: Modify_raw(1) r_def)
  qed
  have "peer_ok (m_Peers ?s h)" using b p ban by (simp add: peer_ok_def Modify_raw(2))
  then have "peers_ok ?s" using O(6) unfolding peers_ok_def S by (metis Modify_simps(4))
  moreover have "adjusted_ok ?s" using Modify_adjusted [OF O(1,2) h] b by blast
  ultimately show ?thesis using O Modify_ratings [OF O(1)] ids_frame [OF O(3) S] addrs_frame [OF O(4) S] active_frame [OF O(5) S]
    unfolding pm_ok_split by (simp add: same_def)
qed

subsection \<open>Addresses\<close>

lemma RemoveAddr_simps [simp]:
  "m_Ratings (RemoveAddr h s) = m_Ratings s" "m_AdjustedRatings (RemoveAddr h s) = m_AdjustedRatings s" "m_IDs (RemoveAddr h s) = m_IDs s"
  "m_Active (RemoveAddr h s) = m_Active s" "x \<noteq> h \<Longrightarrow> m_Peers (RemoveAddr h s) x = m_Peers s x"
  "m_Raw (m_Peers (RemoveAddr h s) x) = m_Raw (m_Peers s x)" "m_Increment (m_Peers (RemoveAddr h s) x) = m_Increment (m_Peers s x)"
  "m_Key (m_Peers (RemoveAddr h s) x) = m_Key (m_Peers s x)" "m_Now (m_Peers (RemoveAddr h s) x) = m_Now (m_Peers s x)"
  "m_Next (m_Peers (RemoveAddr h s) x) = m_Next (m_Peers s x)" "m_Addr (m_Peers (RemoveAddr h s) h) = 0"
  by (auto simp: RemoveAddr_def)

lemma RemoveAddr_addrs:
  assumes ok: "addrs_ok s"
  shows "addrs_ok (RemoveAddr h s)"
proof (cases "m_Addr (m_Peers s h) = 0")
  case True
  then show ?thesis using ok by (simp add: RemoveAddr_def)
next
  case False
  let ?s = "RemoveAddr h s"
  have e: "m_Addrs ?s = remove1 h (m_Addrs s)" using False by (simp add: RemoveAddr_def)
  have m: "members s (m_Addrs s) (\<lambda>p. m_Addr p \<noteq> 0)" and a: "asc (addr_key s) (m_Addrs s)" and i: "inj_on (\<lambda>h. m_Addr (m_Peers s h)) (set (m_Addrs s))"
    using ok by (simp_all add: addrs_ok_def)
  have d: "distinct (m_Addrs s)" using m by (simp add: members_def)
  have "members ?s (remove1 h (m_Addrs s)) (\<lambda>p. m_Addr p \<noteq> 0)" by (rule members_take [OF m, where h = h]) simp_all
  moreover have "asc (addr_key ?s) (remove1 h (m_Addrs s))" by (rule asc_take [where key = addr_key, OF d a]) (simp add: addr_key_def)
  moreover have "inj_on (\<lambda>x. m_Addr (m_Peers ?s x)) (set (remove1 h (m_Addrs s)))" using i d by (simp add: inj_on_def)
  ultimately show ?thesis unfolding addrs_ok_def e by blast
qed

text \<open>Everything but the addresses is unchanged.\<close>

lemma addr_only:
  assumes "pm_ok s" and "addrs_ok s'" and "m_Ratings s' = m_Ratings s" "m_AdjustedRatings s' = m_AdjustedRatings s" "m_IDs s' = m_IDs s" "m_Active s' = m_Active s"
    and "same m_Raw s s'" "same m_Increment s s'" "same m_Key s s'" "same m_Now s s'"
  shows "pm_ok s'"
proof -
  have O: "ratings_ok s" "adjusted_ok s" "ids_ok s" "addrs_ok s" "active_ok s" "peers_ok s" using assms(1) by (simp_all add: pm_ok_split)
  have S: "set (m_Ratings s') = set (m_Ratings s)" using assms(3) by simp
  show ?thesis unfolding pm_ok_split
    by (intro conjI ratings_frame [OF O(1)] adjusted_frame [OF O(2) S] ids_frame [OF O(3) S] active_frame [OF O(5) S] peers_frame [OF O(6) S] assms)
qed

lemma RemoveAddr_ok: "pm_ok s \<Longrightarrow> pm_ok (RemoveAddr h s)"
  by (rule addr_only) (auto simp: RemoveAddr_addrs pm_ok_split same_def)

lemma find_addr_None: "addrs_ok s \<Longrightarrow> find_addr a s = None \<Longrightarrow> x \<in> set (m_Addrs s) \<Longrightarrow> m_Addr (m_Peers s x) \<noteq> a"
  by (auto simp: find_addr_def find_None_iff)

lemma find_addr_Some: "find_addr a s = Some x \<Longrightarrow> x \<in> set (m_Addrs s) \<and> m_Addr (m_Peers s x) = a"
  by (auto simp: find_addr_def find_Some_iff)

definition take_addr :: "u64 \<Rightarrow> PeerMan \<Rightarrow> PeerMan" where
  "take_addr a s = (case find_addr a s of Some x \<Rightarrow> RemoveAddr x s | None \<Rightarrow> s)"

lemma take_addr_simps [simp]:
  "m_Ratings (take_addr a s) = m_Ratings s" "m_AdjustedRatings (take_addr a s) = m_AdjustedRatings s" "m_IDs (take_addr a s) = m_IDs s"
  "m_Active (take_addr a s) = m_Active s" "m_Raw (m_Peers (take_addr a s) x) = m_Raw (m_Peers s x)"
  "m_Increment (m_Peers (take_addr a s) x) = m_Increment (m_Peers s x)" "m_Key (m_Peers (take_addr a s) x) = m_Key (m_Peers s x)"
  "m_Now (m_Peers (take_addr a s) x) = m_Now (m_Peers s x)"
  by (simp_all add: take_addr_def split: option.split)

lemma take_addr_free:
  assumes ok: "addrs_ok s" and a: "a \<noteq> 0"
  shows "addrs_ok (take_addr a s)" "x \<in> set (m_Addrs (take_addr a s)) \<Longrightarrow> m_Addr (m_Peers (take_addr a s) x) \<noteq> a"
    "m_Addr (m_Peers s h) = 0 \<Longrightarrow> m_Addr (m_Peers (take_addr a s) h) = 0"
proof -
  show o: "addrs_ok (take_addr a s)" using RemoveAddr_addrs [OF ok] ok by (simp add: take_addr_def split: option.split)
  show "m_Addr (m_Peers (take_addr a s) x) \<noteq> a" if x: "x \<in> set (m_Addrs (take_addr a s))"
  proof (cases "find_addr a s")
    case None
    then show ?thesis using find_addr_None [OF ok None] x by (simp add: take_addr_def)
  next
    case (Some y)
    note S = find_addr_Some [OF Some]
    have d: "distinct (m_Addrs s)" "inj_on (\<lambda>h. m_Addr (m_Peers s h)) (set (m_Addrs s))" using ok by (auto simp: addrs_ok_def members_def)
    have t: "take_addr a s = RemoveAddr y s" using Some by (simp add: take_addr_def)
    have "m_Addrs (RemoveAddr y s) = remove1 y (m_Addrs s)" using S a by (simp add: RemoveAddr_def)
    then have "x \<in> set (m_Addrs s)" "x \<noteq> y" using x d(1) t by auto
    then show ?thesis using S d(2) t by (auto dest: inj_onD)
  qed
  show "m_Addr (m_Peers (take_addr a s) h) = 0" if "m_Addr (m_Peers s h) = 0"
  proof (cases "find_addr a s")
    case (Some y)
    then have "h \<noteq> y" using find_addr_Some [OF Some] that a by auto
    then show ?thesis using Some that by (simp add: take_addr_def)
  qed (simp add: take_addr_def that)
qed

lemma ModifyAddr_eq:
  "ModifyAddr h a s = (if a = m_Addr (m_Peers s h) then s else if a = 0 then RemoveAddr h s
     else let s' = upd h (\<lambda>p. p\<lparr>m_Addr := a\<rparr>) (take_addr a (RemoveAddr h s)) in s'\<lparr>m_Addrs := ms_insert (addr_key s') h (m_Addrs s')\<rparr>)"
  by (simp add: ModifyAddr_def take_addr_def Let_def)

lemma ModifyAddr_ok:
  assumes ok: "pm_ok s" and h: "h \<in> set (m_Ratings s)"
  shows "pm_ok (ModifyAddr h a s)" "m_Addr (m_Peers (ModifyAddr h a s) h) = a" "set (m_Ratings (ModifyAddr h a s)) = set (m_Ratings s)"
proof -
  show "m_Addr (m_Peers (ModifyAddr h a s) h) = a" by (auto simp: ModifyAddr_eq Let_def)
  show "set (m_Ratings (ModifyAddr h a s)) = set (m_Ratings s)" by (auto simp: ModifyAddr_eq Let_def)
  show "pm_ok (ModifyAddr h a s)"
  proof (cases "a = m_Addr (m_Peers s h) \<or> a = 0")
    case True
    then show ?thesis using ok RemoveAddr_ok [OF ok] by (auto simp: ModifyAddr_eq)
  next
    case False
    define t where "t = take_addr a (RemoveAddr h s)"
    define u where "u = upd h (\<lambda>p. p\<lparr>m_Addr := a\<rparr>) t"
    let ?s = "u\<lparr>m_Addrs := ms_insert (addr_key u) h (m_Addrs u)\<rparr>"
    have o: "addrs_ok (RemoveAddr h s)" using RemoveAddr_addrs ok by (simp add: pm_ok_split)
    have a0: "a \<noteq> 0" using False by simp
    note T = take_addr_free [OF o a0, folded t_def]
    have h0: "m_Addr (m_Peers t h) = 0" using T(3) by simp
    have m: "members t (m_Addrs t) (\<lambda>p. m_Addr p \<noteq> 0)" and as: "asc (addr_key t) (m_Addrs t)" and i: "inj_on (\<lambda>h. m_Addr (m_Peers t h)) (set (m_Addrs t))"
      using T(1) by (simp_all add: addrs_ok_def)
    have hn: "h \<notin> set (m_Addrs t)" using members_sub [OF m] h0 by blast
    have r: "m_Ratings t = m_Ratings s" by (simp add: t_def)
    have "members ?s (ms_insert (addr_key u) h (m_Addrs t)) (\<lambda>p. m_Addr p \<noteq> 0)"
      by (rule members_put(1) [OF m]) (use h h0 a0 r in \<open>simp_all add: u_def\<close>)
    moreover have "asc (addr_key u) (ms_insert (addr_key u) h (m_Addrs t))"
      by (rule asc_put [where key = addr_key, OF hn as]) (simp add: u_def addr_key_def)
    moreover have "inj_on (\<lambda>x. m_Addr (m_Peers u x)) (insert h (set (m_Addrs t)))"
    proof -
      have "inj_on (\<lambda>x. m_Addr (m_Peers u x)) (set (m_Addrs t))" using i hn by (simp add: inj_on_def u_def)
      moreover have "\<forall>x \<in> set (m_Addrs t). m_Addr (m_Peers u h) \<noteq> m_Addr (m_Peers u x)" using T(2) hn by (auto simp: u_def)
      ultimately show ?thesis by (auto simp: inj_on_insert)
    qed
    ultimately have "addrs_ok ?s" unfolding addrs_ok_def by (simp add: u_def)
    then have "pm_ok ?s" by (rule addr_only [OF ok]) (auto simp: u_def t_def same_def)
    then show ?thesis using False by (simp add: ModifyAddr_eq Let_def u_def t_def)
  qed
qed

subsection \<open>Creation and deletion of peers\<close>

lemma members_add:
  assumes m: "members s xs P" and S: "set (m_Ratings s') = insert h (set (m_Ratings s))" and h: "h \<notin> set (m_Ratings s)"
    and o: "\<And>x. x \<noteq> h \<Longrightarrow> m_Peers s' x = m_Peers s x"
  shows "P (m_Peers s' h) \<Longrightarrow> members s' (ms_insert key h xs) P" "\<not> P (m_Peers s' h) \<Longrightarrow> members s' xs P"
proof -
  have x: "set xs = {x \<in> set (m_Ratings s). P (m_Peers s' x)}" using m h o by (auto simp: members_def) metis+
  show "members s' (ms_insert key h xs) P" if "P (m_Peers s' h)" using m x h that by (auto simp: members_def S)
  show "members s' xs P" if "\<not> P (m_Peers s' h)" using m x h that by (auto simp: members_def S)
qed

lemma members_del:
  assumes m: "members s xs P" and S: "set (m_Ratings s') = set (m_Ratings s) - {h}" and o: "\<And>x. x \<noteq> h \<Longrightarrow> P (m_Peers s' x) = P (m_Peers s x)"
  shows "members s' (remove1 h xs) P" "\<not> P (m_Peers s h) \<Longrightarrow> members s' xs P"
proof -
  have x: "set xs - {h} = {x \<in> set (m_Ratings s) - {h}. P (m_Peers s' x)}" using m o by (auto simp: members_def)
  show "members s' (remove1 h xs) P" using m x by (simp add: members_def S)
  show "members s' xs P" if "\<not> P (m_Peers s h)"
  proof -
    have "h \<notin> set xs" using members_sub [OF m] that by blast
    then show ?thesis using m x by (simp add: members_def S)
  qed
qed

lemma ins_cong: "(\<And>x. key x = key' x) \<Longrightarrow> ms_insert key h xs = ms_insert key' h xs"
  by (induction xs) simp_all

definition new_peer :: "bytes \<Rightarrow> PeerInfo \<Rightarrow> PeerInfo" where
  "new_peer k p = p\<lparr>m_Key := k, m_Raw := Rating_Initial, m_Increment := 0, m_Now := False, m_LastSeen := 0, m_LastActivity_ms := 0\<rparr>"

lemma PM_Find_cases:
  obtains (found) x where "x \<in> set (m_IDs s)" "m_Key (m_Peers s x) = k" "PM_Find k bCreate h p s = (Some x, False, s)"
  | (absent) "\<forall>x \<in> set (m_IDs s). m_Key (m_Peers s x) \<noteq> k" "\<not> bCreate" "PM_Find k bCreate h p s = (None, bCreate, s)"
  | (created) s' where "\<forall>x \<in> set (m_IDs s). m_Key (m_Peers s x) \<noteq> k" "bCreate" "PM_Find k bCreate h p s = (Some h, bCreate, s')"
      "m_Peers s' = (m_Peers s)(h := new_peer k p)" "m_Ratings s' = ms_insert (raw_key s') h (m_Ratings s)"
      "m_AdjustedRatings s' = ms_insert (adj_key s') h (m_AdjustedRatings s)"
      "m_IDs s' = (if k \<noteq> zero_id then ms_insert (id_key s') h (m_IDs s) else m_IDs s)"
      "m_Addrs s' = m_Addrs s" "m_Active s' = m_Active s"
proof (cases "List.find (\<lambda>x. m_Key (m_Peers s x) = k) (m_IDs s)")
  case (Some x)
  then have "x \<in> set (m_IDs s)" "m_Key (m_Peers s x) = k" by (auto simp: find_Some_iff)
  then show ?thesis using found [of x] Some by (simp add: PM_Find_def)
next
  case None
  then have n: "\<forall>x \<in> set (m_IDs s). m_Key (m_Peers s x) \<noteq> k" by (simp add: find_None_iff)
  show ?thesis
  proof (cases bCreate)
    case False
    then show ?thesis using absent n None by (simp add: PM_Find_def)
  next
    case True
    define s' where "s' = snd (snd (PM_Find k bCreate h p s))"
    have F: "PM_Find k bCreate h p s = (Some h, bCreate, s')" using None True by (simp add: s'_def PM_Find_def Let_def)
    have P: "m_Peers s' = (m_Peers s)(h := new_peer k p)" using None True
      by (intro ext) (simp add: s'_def PM_Find_def Let_def new_peer_def)
    have K: "raw_key s' = raw_key (s\<lparr>m_Peers := (m_Peers s)(h := new_peer k p)\<rparr>)" "adj_key s' = adj_key (s\<lparr>m_Peers := (m_Peers s)(h := new_peer k p)\<rparr>)"
      "id_key s' = id_key (s\<lparr>m_Peers := (m_Peers s)(h := new_peer k p)\<rparr>)" by (simp_all add: fun_eq_iff key_defs P)
    show ?thesis
    proof (rule created [OF n True F P])
      show "m_Ratings s' = ms_insert (raw_key s') h (m_Ratings s)" unfolding K using None True
        by (auto simp: s'_def PM_Find_def Let_def raw_key_def new_peer_def intro!: ins_cong)
      show "m_AdjustedRatings s' = ms_insert (adj_key s') h (m_AdjustedRatings s)" unfolding K using None True
        by (auto simp: s'_def PM_Find_def Let_def adj_key_def Adjusted_def new_peer_def intro!: ins_cong)
      show "m_IDs s' = (if k \<noteq> zero_id then ms_insert (id_key s') h (m_IDs s) else m_IDs s)" unfolding K using None True
        by (auto simp: s'_def PM_Find_def Let_def id_key_def new_peer_def intro!: ins_cong)
      show "m_Addrs s' = m_Addrs s" "m_Active s' = m_Active s" using None True by (simp_all add: s'_def PM_Find_def Let_def)
    qed
  qed
qed

lemma Find_ok:
  assumes ok: "pm_ok s" and h: "h \<notin> set (m_Ratings s)" and p: "m_Addr p = 0" and f: "PM_Find k bCreate h p s = (r, b, s')"
  shows "pm_ok s'" "\<And>x. r = Some x \<Longrightarrow> x \<in> set (m_Ratings s') \<and> m_Key (m_Peers s' x) = k" "bCreate \<Longrightarrow> r \<noteq> None"
proof -
  have O: "ratings_ok s" "adjusted_ok s" "ids_ok s" "addrs_ok s" "active_ok s" "peers_ok s" using ok by (simp_all add: pm_ok_split)
  have "pm_ok s' \<and> (\<forall>x. r = Some x \<longrightarrow> x \<in> set (m_Ratings s') \<and> m_Key (m_Peers s' x) = k) \<and> (bCreate \<longrightarrow> r \<noteq> None)"
  proof (cases rule: PM_Find_cases [of s k bCreate h p, case_names found absent created])
    case (found x)
    then have "x \<in> set (m_Ratings s)" using members_sub [of s "m_IDs s"] O(3) by (auto simp: ids_ok_def)
    then show ?thesis using found f ok by simp
  next
    case absent
    then show ?thesis using f ok by simp
  next
    case (created t)
    have t: "s' = t" "r = Some h" using created(3) f by simp_all
    note P = created(4)
    have o: "x \<noteq> h \<Longrightarrow> m_Peers t x = m_Peers s x" for x by (simp add: P)
    have S: "set (m_Ratings t) = insert h (set (m_Ratings s))" by (simp add: created(5))
    have hP: "m_Peers t h = new_peer k p" by (simp add: P)
    have in_r: "h \<notin> set xs" if "members s xs Q" for xs Q using members_sub [OF that] h by blast
    have "ratings_ok t"
      using asc_put [where key = raw_key and s = s and s' = t, OF h] O(1) o h by (simp add: ratings_ok_def created(5) raw_key_def)
    moreover have "adjusted_ok t"
    proof -
      have m: "members s (m_AdjustedRatings s) (\<lambda>p. m_Raw p \<noteq> 0)" and a: "asc (adj_key s) (m_AdjustedRatings s)" using O(2) by (simp_all add: adjusted_ok_def)
      have "m_Raw (m_Peers t h) \<noteq> 0" by (simp add: hP new_peer_def Rating_Initial_def)
      then show ?thesis unfolding adjusted_ok_def created(6)
        using members_add(1) [OF m S h o, of "adj_key t"] asc_put [where key = adj_key and s' = t, OF in_r [OF m] a] o by (simp add: adj_key_def)
    qed
    moreover have "ids_ok t"
    proof -
      have m: "members s (m_IDs s) (\<lambda>p. m_Key p \<noteq> zero_id)" and a: "asc (id_key s) (m_IDs s)" and i: "inj_on (\<lambda>h. m_Key (m_Peers s h)) (set (m_IDs s))"
        using O(3) by (simp_all add: ids_ok_def)
      have hn: "h \<notin> set (m_IDs s)" by (rule in_r [OF m])
      have kh: "m_Key (m_Peers t h) = k" by (simp add: hP new_peer_def)
      have i': "inj_on (\<lambda>h. m_Key (m_Peers t h)) (set (m_IDs s))" using i hn o by (simp add: inj_on_def) metis
      show ?thesis
      proof (cases "k = zero_id")
        case True
        have "asc (id_key t) (m_IDs s) = asc (id_key s) (m_IDs s)" using hn o by (intro asc_cong) (metis id_key_def)
        then show ?thesis using True created(7) members_add(2) [OF m S h o] a i' kh by (simp add: ids_ok_def)
      next
        case False
        have "inj_on (\<lambda>h. m_Key (m_Peers t h)) (insert h (set (m_IDs s)))"
        proof -
          have "\<forall>x \<in> set (m_IDs s). m_Key (m_Peers t x) \<noteq> k" using created(1) hn o by metis
          then show ?thesis using i' by (auto simp: inj_on_insert kh)
        qed
        then show ?thesis using False created(7) members_add(1) [OF m S h o, of "id_key t"]
          asc_put [where key = id_key and s' = t, OF hn a] o kh by (simp add: ids_ok_def id_key_def)
      qed
    qed
    moreover have "addrs_ok t"
    proof -
      have m: "members s (m_Addrs s) (\<lambda>p. m_Addr p \<noteq> 0)" using O(4) by (simp add: addrs_ok_def)
      have "h \<notin> set (m_Addrs s)" by (rule in_r [OF m])
      then have e: "m_Peers t x = m_Peers s x" if "x \<in> set (m_Addrs s)" for x using that o by metis
      have "asc (addr_key t) (m_Addrs s) = asc (addr_key s) (m_Addrs s)" using e by (intro asc_cong) (simp add: addr_key_def)
      moreover have "inj_on (\<lambda>h. m_Addr (m_Peers t h)) (set (m_Addrs s))" using O(4) e by (simp add: addrs_ok_def inj_on_def)
      ultimately show ?thesis using O(4) members_add(2) [OF m S h o] p by (simp add: addrs_ok_def created(8) hP new_peer_def)
    qed
    moreover have "active_ok t" using members_add(2) [OF _ S h o, of "m_Active s" m_Now] O(5) by (simp add: active_ok_def created(9) hP new_peer_def)
    moreover have "peers_ok t"
    proof -
      have "peer_ok (new_peer k p)" by (simp add: peer_ok_def new_peer_def Rating_Initial_def Rating_Max_def)
      then show ?thesis using O(6) by (simp add: peers_ok_def S P)
    qed
    ultimately show ?thesis using t S hP by (simp add: pm_ok_split new_peer_def)
  qed
  then show "pm_ok s'" "\<And>x. r = Some x \<Longrightarrow> x \<in> set (m_Ratings s') \<and> m_Key (m_Peers s' x) = k" "bCreate \<Longrightarrow> r \<noteq> None" by blast+
qed

lemma OnPeer_ok:
  assumes ok: "pm_ok s" and h: "h \<notin> set (m_Ratings s)" and p: "m_Addr p = 0" and f: "OnPeer c ts k a v h p s = (r, s')"
  shows "pm_ok s'"
proof (cases "k = zero_id \<and> (\<not> v \<or> find_addr a s \<noteq> None)")
  case True
  then show ?thesis using f ok by (auto simp: OnPeer_def split: if_splits)
next
  case False
  obtain q b s1 where F: "PM_Find k True h p s = (q, b, s1)" by (cases "PM_Find k True h p s") auto
  note G = Find_ok [OF ok h p F]
  obtain x where x: "q = Some x" using G(3) by auto
  have "s' = (if v \<or> m_Addr (m_Peers s1 x) = 0 \<or> IsOutdated c ts (m_Peers s1 x) then ModifyAddr x a s1 else s1)"
    using f False F x by (auto simp: OnPeer_def split: if_splits)
  then show ?thesis using G(1) ModifyAddr_ok(1) [OF G(1)] G(2) [OF x] by simp
qed

lemma asc_sub: "asc key xs \<Longrightarrow> (\<And>x. x \<noteq> h \<Longrightarrow> key' x = key x) \<Longrightarrow> h \<notin> set xs \<Longrightarrow> asc key' xs"
  using asc_cong [of xs key' key] by metis

text \<open>Removing an inactive peer without an address from the remaining containers.\<close>

lemma drop_ok:
  assumes ok: "pm_ok s" and a: "m_Addr (m_Peers s h) = 0" "\<not> m_Now (m_Peers s h)"
    and s': "m_Peers s' = m_Peers s" "m_Ratings s' = remove1 h (m_Ratings s)" "m_Addrs s' = m_Addrs s" "m_Active s' = m_Active s"
      "m_AdjustedRatings s' = (if m_Raw (m_Peers s h) \<noteq> 0 then remove1 h (m_AdjustedRatings s) else m_AdjustedRatings s)"
      "m_IDs s' = (if m_Key (m_Peers s h) \<noteq> zero_id then remove1 h (m_IDs s) else m_IDs s)"
  shows "pm_ok s'"
proof -
  have O: "ratings_ok s" "adjusted_ok s" "ids_ok s" "addrs_ok s" "active_ok s" "peers_ok s" using ok by (simp_all add: pm_ok_split)
  have K: "raw_key s' = raw_key s" "adj_key s' = adj_key s" "id_key s' = id_key s" "addr_key s' = addr_key s" by (simp_all add: fun_eq_iff key_defs s')
  have S: "set (m_Ratings s') = set (m_Ratings s) - {h}" using O(1) by (simp add: s' ratings_ok_def)
  have del: "members s' (if P (m_Peers s h) then remove1 h xs else xs) P" if "members s xs P" for xs P
    using members_del [OF that S, of] s'(1) by simp
  have "ratings_ok s'" using O(1) by (simp add: ratings_ok_def K s' asc_remove1)
  moreover have "adjusted_ok s'"
    using O(2) del [of "m_AdjustedRatings s" "\<lambda>p. m_Raw p \<noteq> 0"] by (simp add: adjusted_ok_def K s' asc_remove1)
  moreover have "ids_ok s'"
    using O(3) del [of "m_IDs s" "\<lambda>p. m_Key p \<noteq> zero_id"] inj_on_subset [of "\<lambda>h. m_Key (m_Peers s h)" "set (m_IDs s)" "set (remove1 h (m_IDs s))"]
    by (auto simp: ids_ok_def K s' asc_remove1 set_remove1_subset)
  moreover have "addrs_ok s'" using O(4) del [of "m_Addrs s" "\<lambda>p. m_Addr p \<noteq> 0"] a by (simp add: addrs_ok_def K s')
  moreover have "active_ok s'" using O(5) del [of "m_Active s" m_Now] a by (simp add: active_ok_def s')
  moreover have "peers_ok s'" using O(6) by (simp add: peers_ok_def S s'(1))
  ultimately show ?thesis by (simp add: pm_ok_split)
qed

lemma Delete_ok:
  assumes ok: "pm_ok s" and h: "h \<in> set (m_Ratings s)"
  shows "pm_ok (PM_Delete now h s)"
proof -
  let ?t = "RemoveAddr h (OnActive now h False s)"
  have t: "pm_ok ?t" by (intro RemoveAddr_ok OnActive_ok ok h) simp
  show ?thesis by (rule drop_ok [OF t, of h]) (simp_all add: PM_Delete_def Let_def)
qed

lemma Clear_ok: "pm_ok s \<Longrightarrow> pm_ok (PM_Clear now s) \<and> m_Ratings (PM_Clear now s) = []"
proof (induction now s rule: PM_Clear.induct)
  case (1 now s)
  show ?case
  proof (cases "m_Ratings s")
    case Nil
    then show ?thesis using 1(2) by simp
  next
    case (Cons h hs)
    then have "pm_ok (PM_Delete now h s)" using Delete_ok [OF 1(2)] by simp
    then show ?thesis using 1(1) [OF Cons] Cons by simp
  qed
qed

text \<open>After \<open>Clear\<close> nothing is left in any container.\<close>

lemma Clear_empty:
  assumes "pm_ok s"
  shows "m_Ratings (PM_Clear now s) = [] \<and> m_AdjustedRatings (PM_Clear now s) = [] \<and> m_IDs (PM_Clear now s) = [] \<and>
    m_Addrs (PM_Clear now s) = [] \<and> m_Active (PM_Clear now s) = []"
proof -
  have "pm_ok (PM_Clear now s)" and r: "m_Ratings (PM_Clear now s) = []" using Clear_ok [OF assms, of now] by blast+
  then show ?thesis by (simp add: pm_ok_def members_def del: PM_Clear.simps)
qed

declare PM_Clear.simps [simp del]

subsection \<open>The ratings of starving peers\<close>

lemma Starve_simps [simp]:
  "m_Ratings (Starve_loop rInc hs s) = m_Ratings s" "m_IDs (Starve_loop rInc hs s) = m_IDs s" "m_Addrs (Starve_loop rInc hs s) = m_Addrs s"
  "m_Active (Starve_loop rInc hs s) = m_Active s" "m_Raw (m_Peers (Starve_loop rInc hs s) x) = m_Raw (m_Peers s x)"
  "m_Key (m_Peers (Starve_loop rInc hs s) x) = m_Key (m_Peers s x)" "m_Addr (m_Peers (Starve_loop rInc hs s) x) = m_Addr (m_Peers s x)"
  "m_Now (m_Peers (Starve_loop rInc hs s) x) = m_Now (m_Peers s x)" "m_LastActivity_ms (m_Peers (Starve_loop rInc hs s) x) = m_LastActivity_ms (m_Peers s x)"
  by (induction hs arbitrary: s) (auto simp: Let_def)

lemma Starve_spec:
  assumes "distinct hs"
  shows "m_Increment (m_Peers (Starve_loop rInc hs s) x) =
      (if x \<in> set hs \<and> \<not> m_Now (m_Peers s x) then Rating_Inc (m_Increment (m_Peers s x)) rInc else m_Increment (m_Peers s x))"
    and "distinct (m_AdjustedRatings s) \<Longrightarrow> m_AdjustedRatings (Starve_loop rInc hs s) = filter (\<lambda>x. \<not> (x \<in> set hs \<and> m_Now (m_Peers s x))) (m_AdjustedRatings s)"
proof -
  show "m_Increment (m_Peers (Starve_loop rInc hs s) x) =
      (if x \<in> set hs \<and> \<not> m_Now (m_Peers s x) then Rating_Inc (m_Increment (m_Peers s x)) rInc else m_Increment (m_Peers s x))"
    using assms by (induction hs arbitrary: s) (auto simp: Let_def)
  show "distinct (m_AdjustedRatings s) \<Longrightarrow> m_AdjustedRatings (Starve_loop rInc hs s) = filter (\<lambda>x. \<not> (x \<in> set hs \<and> m_Now (m_Peers s x))) (m_AdjustedRatings s)"
    using assms
  proof (induction hs arbitrary: s)
    case (Cons h hs)
    then show ?case by (auto simp: Let_def distinct_remove1_removeAll removeAll_filter_not_eq filter_filter intro!: filter_cong)
  qed simp
qed

text \<open>
  The effect on the order: every starving peer gains the same amount, up to the saturation, so the order of
  the set does not change and the elements may be changed in place.
\<close>

lemma Adjusted_Inc:
  assumes "m_Raw p \<le> Rating_Max" "m_Increment p \<le> Rating_Max" and "unat rInc + unat Rating_Max < 2 ^ 32"
  shows "unat (Adjusted p) = min (unat (m_Raw p) + unat (m_Increment p)) (unat Rating_Max)"
    and "unat (Adjusted (p\<lparr>m_Increment := Rating_Inc (m_Increment p) rInc\<rparr>)) = min (unat (Adjusted p) + unat rInc) (unat Rating_Max)"
proof -
  have s: "unat (Saturate (r + i)) = min (unat r + unat i) (unat Rating_Max)" if "r \<le> Rating_Max" "i \<le> Rating_Max" for r i
    using Inc_bounds(1) [OF that(1), of i] that(2) Max_u32 by (simp add: Rating_Inc_def word_le_nat_alt)
  show a: "unat (Adjusted p) = min (unat (m_Raw p) + unat (m_Increment p)) (unat Rating_Max)" unfolding Adjusted_def by (rule s [OF assms(1,2)])
  have "Rating_Inc (m_Increment p) rInc \<le> Rating_Max" by (simp add: Rating_Inc_def)
  then show "unat (Adjusted (p\<lparr>m_Increment := Rating_Inc (m_Increment p) rInc\<rparr>)) = min (unat (Adjusted p) + unat rInc) (unat Rating_Max)"
    using s [OF assms(1), of "Rating_Inc (m_Increment p) rInc"] Inc_bounds(1) [OF assms(2,3)] a by (simp add: Adjusted_def)
qed

lemma asc_mono:
  assumes "asc key xs" and "\<And>x y. x \<in> set xs \<Longrightarrow> y \<in> set xs \<Longrightarrow> key x \<le> key y \<Longrightarrow> key' x \<le> key' y"
  shows "asc key' xs"
  unfolding asc_def sorted_map by (rule sorted_wrt_mono_rel [OF assms(2) assms(1) [unfolded asc_def sorted_map]])

lemma asc_filter: "asc key xs \<Longrightarrow> asc key (filter P xs)"
  by (simp add: asc_def sorted_filter)

text \<open>The set of adjusted ratings between the two loops, when the peers \<open>hs\<close> are still to be put back.\<close>

definition sated_inv :: "nat list \<Rightarrow> PeerMan \<Rightarrow> bool" where
  "sated_inv hs s \<longleftrightarrow> ratings_ok s \<and> ids_ok s \<and> addrs_ok s \<and> active_ok s \<and> peers_ok s \<and> distinct hs \<and> set hs \<subseteq> set (m_Active s) \<and>
     distinct (m_AdjustedRatings s) \<and> set (m_AdjustedRatings s) = {x \<in> set (m_Ratings s). m_Raw (m_Peers s x) \<noteq> 0} - set hs \<and>
     asc (adj_key s) (m_AdjustedRatings s)"

lemma Starve_inv:
  assumes ok: "pm_ok s" and r: "unat rInc + unat Rating_Max < 2 ^ 32"
  shows "sated_inv (m_Active s) (Starve_loop rInc (m_AdjustedRatings s) s)"
proof -
  let ?s = "Starve_loop rInc (m_AdjustedRatings s) s" and ?xs = "filter (\<lambda>x. \<not> m_Now (m_Peers s x)) (m_AdjustedRatings s)"
  have O: "ratings_ok s" "adjusted_ok s" "ids_ok s" "addrs_ok s" "active_ok s" "peers_ok s" using ok by (simp_all add: pm_ok_split)
  have m: "members s (m_AdjustedRatings s) (\<lambda>p. m_Raw p \<noteq> 0)" and a: "asc (adj_key s) (m_AdjustedRatings s)" using O(2) by (simp_all add: adjusted_ok_def)
  have d: "distinct (m_AdjustedRatings s)" using m by (simp add: members_def)
  have e: "m_AdjustedRatings ?s = ?xs" unfolding Starve_spec(2) [OF d d] by (rule filter_cong) simp_all
  have inc: "m_Increment (m_Peers ?s x) = (if x \<in> set (m_AdjustedRatings s) \<and> \<not> m_Now (m_Peers s x) then Rating_Inc (m_Increment (m_Peers s x)) rInc
      else m_Increment (m_Peers s x))" for x by (rule Starve_spec(1) [OF d])
  have P: "peer_ok (m_Peers s x)" if "x \<in> set (m_Ratings s)" for x using O(6) that by (simp add: peers_ok_def)
  have "asc (adj_key ?s) ?xs"
  proof (rule asc_mono [OF asc_filter [OF a]])
    fix x y
    assume x: "x \<in> set ?xs" "y \<in> set ?xs" and le: "adj_key s x \<le> adj_key s y"
    have k: "adj_key ?s z = - int (min (unat (Adjusted (m_Peers s z)) + unat rInc) (unat Rating_Max))" if "z \<in> set ?xs" for z
    proof -
      have z: "peer_ok (m_Peers s z)" using P members_sub [OF m] that by simp
      have "Adjusted (m_Peers ?s z) = Adjusted ((m_Peers s z)\<lparr>m_Increment := Rating_Inc (m_Increment (m_Peers s z)) rInc\<rparr>)"
        using that by (simp add: Adjusted_def inc)
      then show ?thesis using Adjusted_Inc(2) [OF _ _ r, of "m_Peers s z"] z by (simp add: adj_key_def peer_ok_def uint_nat)
    qed
    have ge: "unat (Adjusted (m_Peers s y)) \<le> unat (Adjusted (m_Peers s x))" using le unfolding adj_key_def neg_le_iff_le word_le_nat_alt [symmetric] word_le_def .
    show "adj_key ?s x \<le> adj_key ?s y" unfolding k [OF x(1)] k [OF x(2)]
      by (intro le_imp_neg_le of_nat_mono min.mono add_right_mono order_refl ge)
  qed
  moreover have "set ?xs = {x \<in> set (m_Ratings s). m_Raw (m_Peers s x) \<noteq> 0} - set (m_Active s)"
    using m O(5) by (auto simp: members_def active_ok_def)
  moreover have "peers_ok ?s"
  proof -
    have "peer_ok (m_Peers ?s x)" if x: "x \<in> set (m_Ratings s)" for x
    proof -
      have "m_Raw (m_Peers s x) \<noteq> 0" if "x \<in> set (m_AdjustedRatings s)" using members_sub [OF m that] by simp
      then show ?thesis using P [OF x] by (cases "x \<in> set (m_AdjustedRatings s)") (simp_all add: peer_ok_def inc Rating_Inc_def)
    qed
    then show ?thesis unfolding peers_ok_def Starve_simps by blast
  qed
  moreover have "ratings_ok ?s" "ids_ok ?s" "addrs_ok ?s" "active_ok ?s"
    using ratings_frame [OF O(1), of ?s] ids_frame [OF O(3), of ?s] addrs_frame [OF O(4), of ?s] active_frame [OF O(5), of ?s] by (simp_all add: same_def)
  moreover have "distinct (m_Active s)" using O(5) by (simp add: active_ok_def members_def)
  ultimately show ?thesis using d by (simp add: sated_inv_def e)
qed

lemma Sated_ok: "sated_inv hs s \<Longrightarrow> pm_ok (Sated_loop rDec hs s)"
proof (induction hs arbitrary: s)
  case Nil
  then show ?case by (simp add: sated_inv_def pm_ok_split adjusted_ok_def members_def)
next
  case (Cons h hs)
  define t where "t = upd h (\<lambda>p. p\<lparr>m_Increment := (if m_Increment p > rDec then m_Increment p - rDec else 0)\<rparr>) s"
  let ?s = "t\<lparr>m_AdjustedRatings := ms_insert (adj_key t) h (m_AdjustedRatings t)\<rparr>"
  have I: "ratings_ok s" "ids_ok s" "addrs_ok s" "active_ok s" "peers_ok s" "distinct (h # hs)" "set (h # hs) \<subseteq> set (m_Active s)" "distinct (m_AdjustedRatings s)"
    "set (m_AdjustedRatings s) = {x \<in> set (m_Ratings s). m_Raw (m_Peers s x) \<noteq> 0} - set (h # hs)" "asc (adj_key s) (m_AdjustedRatings s)"
    using Cons.prems by (simp_all only: sated_inv_def)
  have h: "h \<in> set (m_Ratings s)" "m_Now (m_Peers s h)" using I(4,7) members_sub [of s "m_Active s" m_Now h] by (simp_all add: active_ok_def)
  then have raw: "m_Raw (m_Peers s h) \<noteq> 0" using I(5) by (auto simp: peers_ok_def peer_ok_def)
  have hn: "h \<notin> set (m_AdjustedRatings s)" using I(9) by simp
  have inc: "m_Increment (m_Peers t h) \<le> Rating_Max"
  proof -
    have le: "m_Increment (m_Peers s h) \<le> Rating_Max" using I(5) h(1) by (simp add: peers_ok_def peer_ok_def)
    have "m_Increment (m_Peers s h) - rDec \<le> m_Increment (m_Peers s h)" if "m_Increment (m_Peers s h) > rDec"
      by (rule word_sub_le [OF less_imp_le [OF that]])
    then show ?thesis using le by (auto simp: t_def intro: order.trans)
  qed
  have "peers_ok ?s" using I(5) inc raw by (auto simp: peers_ok_def peer_ok_def t_def)
  moreover have "asc (adj_key t) (ms_insert (adj_key t) h (m_AdjustedRatings s))"
    by (rule asc_put [where key = adj_key, OF hn I(10)]) (simp add: t_def adj_key_def)
  moreover have "ratings_ok ?s" "ids_ok ?s" "addrs_ok ?s" "active_ok ?s"
    using ratings_frame [OF I(1), of ?s] ids_frame [OF I(2), of ?s] addrs_frame [OF I(3), of ?s] active_frame [OF I(4), of ?s] by (simp_all add: same_def t_def)
  moreover have "insert h (set (m_AdjustedRatings s)) = {x \<in> set (m_Ratings ?s). m_Raw (m_Peers ?s x) \<noteq> 0} - set hs"
    using I(6,9) raw h(1) by (auto simp: t_def)
  ultimately have "sated_inv hs ?s" using I(6,7,8) hn by (simp add: sated_inv_def t_def)
  then show ?case using Cons.IH by (simp add: t_def Let_def)
qed

lemma UpdateRatings_ok:
  assumes "pm_ok s" and "unat (elapsed_s t_ms (m_TicksLast_ms s) * m_StarvationRatioInc c) + unat Rating_Max < 2 ^ 32"
  shows "pm_ok (UpdateRatingsInternal c t_ms s)"
  using Sated_ok [OF Starve_inv [OF assms]] by (simp add: UpdateRatingsInternal_def Let_def)

subsection \<open>The selection\<close>

definition too_early :: "Cfg \<Rightarrow> u32 \<Rightarrow> PeerInfo \<Rightarrow> bool" where
  "too_early c t p \<longleftrightarrow> t - m_LastActivity_ms p < m_TimeoutDisconnect_ms c"

definition eligible :: "Cfg \<Rightarrow> u32 \<Rightarrow> PeerInfo \<Rightarrow> bool" where
  "eligible c t p \<longleftrightarrow> m_Addr p \<noteq> 0 \<and> m_Raw p \<noteq> 0 \<and> (m_Now p \<or> \<not> t - m_LastActivity_ms p < m_TimeoutReconnect_ms c)"

lemma filter_one_more:
  assumes "distinct xs" and "h \<in> set xs" and "\<not> P h" and "\<And>x. P' x \<longleftrightarrow> x = h \<or> P x"
  shows "length (filter P' xs) = Suc (length (filter P xs))"
proof -
  have "length (filter P' xs) = card (set (filter P' xs))" by (rule distinct_card [symmetric, OF distinct_filter [OF assms(1)]])
  also have "set (filter P' xs) = insert h (set (filter P xs))" using assms(2,4) by auto
  also have "card \<dots> = Suc (card (set (filter P xs)))" using assms(3) by (intro card_insert_disjoint) auto
  also have "card (set (filter P xs)) = length (filter P xs)" by (rule distinct_card [OF distinct_filter [OF assms(1)]])
  finally show ?thesis .
qed

text \<open>
  What holds while peers are being selected: the counter is the number of selected active peers; relative
  to the state \<open>s0\<close> in which the selection began, only the activity marks have changed, and every peer that
  was switched on was eligible.
\<close>

definition chosen :: "PeerMan \<Rightarrow> nat \<Rightarrow> bool" where
  "chosen s h \<longleftrightarrow> m_Next (m_Peers s h)"

definition sel_peer :: "Cfg \<Rightarrow> u32 \<Rightarrow> PeerInfo \<Rightarrow> PeerInfo \<Rightarrow> bool" where
  "sel_peer c t p0 p \<longleftrightarrow> m_Raw p = m_Raw p0 \<and> m_Addr p = m_Addr p0 \<and> (m_Now p0 \<longrightarrow> m_Now p \<and> (m_Next p0 \<longrightarrow> m_Next p)) \<and>
     (m_Now p \<and> \<not> m_Now p0 \<longrightarrow> eligible c t p0 \<and> m_Next p) \<and> (\<not> m_Now p \<longrightarrow> m_LastActivity_ms p = m_LastActivity_ms p0)"

definition sel_inv :: "Cfg \<Rightarrow> u32 \<Rightarrow> PeerMan \<Rightarrow> nat \<times> PeerMan \<Rightarrow> bool" where
  "sel_inv c t s0 st \<longleftrightarrow> pm_ok (snd st) \<and> fst st = length (filter (chosen (snd st)) (m_Active (snd st))) \<and>
     m_Ratings (snd st) = m_Ratings s0 \<and> m_AdjustedRatings (snd st) = m_AdjustedRatings s0 \<and>
     (\<forall>x. sel_peer c t (m_Peers s0 x) (m_Peers (snd st) x))"

lemma Activate_cases:
  obtains (skip) "ActivatePeerInternal c clk t h (n, s) = (n, s)" "m_Now (m_Peers s h) \<and> m_Next (m_Peers s h) \<or> \<not> eligible c t (m_Peers s h)"
  | (keep) "m_Now (m_Peers s h)" "\<not> m_Next (m_Peers s h)" "eligible c t (m_Peers s h)"
      "ActivatePeerInternal c clk t h (n, s) = (n + 1, upd h (\<lambda>p. p\<lparr>m_Next := True\<rparr>) s)"
  | (start) "\<not> m_Now (m_Peers s h)" "eligible c t (m_Peers s h)"
      "ActivatePeerInternal c clk t h (n, s) = (n + 1, OnActive (clk h) h True (upd h (\<lambda>p. p\<lparr>m_Next := True\<rparr>) s))"
proof (cases "m_Now (m_Peers s h) \<and> m_Next (m_Peers s h) \<or> \<not> eligible c t (m_Peers s h)")
  case True
  then have "ActivatePeerInternal c clk t h (n, s) = (n, s)" by (auto simp: ActivatePeerInternal_def eligible_def Let_def)
  then show ?thesis using skip True by blast
next
  case False
  then show ?thesis using keep start by (cases "m_Now (m_Peers s h)") (auto simp: ActivatePeerInternal_def eligible_def Let_def)
qed

lemma upd_Next_ok: "pm_ok s \<Longrightarrow> pm_ok (upd h (\<lambda>p. p\<lparr>m_Next := b\<rparr>) s)"
  by (rule frames_trivial) (auto intro!: same_upd)

lemma Activate_inv:
  assumes I: "sel_inv c t s0 (n, s)" and h: "h \<in> set (m_Ratings s0)"
  shows "sel_inv c t s0 (ActivatePeerInternal c clk t h (n, s))"
    and "eligible c t (m_Peers s0 h) \<Longrightarrow> m_Now (m_Peers (snd (ActivatePeerInternal c clk t h (n, s))) h) \<and> m_Next (m_Peers (snd (ActivatePeerInternal c clk t h (n, s))) h)"
    and "m_Now (m_Peers s x) \<and> m_Next (m_Peers s x) \<Longrightarrow> m_Now (m_Peers (snd (ActivatePeerInternal c clk t h (n, s))) x) \<and> m_Next (m_Peers (snd (ActivatePeerInternal c clk t h (n, s))) x)"
    and "fst (ActivatePeerInternal c clk t h (n, s)) \<le> n + 1"
proof -
  let ?st = "ActivatePeerInternal c clk t h (n, s)"
  have ok: "pm_ok s" and n: "n = length (filter (chosen s) (m_Active s))" and R: "m_Ratings s = m_Ratings s0" using I by (simp_all add: sel_inv_def)
  have act: "members s (m_Active s) m_Now" using ok by (simp add: pm_ok_def)
  have D: "sel_peer c t (m_Peers s0 x) (m_Peers s x)" for x using I by (simp add: sel_inv_def)
  have el: "eligible c t (m_Peers s h)" if "eligible c t (m_Peers s0 h)" using that D [of h] by (auto simp: eligible_def sel_peer_def)
  have "sel_inv c t s0 ?st \<and> (eligible c t (m_Peers s0 h) \<longrightarrow> m_Now (m_Peers (snd ?st) h) \<and> m_Next (m_Peers (snd ?st) h)) \<and>
    (m_Now (m_Peers s x) \<and> m_Next (m_Peers s x) \<longrightarrow> m_Now (m_Peers (snd ?st) x) \<and> m_Next (m_Peers (snd ?st) x)) \<and> fst ?st \<le> n + 1"
  proof (cases rule: Activate_cases [of c clk t h n s, case_names skip keep start])
    case skip
    then show ?thesis using I el by auto
  next
    case keep
    let ?s = "upd h (\<lambda>p. p\<lparr>m_Next := True\<rparr>) s"
    have "h \<in> set (m_Active s)" "distinct (m_Active s)" using act keep(1) h R by (simp_all add: members_def)
    then have "length (filter (chosen ?s) (m_Active s)) = Suc n" unfolding n
      by (intro filter_one_more [where h = h]) (use keep(2) in \<open>simp_all add: chosen_def\<close>)
    moreover have "pm_ok ?s" by (rule upd_Next_ok [OF ok])
    moreover have "sel_peer c t (m_Peers s0 x) (m_Peers ?s x)" for x using D [of x] keep(1) by (cases "x = h") (auto simp: sel_peer_def)
    ultimately have "sel_inv c t s0 (n + 1, ?s)" using I by (simp add: sel_inv_def)
    then show ?thesis using keep by simp
  next
    case start
    let ?u = "upd h (\<lambda>p. p\<lparr>m_Next := True\<rparr>) s" and ?s = "OnActive (clk h) h True (upd h (\<lambda>p. p\<lparr>m_Next := True\<rparr>) s)"
    have hn: "h \<notin> set (m_Active s)" using act start(1) by (auto simp: members_def)
    have a: "m_Active ?s = m_Active s @ [h]" using start(1) by (simp add: OnActive_def Let_def)
    have "filter (chosen ?s) (m_Active s) = filter (chosen s) (m_Active s)" using hn by (intro filter_cong) (auto simp: chosen_def)
    then have "length (filter (chosen ?s) (m_Active ?s)) = n + 1" unfolding a n by (simp add: chosen_def)
    moreover have "pm_ok ?s" by (rule OnActive_ok [OF upd_Next_ok [OF ok]]) (use h R start(2) in \<open>simp_all add: eligible_def\<close>)
    moreover have "sel_peer c t (m_Peers s0 x) (m_Peers ?s x)" for x
      using D [of x] start(1,2) by (cases "x = h") (auto simp: sel_peer_def eligible_def)
    ultimately have "sel_inv c t s0 (n + 1, ?s)" using I by (simp add: sel_inv_def)
    then show ?thesis using start by auto
  qed
  then show "sel_inv c t s0 ?st" "eligible c t (m_Peers s0 h) \<Longrightarrow> m_Now (m_Peers (snd ?st) h) \<and> m_Next (m_Peers (snd ?st) h)"
    "m_Now (m_Peers s x) \<and> m_Next (m_Peers s x) \<Longrightarrow> m_Now (m_Peers (snd ?st) x) \<and> m_Next (m_Peers (snd ?st) x)" "fst ?st \<le> n + 1" by blast+
qed

lemma Early_spec:
  assumes "pm_ok s" and "distinct hs"
  shows "pm_ok (snd (Early_loop c t hs n s)) \<and>
    fst (Early_loop c t hs n s) = n + length (filter (\<lambda>h. too_early c t (m_Peers s h)) hs) \<and>
    (\<forall>x. m_Peers (snd (Early_loop c t hs n s)) x = (if x \<in> set hs then (m_Peers s x)\<lparr>m_Next := too_early c t (m_Peers s x)\<rparr> else m_Peers s x)) \<and>
    m_Ratings (snd (Early_loop c t hs n s)) = m_Ratings s \<and> m_AdjustedRatings (snd (Early_loop c t hs n s)) = m_AdjustedRatings s \<and>
    m_Active (snd (Early_loop c t hs n s)) = m_Active s"
  using assms
proof (induction hs arbitrary: n s)
  case (Cons h hs)
  let ?s = "upd h (\<lambda>p. p\<lparr>m_Next := too_early c t (m_Peers s h)\<rparr>) s"
  have ok: "pm_ok ?s" by (rule upd_Next_ok [OF Cons.prems(1)])
  have d: "distinct hs" "h \<notin> set hs" using Cons.prems(2) by simp_all
  have e: "Early_loop c t (h # hs) n s = Early_loop c t hs (if too_early c t (m_Peers s h) then n + 1 else n) ?s"
    by (simp add: Let_def too_early_def)
  have f: "filter (\<lambda>x. too_early c t (m_Peers ?s x)) hs = filter (\<lambda>x. too_early c t (m_Peers s x)) hs"
    using d(2) by (intro filter_cong) auto
  note IH = Cons.IH [OF ok d(1), of "if too_early c t (m_Peers s h) then n + 1 else n", folded e, unfolded f]
  show ?case using IH d(2) by auto
qed auto

lemma Highest_inv:
  assumes "sel_inv c t s0 st" and "set hs \<subseteq> set (m_Ratings s0)"
  shows "sel_inv c t s0 (Highest_loop c clk t hs k st) \<and> fst (Highest_loop c clk t hs k st) \<le> max (fst st) (unat (m_DesiredTotal c))"
  using assms
proof (induction hs arbitrary: k st)
  case (Cons h hs)
  obtain n s where st: "st = (n, s)" by (cases st)
  have h: "h \<in> set (m_Ratings s0)" "set hs \<subseteq> set (m_Ratings s0)" using Cons.prems(2) by simp_all
  note A = Activate_inv(1,4) [OF Cons.prems(1) [unfolded st] h(1), of clk]
  show ?case using Cons.IH [OF A(1) h(2), of "k + 1"] A(2) Cons.prems(1) by (simp add: st max_def split: if_splits)
qed simp

definition picked :: "PeerMan \<Rightarrow> nat \<Rightarrow> bool" where
  "picked s x \<longleftrightarrow> m_Now (m_Peers s x) \<and> m_Next (m_Peers s x)"

lemma Adjusted_inv:
  assumes "sel_inv c t s0 st" and "set hs \<subseteq> set (m_Ratings s0)"
  shows "sel_inv c t s0 (Adjusted_loop c clk t hs st) \<and> fst (Adjusted_loop c clk t hs st) \<le> max (fst st) (unat (m_DesiredTotal c)) \<and>
    (\<forall>x. picked (snd st) x \<longrightarrow> picked (snd (Adjusted_loop c clk t hs st)) x) \<and>
    (fst (Adjusted_loop c clk t hs st) < unat (m_DesiredTotal c) \<longrightarrow>
      (\<forall>x \<in> set hs. eligible c t (m_Peers s0 x) \<longrightarrow> picked (snd (Adjusted_loop c clk t hs st)) x))"
  using assms
proof (induction hs arbitrary: st)
  case (Cons h hs)
  obtain n s where st: "st = (n, s)" by (cases st)
  have h: "h \<in> set (m_Ratings s0)" "set hs \<subseteq> set (m_Ratings s0)" using Cons.prems(2) by simp_all
  let ?a = "ActivatePeerInternal c clk t h (n, s)"
  note A = Activate_inv [where clk = clk, OF Cons.prems(1) [unfolded st] h(1), folded picked_def]
  show ?case
  proof (cases "n < unat (m_DesiredTotal c)")
    case True
    then have e: "Adjusted_loop c clk t (h # hs) st = Adjusted_loop c clk t hs ?a" by (simp add: st)
    note IH = Cons.IH [OF A(1) h(2)]
    have "fst (Adjusted_loop c clk t hs ?a) \<le> max n (unat (m_DesiredTotal c))" using IH A(4) True by simp
    moreover have "picked (snd (Adjusted_loop c clk t hs ?a)) x" if "picked s x" for x using IH A(3) [of x] that by blast
    ultimately show ?thesis unfolding e using IH A(2) by (simp add: st)
  next
    case False
    then show ?thesis using Cons.prems(1) by (simp add: st)
  qed
qed simp

lemma Excess_spec:
  assumes "pm_ok s" and "set hs \<subseteq> set (m_Ratings s)" and "distinct hs"
  shows "pm_ok (Excess_loop clk hs s) \<and> m_Ratings (Excess_loop clk hs s) = m_Ratings s \<and>
    m_Active (Excess_loop clk hs s) = filter (\<lambda>x. \<not> (x \<in> set hs \<and> \<not> m_Next (m_Peers s x))) (m_Active s) \<and>
    (\<forall>x. m_Raw (m_Peers (Excess_loop clk hs s) x) = m_Raw (m_Peers s x) \<and> m_Addr (m_Peers (Excess_loop clk hs s) x) = m_Addr (m_Peers s x))"
  using assms
proof (induction hs arbitrary: s)
  case (Cons h hs)
  let ?s = "if \<not> m_Next (m_Peers s h) then OnActive (clk h) h False s else s"
  have h: "h \<in> set (m_Ratings s)" "set hs \<subseteq> set (m_Ratings s)" "h \<notin> set hs" "distinct hs" using Cons.prems by simp_all
  have ok: "pm_ok ?s" using OnActive_ok [OF Cons.prems(1) h(1), of False] Cons.prems(1) by simp
  have S: "set hs \<subseteq> set (m_Ratings ?s)" using h(2) by simp
  have d: "members s (m_Active s) m_Now" using Cons.prems(1) by (simp add: pm_ok_def)
  have a: "m_Active ?s = filter (\<lambda>x. \<not> (x = h \<and> \<not> m_Next (m_Peers s x))) (m_Active s)"
  proof (cases "m_Next (m_Peers s h)")
    case True
    then have "filter (\<lambda>x. \<not> (x = h \<and> \<not> m_Next (m_Peers s x))) (m_Active s) = m_Active s" by (intro filter_True) auto
    then show ?thesis using True by simp
  next
    case False
    then have e: "filter (\<lambda>x. \<not> (x = h \<and> \<not> m_Next (m_Peers s x))) (m_Active s) = filter (\<lambda>x. x \<noteq> h) (m_Active s)" by (intro filter_cong) auto
    have r: "remove1 h (m_Active s) = filter (\<lambda>x. x \<noteq> h) (m_Active s)"
      using d by (simp add: members_def distinct_remove1_removeAll removeAll_filter_not_eq) (metis)
    show ?thesis
    proof (cases "m_Now (m_Peers s h)")
      case True
      then show ?thesis using False e r by (simp add: OnActive_def Let_def)
    next
      case now: False
      then have "h \<notin> set (m_Active s)" using d by (simp add: members_def)
      then have "filter (\<lambda>x. x \<noteq> h) (m_Active s) = m_Active s" by (intro filter_True) auto
      then show ?thesis using now False e by (simp add: OnActive_def)
    qed
  qed
  note IH = Cons.IH [OF ok S h(4)]
  have n: "m_Next (m_Peers ?s x) = m_Next (m_Peers s x)" "m_Raw (m_Peers ?s x) = m_Raw (m_Peers s x)" "m_Addr (m_Peers ?s x) = m_Addr (m_Peers s x)" for x by simp_all
  have "filter (\<lambda>x. \<not> (x \<in> set hs \<and> \<not> m_Next (m_Peers ?s x))) (m_Active ?s) = filter (\<lambda>x. \<not> (x \<in> set (h # hs) \<and> \<not> m_Next (m_Peers s x))) (m_Active s)"
    unfolding a n filter_filter by (intro filter_cong) auto
  then show ?case using IH n by simp
qed simp

lemma Sated_simps [simp]:
  "m_Ratings (Sated_loop rDec hs s) = m_Ratings s" "m_Active (Sated_loop rDec hs s) = m_Active s" "m_Raw (m_Peers (Sated_loop rDec hs s) x) = m_Raw (m_Peers s x)"
  "m_Addr (m_Peers (Sated_loop rDec hs s) x) = m_Addr (m_Peers s x)" "m_Now (m_Peers (Sated_loop rDec hs s) x) = m_Now (m_Peers s x)"
  "m_LastActivity_ms (m_Peers (Sated_loop rDec hs s) x) = m_LastActivity_ms (m_Peers s x)"
  by (induction hs arbitrary: s) (auto simp: Let_def)

text \<open>The first part of \<open>Update\<close>: the ratings, the time stamp and the peers that must not be dropped yet.\<close>

definition upd_start :: "Cfg \<Rightarrow> u32 \<Rightarrow> PeerMan \<Rightarrow> nat \<times> PeerMan" where
  "upd_start c t s = (let s1 = (if m_TicksLast_ms s \<noteq> 0 then UpdateRatingsInternal c t s else s)\<lparr>m_TicksLast_ms := t\<rparr> in Early_loop c t (m_Active s1) 0 s1)"

definition no_overflow :: "Cfg \<Rightarrow> u32 \<Rightarrow> PeerMan \<Rightarrow> bool" where
  "no_overflow c t s \<longleftrightarrow> unat (elapsed_s t (m_TicksLast_ms s) * m_StarvationRatioInc c) + unat Rating_Max < 2 ^ 32"

lemma upd_start_spec:
  assumes ok: "pm_ok s" and o: "no_overflow c t s"
  shows "sel_inv c t (snd (upd_start c t s)) (upd_start c t s)"
    and "fst (upd_start c t s) = length (filter (\<lambda>h. too_early c t (m_Peers s h)) (m_Active s))"
    and "m_Ratings (snd (upd_start c t s)) = m_Ratings s" "m_Active (snd (upd_start c t s)) = m_Active s"
    and "eligible c t (m_Peers (snd (upd_start c t s)) x) = eligible c t (m_Peers s x)"
    and "x \<in> set (m_Active s) \<Longrightarrow> m_Next (m_Peers (snd (upd_start c t s)) x) = too_early c t (m_Peers s x)"
    and "m_Now (m_Peers (snd (upd_start c t s)) x) = m_Now (m_Peers s x)"
proof -
  define s1 where "s1 = (if m_TicksLast_ms s \<noteq> 0 then UpdateRatingsInternal c t s else s)\<lparr>m_TicksLast_ms := t\<rparr>"
  have "pm_ok (if m_TicksLast_ms s \<noteq> 0 then UpdateRatingsInternal c t s else s)" using UpdateRatings_ok [OF ok] o ok by (simp add: no_overflow_def)
  then have ok1: "pm_ok s1" unfolding s1_def by (rule frames_trivial) (simp_all add: same_def)
  have f: "m_Ratings s1 = m_Ratings s" "m_Active s1 = m_Active s" "m_Raw (m_Peers s1 x) = m_Raw (m_Peers s x)" "m_Addr (m_Peers s1 x) = m_Addr (m_Peers s x)"
    "m_Now (m_Peers s1 x) = m_Now (m_Peers s x)" "m_LastActivity_ms (m_Peers s1 x) = m_LastActivity_ms (m_Peers s x)" for x
    by (simp_all add: s1_def UpdateRatingsInternal_def Let_def)
  have e1: "too_early c t (m_Peers s1 x) = too_early c t (m_Peers s x)" "eligible c t (m_Peers s1 x) = eligible c t (m_Peers s x)" for x
    by (simp_all add: too_early_def eligible_def f)
  have d: "distinct (m_Active s)" using ok by (simp add: pm_ok_def members_def)
  have u: "upd_start c t s = Early_loop c t (m_Active s) 0 s1" by (simp add: upd_start_def s1_def [symmetric] Let_def f)
  note E = Early_spec [OF ok1 d, of c t 0, folded u]
  have pe: "m_Peers (snd (upd_start c t s)) x = (if x \<in> set (m_Active s) then (m_Peers s1 x)\<lparr>m_Next := too_early c t (m_Peers s x)\<rparr> else m_Peers s1 x)" for x
    using E e1 by simp
  show n: "fst (upd_start c t s) = length (filter (\<lambda>h. too_early c t (m_Peers s h)) (m_Active s))" using E e1 by simp
  show R: "m_Ratings (snd (upd_start c t s)) = m_Ratings s" "m_Active (snd (upd_start c t s)) = m_Active s" using E f by simp_all
  show "eligible c t (m_Peers (snd (upd_start c t s)) x) = eligible c t (m_Peers s x)" by (simp add: pe eligible_def f)
  show "m_Next (m_Peers (snd (upd_start c t s)) x) = too_early c t (m_Peers s x)" if "x \<in> set (m_Active s)" using that by (simp add: pe)
  show "m_Now (m_Peers (snd (upd_start c t s)) x) = m_Now (m_Peers s x)" by (simp add: pe f)
  have "filter (chosen (snd (upd_start c t s))) (m_Active s) = filter (\<lambda>h. too_early c t (m_Peers s h)) (m_Active s)"
    by (intro filter_cong) (simp_all add: chosen_def pe)
  then show "sel_inv c t (snd (upd_start c t s)) (upd_start c t s)" using E n R by (simp add: sel_inv_def sel_peer_def)
qed

lemma Update_eq:
  "PM_Update c clk t s =
    (let st = upd_start c t s; st = Highest_loop c clk t (m_Ratings (snd st)) 0 st; st = Adjusted_loop c clk t (m_AdjustedRatings (snd st)) st
     in Excess_loop clk (m_Active (snd st)) (snd st))"
  by (simp add: PM_Update_def upd_start_def Let_def)

lemma Update_spec:
  assumes ok: "pm_ok s" and o: "no_overflow c t s"
  shows "pm_ok (PM_Update c clk t s)" "m_Ratings (PM_Update c clk t s) = m_Ratings s"
    and "length (m_Active (PM_Update c clk t s)) \<le> max (length (filter (\<lambda>h. too_early c t (m_Peers s h)) (m_Active s))) (unat (m_DesiredTotal c))"
    and "x \<in> set (m_Active (PM_Update c clk t s)) \<Longrightarrow> x \<in> set (m_Active s) \<or> x \<in> set (m_Ratings s) \<and> eligible c t (m_Peers s x)"
    and "x \<in> set (m_Active s) \<Longrightarrow> too_early c t (m_Peers s x) \<Longrightarrow> x \<in> set (m_Active (PM_Update c clk t s))"
    and "length (m_Active (PM_Update c clk t s)) < unat (m_DesiredTotal c) \<Longrightarrow> x \<in> set (m_Ratings s) \<Longrightarrow> eligible c t (m_Peers s x) \<Longrightarrow>
      x \<in> set (m_Active (PM_Update c clk t s))"
proof -
  define s0 where "s0 = snd (upd_start c t s)"
  define st1 where "st1 = Highest_loop c clk t (m_Ratings s0) 0 (upd_start c t s)"
  define st2 where "st2 = Adjusted_loop c clk t (m_AdjustedRatings (snd st1)) st1"
  let ?s = "PM_Update c clk t s"
  note U = upd_start_spec [OF ok o, folded s0_def]
  have 1: "sel_inv c t s0 st1" "fst st1 \<le> max (fst (upd_start c t s)) (unat (m_DesiredTotal c))"
    using Highest_inv [OF U(1) order_refl, of clk 0] by (simp_all add: st1_def)
  have ok1: "pm_ok (snd st1)" "m_AdjustedRatings (snd st1) = m_AdjustedRatings s0" "m_Ratings (snd st1) = m_Ratings s0" using 1(1) by (simp_all add: sel_inv_def)
  have ok0: "pm_ok s0" using U(1) by (simp add: sel_inv_def s0_def)
  have adj: "set (m_AdjustedRatings (snd st1)) = {x \<in> set (m_Ratings s0). m_Raw (m_Peers s0 x) \<noteq> 0}" using ok0 ok1(2) by (simp add: pm_ok_def members_def)
  have 2: "sel_inv c t s0 st2 \<and> fst st2 \<le> max (fst st1) (unat (m_DesiredTotal c)) \<and>
    (fst st2 < unat (m_DesiredTotal c) \<longrightarrow> (\<forall>x \<in> set (m_AdjustedRatings (snd st1)). eligible c t (m_Peers s0 x) \<longrightarrow> picked (snd st2) x))"
    using Adjusted_inv [OF 1(1), of "m_AdjustedRatings (snd st1)" clk] adj by (auto simp: st2_def)
  have I: "pm_ok (snd st2)" "fst st2 = length (filter (chosen (snd st2)) (m_Active (snd st2)))" "m_Ratings (snd st2) = m_Ratings s0"
    "\<And>x. sel_peer c t (m_Peers s0 x) (m_Peers (snd st2) x)" using 2 by (simp_all add: sel_inv_def)
  have a2: "members (snd st2) (m_Active (snd st2)) m_Now" using I(1) by (simp add: pm_ok_def)
  have a0: "members s (m_Active s) m_Now" using ok by (simp add: pm_ok_def)
  have sub: "set (m_Active (snd st2)) \<subseteq> set (m_Ratings (snd st2))" "distinct (m_Active (snd st2))" using a2 by (auto simp: members_def)
  have e: "?s = Excess_loop clk (m_Active (snd st2)) (snd st2)" by (simp add: Update_eq Let_def s0_def st1_def st2_def)
  note X = Excess_spec [OF I(1) sub, of clk, folded e]
  show "pm_ok ?s" "m_Ratings ?s = m_Ratings s" using X I(3) U(3) by simp_all
  have A: "m_Active ?s = filter (chosen (snd st2)) (m_Active (snd st2))"
  proof -
    have "m_Active ?s = filter (\<lambda>x. \<not> (x \<in> set (m_Active (snd st2)) \<and> \<not> m_Next (m_Peers (snd st2) x))) (m_Active (snd st2))" using X by blast
    also have "\<dots> = filter (chosen (snd st2)) (m_Active (snd st2))" by (intro filter_cong) (auto simp: chosen_def)
    finally show ?thesis .
  qed
  have n: "length (m_Active ?s) = fst st2" unfolding A I(2) ..
  show "length (m_Active ?s) \<le> max (length (filter (\<lambda>h. too_early c t (m_Peers s h)) (m_Active s))) (unat (m_DesiredTotal c))"
    unfolding n using 2 1(2) U(2) by linarith
  show "x \<in> set (m_Active s) \<or> x \<in> set (m_Ratings s) \<and> eligible c t (m_Peers s x)" if x: "x \<in> set (m_Active ?s)"
  proof -
    have "m_Now (m_Peers (snd st2) x)" "x \<in> set (m_Ratings s)" using x A members_sub [OF a2] I(3) U(3) by auto
    then show ?thesis using I(4) [of x] U(5,7) a0 by (auto simp: sel_peer_def members_def)
  qed
  show "x \<in> set (m_Active ?s)" if "x \<in> set (m_Active s)" "too_early c t (m_Peers s x)"
  proof -
    have "m_Now (m_Peers s x)" "x \<in> set (m_Ratings s)" using members_sub [OF a0 that(1)] by simp_all
    then have "m_Now (m_Peers (snd st2) x)" "m_Next (m_Peers (snd st2) x)" using I(4) [of x] U(6) [OF that(1)] U(7) that(2) by (auto simp: sel_peer_def)
    then show ?thesis using A a2 I(3) U(3) \<open>x \<in> set (m_Ratings s)\<close> by (simp add: members_def chosen_def)
  qed
  show "x \<in> set (m_Active ?s)" if l: "length (m_Active ?s) < unat (m_DesiredTotal c)" and x: "x \<in> set (m_Ratings s)" "eligible c t (m_Peers s x)"
  proof -
    have el: "eligible c t (m_Peers s0 x)" using U(5) x(2) by simp
    then have "x \<in> set (m_AdjustedRatings (snd st1))" using adj x(1) U(3) by (simp add: eligible_def)
    then have "picked (snd st2) x" using 2 l n el by simp
    then show ?thesis using A a2 I(3) U(3) x(1) by (simp add: members_def chosen_def picked_def)
  qed
qed

subsection \<open>Runs of the peer manager\<close>

definition empty_pm :: "PeerInfo \<Rightarrow> PeerMan" where
  "empty_pm p = \<lparr>m_Peers = (\<lambda>h. p), m_IDs = [], m_Ratings = [], m_AdjustedRatings = [], m_Addrs = [], m_Active = [], m_TicksLast_ms = 0\<rparr>"

text \<open>
  The states the node brings the manager into.  As the node does, peers are banned only while they are not
  active, and banned peers are not activated.  A reward may not overflow.
\<close>

inductive pm_reach :: "Cfg \<Rightarrow> PeerMan \<Rightarrow> bool" for c where
  init: "pm_reach c (empty_pm p)"
| found: "pm_reach c s'" if "pm_reach c s" and "h \<notin> set (m_Ratings s)" and "m_Addr p = 0" and "PM_Find k bCreate h p s = (r, b, s')"
| onpeer: "pm_reach c s'" if "pm_reach c s" and "h \<notin> set (m_Ratings s)" and "m_Addr p = 0" and "OnPeer c ts k a v h p s = (r, s')"
| seen: "pm_reach c (OnSeen ts h s)" if "pm_reach c s" and "h \<in> set (m_Ratings s)"
| rated: "pm_reach c (ModifyRating h delta bAdd s)" if "pm_reach c s" and "h \<in> set (m_Ratings s)"
    and "bAdd \<longrightarrow> unat delta + unat Rating_Max < 2 ^ 32 \<and> 0 < delta"
| banned: "pm_reach c (Ban h s)" if "pm_reach c s" and "h \<in> set (m_Ratings s)" and "\<not> m_Now (m_Peers s h)"
| error: "pm_reach c (OnRemoteError c now h bShouldBan s)" if "pm_reach c s" and "h \<in> set (m_Ratings s)" and "\<not> m_Now (m_Peers s h)"
| activated: "pm_reach c (OnActive now h True s)" if "pm_reach c s" and "h \<in> set (m_Ratings s)" and "m_Raw (m_Peers s h) \<noteq> 0"
| deactivated: "pm_reach c (OnActive now h False s)" if "pm_reach c s" and "h \<in> set (m_Ratings s)"
| moved: "pm_reach c (ModifyAddr h a s)" if "pm_reach c s" and "h \<in> set (m_Ratings s)"
| unreachable: "pm_reach c (RemoveAddr h s)" if "pm_reach c s" and "h \<in> set (m_Ratings s)"
| deleted: "pm_reach c (PM_Delete now h s)" if "pm_reach c s" and "h \<in> set (m_Ratings s)"
| updated: "pm_reach c (PM_Update c clk t s)" if "pm_reach c s" and "no_overflow c t s"

lemma empty_ok: "pm_ok (empty_pm p)"
  by (simp add: pm_ok_def empty_pm_def members_def asc_def)

lemma reach_ok: "pm_reach c s \<Longrightarrow> pm_ok s"
proof (induction rule: pm_reach.induct)
  case (rated s h delta bAdd)
  then show ?case unfolding ModifyRating_def by (intro Modify_ok) simp_all
next
  case (banned s h)
  then show ?case unfolding Ban_def by (intro Modify_ok) simp_all
next
  case (error s h now b)
  have "pm_ok (Ban h s)" unfolding Ban_def using error by (intro Modify_ok) simp_all
  moreover have "pm_ok (ModifyRating h Rating_PenaltyNetworkErr False s)" unfolding ModifyRating_def using error by (intro Modify_ok) simp_all
  ultimately show ?case using error(4) by (simp add: OnRemoteError_def Let_def)
next
  case (activated s h now)
  then show ?case by (intro OnActive_ok) simp_all
next
  case (deactivated s h now)
  then show ?case by (intro OnActive_ok) simp_all
next
  case (found s h p k bCreate r b s')
  then show ?case by (intro Find_ok(1) [OF found(5) found(2,3,4)])
next
  case (onpeer s h p ts k a v r s')
  then show ?case by (intro OnPeer_ok [OF onpeer(5) onpeer(2,3,4)])
qed (auto intro: empty_ok OnSeen_ok ModifyAddr_ok(1) RemoveAddr_ok Delete_ok Update_spec(1))

text \<open>With the default configuration no reward for starvation can overflow.\<close>

lemma default_no_overflow: "no_overflow default_cfg t s"
proof -
  have d: "unat ((t - m_TicksLast_ms s) div 1000) \<le> 4294967"
  proof -
    have "unat ((t - m_TicksLast_ms s) div 1000) = unat (t - m_TicksLast_ms s) div 1000" by (simp add: unat_div_distrib)
    then show ?thesis using unsigned_less [of "t - m_TicksLast_ms s", where 'a = nat] by simp
  qed
  have "unat ((t - m_TicksLast_ms s) div 1000 + 1) \<le> unat ((t - m_TicksLast_ms s) div 1000) + 1" by (simp add: unat_word_ariths)
  then have "unat (elapsed_s t (m_TicksLast_ms s)) \<le> 4294968" unfolding elapsed_s_def Let_def using d by (simp del: unat_add_lem)
  then show ?thesis by (simp add: no_overflow_def default_cfg_def Max_u32)
qed

text \<open>
  C24: the containers of the peer manager stay consistent.  In every state the node reaches, each container
  holds exactly the peers it is meant for, each once, and the four sorted ones (ratings, adjusted ratings,
  identifiers, addresses) are in the order of their keys, also after the adjusted ratings of the
  inactive peers were changed in place; ratings and increments never exceed the saturation value, banned
  peers have no adjusted rating and no increment, and no two peers share an address or an identifier.
\<close>

theorem Peers_consistent:
  assumes "pm_reach c s"
  shows "sorted (map (raw_key s) (m_Ratings s)) \<and> sorted (map (adj_key s) (m_AdjustedRatings s)) \<and>
    sorted (map (id_key s) (m_IDs s)) \<and> sorted (map (addr_key s) (m_Addrs s)) \<and>
    distinct (m_Ratings s) \<and> distinct (m_AdjustedRatings s) \<and> distinct (m_IDs s) \<and> distinct (m_Addrs s) \<and> distinct (m_Active s) \<and>
    set (m_AdjustedRatings s) = {h \<in> set (m_Ratings s). m_Raw (m_Peers s h) \<noteq> 0} \<and>
    set (m_IDs s) = {h \<in> set (m_Ratings s). m_Key (m_Peers s h) \<noteq> zero_id} \<and> inj_on (\<lambda>h. m_Key (m_Peers s h)) (set (m_IDs s)) \<and>
    set (m_Addrs s) = {h \<in> set (m_Ratings s). m_Addr (m_Peers s h) \<noteq> 0} \<and> inj_on (\<lambda>h. m_Addr (m_Peers s h)) (set (m_Addrs s)) \<and>
    set (m_Active s) = {h \<in> set (m_Ratings s). m_Now (m_Peers s h)} \<and>
    (\<forall>h \<in> set (m_Ratings s). m_Raw (m_Peers s h) \<le> Rating_Max \<and> m_Increment (m_Peers s h) \<le> Rating_Max \<and>
       (m_Raw (m_Peers s h) = 0 \<longrightarrow> m_Increment (m_Peers s h) = 0))"
proof -
  have "pm_ok s" by (rule reach_ok [OF assms])
  moreover from this have "\<forall>h \<in> set (m_Ratings s). m_Raw (m_Peers s h) \<le> Rating_Max \<and> m_Increment (m_Peers s h) \<le> Rating_Max \<and>
       (m_Raw (m_Peers s h) = 0 \<longrightarrow> m_Increment (m_Peers s h) = 0)" by (simp add: pm_ok_def peer_ok_def)
  ultimately show ?thesis unfolding pm_ok_def members_def asc_def by (elim conjE) (intro conjI, assumption+)
qed

definition peer_ex :: PeerInfo where
  "peer_ex = \<lparr>m_Key = zero_id, m_Raw = 0, m_Increment = 0, m_Now = False, m_Next = False, m_Addr = 0, m_LastSeen = 0, m_LastActivity_ms = 0\<rparr>"

definition pm_ex :: PeerMan where
  "pm_ex = snd (OnPeer default_cfg 100 (replicate 32 7) 99 True 0 peer_ex (empty_pm peer_ex))"

lemma pm_ex_reach: "pm_reach default_cfg pm_ex"
  unfolding pm_ex_def
proof (rule pm_reach.onpeer [OF pm_reach.init [of _ peer_ex]])
  show "OnPeer default_cfg 100 (replicate 32 7) 99 True 0 peer_ex (empty_pm peer_ex) =
    (fst (OnPeer default_cfg 100 (replicate 32 7) 99 True 0 peer_ex (empty_pm peer_ex)), snd (OnPeer default_cfg 100 (replicate 32 7) 99 True 0 peer_ex (empty_pm peer_ex)))"
    by simp
qed (simp_all add: empty_pm_def peer_ex_def)

theorem Peers_consistent_witness:
  "pm_reach default_cfg pm_ex \<and> m_Ratings pm_ex = [0] \<and> set (m_Addrs pm_ex) = {h \<in> set (m_Ratings pm_ex). m_Addr (m_Peers pm_ex h) \<noteq> 0}"
proof -
  have "m_Ratings pm_ex = [0]" by code_simp
  then show ?thesis using Peers_consistent [OF pm_ex_reach] pm_ex_reach by blast
qed

text \<open>
  C25: what \<open>Update\<close> guarantees.  Afterwards at most the desired number of peers is active, or as many as were
  connected too recently to be dropped, all of which stay; every peer that was switched on has an address, is
  not banned and has waited for the reconnection timeout; and if fewer than the desired number are active,
  then every such peer is.
\<close>

theorem Update_selects:
  assumes "pm_reach c s" and "no_overflow c t s"
  shows "length (m_Active (PM_Update c clk t s)) \<le> max (length (filter (\<lambda>h. too_early c t (m_Peers s h)) (m_Active s))) (unat (m_DesiredTotal c)) \<and>
    (\<forall>h \<in> set (m_Active (PM_Update c clk t s)) - set (m_Active s). h \<in> set (m_Ratings s) \<and> eligible c t (m_Peers s h)) \<and>
    (\<forall>h \<in> set (m_Active s). too_early c t (m_Peers s h) \<longrightarrow> h \<in> set (m_Active (PM_Update c clk t s))) \<and>
    (length (m_Active (PM_Update c clk t s)) < unat (m_DesiredTotal c) \<longrightarrow>
       (\<forall>h \<in> set (m_Ratings s). eligible c t (m_Peers s h) \<longrightarrow> h \<in> set (m_Active (PM_Update c clk t s))))"
proof -
  note U = Update_spec [where clk = clk, OF reach_ok [OF assms(1)] assms(2)]
  show ?thesis using U(3) U(4) U(5) U(6) by blast
qed

theorem Update_selects_witness:
  "no_overflow default_cfg 5000 pm_ex \<and> length (m_Active (PM_Update default_cfg (\<lambda>h. 5000) 5000 pm_ex)) \<le> 10 \<and>
    m_Active (PM_Update default_cfg (\<lambda>h. 5000) 5000 pm_ex) = [0]"
proof -
  have a: "m_Active pm_ex = []" "m_Active (PM_Update default_cfg (\<lambda>h. 5000) 5000 pm_ex) = [0]" by (code_simp, code_simp)
  show ?thesis using Update_selects [OF pm_ex_reach default_no_overflow, of "\<lambda>h. 5000" 5000] a default_no_overflow by (simp add: default_cfg_def)
qed

end
