(* ===== verification/ConsensusRules.thy ===== *)
theory ConsensusRules
  imports Grimm_Prelude
begin

section \<open>Height ranges and the emission schedule (core/block_crypt.cpp)\<close>

text \<open>
  \<open>HeightRange\<close> and the parts of \<open>Rules\<close> that are pure computations: the emission of a block, the emission
  of a range of blocks, the fork table.  Heights and amounts are 64-bit words; the total of a range is a number
  modulo \<open>2 ^ 128\<close>, the width of \<open>AmountBig::Type\<close>.  The loop over the emission is a partial function; that it
  ends is part of the theorem.
\<close>

unbundle bit_operations_syntax

subsection \<open>Height ranges\<close>

record HeightRange =
  m_Min :: u64
  m_Max :: u64

definition MaxHeight :: u64 where
  "MaxHeight = - 1"

definition HR_Reset :: HeightRange where
  "HR_Reset = \<lparr>m_Min = 0, m_Max = MaxHeight\<rparr>"

definition Intersect :: "HeightRange \<Rightarrow> HeightRange \<Rightarrow> HeightRange" where
  "Intersect r x = \<lparr>m_Min = max (m_Min r) (m_Min x), m_Max = min (m_Max r) (m_Max x)\<rparr>"

definition HR_IsEmpty :: "HeightRange \<Rightarrow> bool" where
  "HR_IsEmpty r \<longleftrightarrow> m_Min r > m_Max r"

definition IsInRangeRelative :: "HeightRange \<Rightarrow> u64 \<Rightarrow> bool" where
  "IsInRangeRelative r dh \<longleftrightarrow> dh \<le> m_Max r - m_Min r"

definition IsInRange :: "HeightRange \<Rightarrow> u64 \<Rightarrow> bool" where
  "IsInRange r h \<longleftrightarrow> IsInRangeRelative r (h - m_Min r)"

subsection \<open>Consensus rules\<close>

record HeightHash =
  hh_Hash :: bytes
  hh_Height :: u64

record Rules =
  Premine :: u64
  Frew :: u64
  Fundgen :: u64
  Fundinvest :: u64
  Value0 :: u64
  Drop2 :: u64
  Maturity_Coinbase :: u64
  pForks :: "HeightHash list"

definition Coin :: u64 where
  "Coin = 100000000"

definition default_rules :: Rules where
  "default_rules = \<lparr>Premine = Coin * 100, Frew = Coin * 13140000, Fundgen = Coin * 39420000, Fundinvest = Coin * 34164000, Value0 = Coin * 100,
     Drop2 = 1440 * 2 * 365 * 4, Maturity_Coinbase = 90,
     pForks = [\<lparr>hh_Hash = replicate 32 0, hh_Height = 0\<rparr>, \<lparr>hh_Hash = replicate 32 0, hh_Height = 444400\<rparr>, \<lparr>hh_Hash = replicate 32 0, hh_Height = MaxHeight\<rparr>]\<rparr>"

definition Fork1 :: "Rules \<Rightarrow> u64" where
  "Fork1 r = hh_Height (pForks r ! 1)"

text \<open>The emission of a block and the height where it ends; \<open>HeightGenesis\<close> is 1.\<close>

definition get_EmissionEx :: "Rules \<Rightarrow> u64 \<Rightarrow> u64 \<Rightarrow> u64 \<times> u64" where
  "get_EmissionEx r h0 base =
     (let h = h0 - 1; F = Fork1 r
      in if h = 0 then (Premine r, 1 + 1)
         else if h < F - 1 then (base, F)
         else if h \<ge> F - 1 \<and> h < F + 62 then (base div 5, F + 63)
         else if h = F + 62 then (Frew r + Fundgen r + Fundinvest r, 64 + F)
         else
           let n = 1 + (h - (F + 63)) div Drop2 r
           in if n \<ge> 64 then (0, MaxHeight)
              else (drop_bit (unat n) (base * 2 div 5), F + 65 + n * Drop2 r))"

definition get_Emission :: "Rules \<Rightarrow> u64 \<Rightarrow> u64" where
  "get_Emission r h = fst (get_EmissionEx r h (Value0 r))"

partial_function (option) Emission_loop :: "Rules \<Rightarrow> u64 \<Rightarrow> u64 \<Rightarrow> u64 \<Rightarrow> nat \<Rightarrow> nat option" where
  "Emission_loop r m base hPos res =
     (let (nCurrent, hEnd) = get_EmissionEx r hPos base
      in if nCurrent = 0 then Some res
         else if m < hEnd then Some ((res + unat nCurrent * unat (m - hPos + 1)) mod 2 ^ 128)
         else Emission_loop r m base hEnd ((res + unat nCurrent * unat (hEnd - hPos)) mod 2 ^ 128))"

definition get_Emission_base :: "Rules \<Rightarrow> HeightRange \<Rightarrow> u64 \<Rightarrow> nat option" where
  "get_Emission_base r hr base = (if HR_IsEmpty hr then Some 0 else Emission_loop r (m_Max hr) base (m_Min hr) 0)"

definition get_Emission_range :: "Rules \<Rightarrow> HeightRange \<Rightarrow> nat option" where
  "get_Emission_range r hr = get_Emission_base r hr (Value0 r)"

definition IsForkHeightsConsistent :: "Rules \<Rightarrow> bool" where
  "IsForkHeightsConsistent r \<longleftrightarrow> hh_Height (pForks r ! 0) = 1 - 1 \<and>
     (\<forall>i \<in> {1..<length (pForks r)}. \<not> hh_Height (pForks r ! i) < hh_Height (pForks r ! (i - 1)))"

text \<open>The last fork with the given hash that is scheduled, and the last scheduled fork; the first one always is.\<close>

fun FindFork_loop :: "HeightHash list \<Rightarrow> bytes \<Rightarrow> nat \<Rightarrow> nat option" where
  "FindFork_loop fs hv 0 = None"
| "FindFork_loop fs hv (Suc i) = (if MaxHeight \<noteq> hh_Height (fs ! i) \<and> hh_Hash (fs ! i) = hv then Some i else FindFork_loop fs hv i)"

definition FindFork :: "Rules \<Rightarrow> bytes \<Rightarrow> nat option" where
  "FindFork r hv = FindFork_loop (pForks r) hv (length (pForks r))"

fun LastFork_loop :: "HeightHash list \<Rightarrow> nat \<Rightarrow> nat" where
  "LastFork_loop fs 0 = 0"
| "LastFork_loop fs (Suc i) = (if i = 0 then 0 else if MaxHeight \<noteq> hh_Height (fs ! i) then i else LastFork_loop fs i)"

definition get_LastFork :: "Rules \<Rightarrow> HeightHash" where
  "get_LastFork r = pForks r ! LastFork_loop (pForks r) (length (pForks r))"

subsection \<open>Ranges\<close>

lemma IsInRange_iff:
  assumes "\<not> HR_IsEmpty r"
  shows "IsInRange r h \<longleftrightarrow> m_Min r \<le> h \<and> h \<le> m_Max r"
proof -
  have le: "m_Min r \<le> m_Max r" using assms by (simp add: HR_IsEmpty_def)
  have d: "unat (m_Max r - m_Min r) = unat (m_Max r) - unat (m_Min r)" by (rule unat_sub [OF le])
  show ?thesis
  proof (cases "m_Min r \<le> h")
    case True
    have "unat (h - m_Min r) = unat h - unat (m_Min r)" by (rule unat_sub [OF True])
    then show ?thesis using True le d unfolding IsInRange_def IsInRangeRelative_def word_le_nat_alt by linarith
  next
    case False
    then have lt: "unat h < unat (m_Min r)" by (simp add: word_le_nat_alt)
    have "unat (h - m_Min r) = 2 ^ 64 + unat h - unat (m_Min r)"
      using lt by (simp add: unat_sub_if_size word_size)
    moreover have "unat (m_Max r) < 2 ^ 64" "unat (m_Min r) \<le> unat (m_Max r)" using unsigned_less [of "m_Max r", where 'a = nat] le by (simp_all add: word_le_nat_alt)
    ultimately show ?thesis using lt d unfolding IsInRange_def IsInRangeRelative_def word_le_nat_alt by linarith
  qed
qed

text \<open>On an empty range the test is wrong: the difference of the bounds wraps.\<close>

lemma IsInRange_empty: "HR_IsEmpty \<lparr>m_Min = 10, m_Max = 5\<rparr> \<and> IsInRange \<lparr>m_Min = 10, m_Max = 5\<rparr> 10"
  by code_simp

lemma Intersect_iff:
  assumes "\<not> HR_IsEmpty (Intersect r x)"
  shows "IsInRange (Intersect r x) h \<longleftrightarrow> IsInRange r h \<and> IsInRange x h"
proof -
  have "\<not> HR_IsEmpty r" "\<not> HR_IsEmpty x" using assms by (simp_all add: HR_IsEmpty_def Intersect_def not_less)
  then show ?thesis using IsInRange_iff [OF assms] by (simp add: IsInRange_iff Intersect_def) blast
qed

subsection \<open>The emission over a range\<close>

text \<open>The rules under which the loop over the emission makes sense: no overflow and no block without a reward.\<close>

definition rules_ok :: "Rules \<Rightarrow> u64 \<Rightarrow> bool" where
  "rules_ok r base \<longleftrightarrow> 1 \<le> unat (Fork1 r) \<and> 2 \<le> unat (Drop2 r) \<and> unat (Fork1 r) + 65 + 64 * unat (Drop2 r) < 2 ^ 64 \<and>
     Premine r \<noteq> 0 \<and> base div 5 \<noteq> 0 \<and> Frew r + Fundgen r + Fundinvest r \<noteq> 0"

text \<open>The segments of the emission, over natural numbers.\<close>

definition halvings :: "Rules \<Rightarrow> nat \<Rightarrow> nat" where
  "halvings r x = 1 + (x - (unat (Fork1 r) + 64)) div unat (Drop2 r)"

definition seg :: "Rules \<Rightarrow> u64 \<Rightarrow> nat \<Rightarrow> u64 \<times> nat" where
  "seg r base x =
     (let F = unat (Fork1 r)
      in if x = 1 then (Premine r, 2)
         else if x < F then (base, F)
         else if x < F + 63 then (base div 5, F + 63)
         else if x = F + 63 then (Frew r + Fundgen r + Fundinvest r, F + 64)
         else if 64 \<le> halvings r x then (0, 2 ^ 64 - 1)
         else (drop_bit (halvings r x) (base * 2 div 5), F + 65 + halvings r x * unat (Drop2 r)))"

lemma unat_add_small: "unat a + k < 2 ^ 64 \<Longrightarrow> k < 2 ^ 64 \<Longrightarrow> unat (a + of_nat k :: u64) = unat a + k"
  by (simp add: unat_word_ariths unsigned_of_nat take_bit_nat_eq_self)

lemma Ex_parts:
  assumes ok: "rules_ok r base" and h: "1 \<le> unat h"
  shows "unat (h - 1) = unat h - 1" "unat (Fork1 r - 1) = unat (Fork1 r) - 1" "unat (Fork1 r + 62) = unat (Fork1 r) + 62"
    "unat (Fork1 r + 63) = unat (Fork1 r) + 63" "unat (64 + Fork1 r) = unat (Fork1 r) + 64" "unat (Fork1 r + 65) = unat (Fork1 r) + 65"
    and "unat (Fork1 r) + 64 \<le> unat h \<Longrightarrow> unat (1 + (h - 1 - (Fork1 r + 63)) div Drop2 r) = halvings r (unat h)"
proof -
  have F: "1 \<le> unat (Fork1 r)" "unat (Fork1 r) + 65 < 2 ^ 64" "2 \<le> unat (Drop2 r)" using ok by (simp_all add: rules_ok_def)
  show a: "unat (h - 1) = unat h - 1" using h unat_sub [of 1 h] by (simp add: word_le_nat_alt)
  show "unat (Fork1 r - 1) = unat (Fork1 r) - 1" using F(1) unat_sub [of 1 "Fork1 r"] by (simp add: word_le_nat_alt)
  show "unat (Fork1 r + 62) = unat (Fork1 r) + 62" using unat_add_small [of "Fork1 r" 62] F(2) by simp
  show b: "unat (Fork1 r + 63) = unat (Fork1 r) + 63" using unat_add_small [of "Fork1 r" 63] F(2) by simp
  show "unat (64 + Fork1 r) = unat (Fork1 r) + 64" using unat_add_small [of "Fork1 r" 64] F(2) by (simp add: add.commute)
  show "unat (Fork1 r + 65) = unat (Fork1 r) + 65" using unat_add_small [of "Fork1 r" 65] F(2) by simp
  assume x: "unat (Fork1 r) + 64 \<le> unat h"
  have c: "unat (h - 1 - (Fork1 r + 63)) = unat h - (unat (Fork1 r) + 64)"
    using unat_sub [of "Fork1 r + 63" "h - 1"] x a b by (simp add: word_le_nat_alt)
  have d: "unat ((h - 1 - (Fork1 r + 63)) div Drop2 r) = (unat h - (unat (Fork1 r) + 64)) div unat (Drop2 r)"
    by (simp only: unat_div_distrib c)
  have "(unat h - (unat (Fork1 r) + 64)) div unat (Drop2 r) \<le> unat h - (unat (Fork1 r) + 64)" by (rule div_le_dividend)
  also have "\<dots> < 2 ^ 64 - 64" using x unsigned_less [of h, where 'a = nat] F(1) by simp
  finally have "1 + unat ((h - 1 - (Fork1 r + 63)) div Drop2 r) < 2 ^ 64" using d by simp
  then show "unat (1 + (h - 1 - (Fork1 r + 63)) div Drop2 r) = halvings r (unat h)" using d by (simp add: unat_word_ariths halvings_def)
qed

lemma EmissionEx_seg:
  assumes ok: "rules_ok r base" and h: "1 \<le> unat h"
  shows "fst (get_EmissionEx r h base) = fst (seg r base (unat h)) \<and> unat (snd (get_EmissionEx r h base)) = snd (seg r base (unat h))"
proof -
  define F where "F = unat (Fork1 r)"
  note P = Ex_parts [OF ok h, folded F_def]
  have ok': "1 \<le> F" "2 \<le> unat (Drop2 r)" "F + 65 + 64 * unat (Drop2 r) < 2 ^ 64" using ok by (simp_all add: rules_ok_def F_def)
  have z: "h - 1 = 0 \<longleftrightarrow> unat h = 1" using P(1) h by (simp only: word_unat_eq_iff unat_0) linarith
  have e: "h - 1 = Fork1 r + 62 \<longleftrightarrow> unat h = F + 63" using P(1,3) h by (simp add: word_unat_eq_iff) linarith
  have l: "h - 1 < Fork1 r - 1 \<longleftrightarrow> unat h < F" "h - 1 < Fork1 r + 62 \<longleftrightarrow> unat h < F + 63" using P(1,2,3) h ok'(1) unfolding word_less_nat_alt by linarith+
  consider "unat h = 1" | "unat h \<noteq> 1" "unat h < F" | "unat h \<noteq> 1" "F \<le> unat h" "unat h < F + 63" | "unat h \<noteq> 1" "unat h = F + 63" | "unat h \<noteq> 1" "F + 64 \<le> unat h" by linarith
  then show ?thesis
  proof cases
    case 5
    define n where "n = 1 + (h - 1 - (Fork1 r + 63)) div Drop2 r"
    have n: "unat n = halvings r (unat h)" unfolding n_def by (rule P(7) [OF 5(2)])
    have n64: "n \<ge> 64 \<longleftrightarrow> 64 \<le> halvings r (unat h)" using n by (simp add: word_le_nat_alt)
    have "unat (Fork1 r + 65 + n * Drop2 r) = F + 65 + halvings r (unat h) * unat (Drop2 r)" if "halvings r (unat h) < 64"
    proof -
      have "halvings r (unat h) * unat (Drop2 r) \<le> 64 * unat (Drop2 r)" using that by (intro mult_right_mono) simp_all
      then have s: "F + 65 + halvings r (unat h) * unat (Drop2 r) < 2 ^ 64" using ok'(3) by linarith
      then have "unat (n * Drop2 r) = halvings r (unat h) * unat (Drop2 r)" using n by (simp add: unat_word_ariths)
      then show ?thesis using s P(6) by (simp add: unat_word_ariths)
    qed
    moreover have "get_EmissionEx r h base = (if n \<ge> 64 then (0, MaxHeight) else (drop_bit (unat n) (base * 2 div 5), Fork1 r + 65 + n * Drop2 r))"
      using 5 z e l by (simp add: get_EmissionEx_def Let_def n_def)
    moreover have "seg r base (unat h) = (if 64 \<le> halvings r (unat h) then (0, 2 ^ 64 - 1)
         else (drop_bit (halvings r (unat h)) (base * 2 div 5), F + 65 + halvings r (unat h) * unat (Drop2 r)))"
      using 5 by (simp add: seg_def Let_def F_def)
    moreover have "unat MaxHeight = 2 ^ 64 - 1" by (simp add: MaxHeight_def unsigned_minus_1_eq_mask mask_eq_exp_minus_1)
    ultimately show ?thesis using n n64 by simp
  qed (use z e l P in \<open>simp_all add: get_EmissionEx_def seg_def Let_def F_def [symmetric] not_less\<close>)
qed

text \<open>
  What the loop credits to the block \<open>x\<close> of a range that begins at \<open>lo\<close>: its emission, except that the
  first block after a halving is still credited with the emission before it.
\<close>

definition halving_at :: "Rules \<Rightarrow> nat \<Rightarrow> bool" where
  "halving_at r x \<longleftrightarrow> unat (Fork1 r) + 64 < x \<and> unat (Drop2 r) dvd (x - (unat (Fork1 r) + 64))"

definition credited :: "Rules \<Rightarrow> u64 \<Rightarrow> nat \<Rightarrow> nat \<Rightarrow> u64" where
  "credited r base lo x = (if lo < x \<and> halving_at r x then drop_bit (halvings r x - 1) (base * 2 div 5) else fst (seg r base x))"

lemma drop_bit_big: "64 \<le> n \<Longrightarrow> drop_bit n (w :: u64) = 0"
  by (rule bit_eqI) (auto simp: bit_simps dest: bit_imp_le_length)

lemma drop_bit_more: "drop_bit n (w :: u64) = 0 \<Longrightarrow> n \<le> k \<Longrightarrow> drop_bit k w = 0"
proof -
  assume "drop_bit n w = 0" "n \<le> k"
  moreover have "drop_bit k w = drop_bit (k - n) (drop_bit n w)" using \<open>n \<le> k\<close> by (simp add: drop_bit_drop_bit)
  ultimately show ?thesis by simp
qed

lemma seg_tail: "unat (Fork1 r) + 64 \<le> x \<Longrightarrow> fst (seg r base x) = drop_bit (halvings r x) (base * 2 div 5)"
  by (auto simp: seg_def Let_def drop_bit_big)

lemma halvings_mono: "x \<le> y \<Longrightarrow> halvings r x \<le> halvings r y"
  by (auto simp: halvings_def intro!: div_le_mono)

text \<open>At a halving the exponent has just grown.\<close>

lemma halvings_at:
  assumes "rules_ok r base" and "halving_at r x" and "p < x" and "unat (Fork1 r) + 64 \<le> p"
  shows "halvings r p \<le> halvings r x - 1"
proof -
  define D where "D = unat (Drop2 r)"
  have D: "0 < D" using assms(1) by (simp add: rules_ok_def D_def)
  obtain k where k: "x - (unat (Fork1 r) + 64) = D * k" using assms(2) by (auto simp: halving_at_def D_def elim: dvdE)
  have "p - (unat (Fork1 r) + 64) < k * D" using k assms(3,4) by (simp add: mult.commute)
  then have "(p - (unat (Fork1 r) + 64)) div D < k" using D by (simp add: div_less_iff_less_mult)
  moreover have "halvings r x = 1 + k" using k D by (simp add: halvings_def D_def [symmetric])
  ultimately show ?thesis by (simp add: halvings_def D_def [symmetric])
qed

lemma seg_zero:
  assumes ok: "rules_ok r base" and z: "fst (seg r base p) = 0" and p: "1 \<le> p" "p = lo \<or> \<not> halving_at r p" "lo \<le> p" and x: "p \<le> x"
  shows "credited r base lo x = 0"
proof -
  have b: "base \<noteq> 0" using ok by (auto simp: rules_ok_def)
  have pF: "unat (Fork1 r) + 64 \<le> p"
  proof (rule ccontr)
    assume "\<not> ?thesis"
    then show False using z ok b p(1) by (auto simp: seg_def Let_def rules_ok_def split: if_splits)
  qed
  have z': "drop_bit (halvings r p) (base * 2 div 5) = 0" using z seg_tail [OF pF] by simp
  show ?thesis
  proof (cases "lo < x \<and> halving_at r x")
    case True
    then have "p < x" using p(2) x by (cases "x = p") auto
    then show ?thesis using True drop_bit_more [OF z' halvings_at [OF ok _ _ pF]] by (simp add: credited_def)
  next
    case False
    then show ?thesis using drop_bit_more [OF z' halvings_mono [OF x]] seg_tail [of r x base] pF x by (auto simp: credited_def)
  qed
qed

text \<open>All blocks of a segment are credited with the same amount, and the next segment does not begin at a halving.\<close>

lemma seg_last:
  assumes ok: "rules_ok r base" and p: "unat (Fork1 r) + 64 \<le> p" "halvings r p < 64" "p = lo \<or> \<not> halving_at r p" "lo \<le> p" and x: "p \<le> x" "x < snd (seg r base p)"
  shows "credited r base lo x = fst (seg r base p)"
proof -
  define D F where "D = unat (Drop2 r)" and "F = unat (Fork1 r)"
  have D: "2 \<le> D" using ok by (simp add: rules_ok_def D_def)
  define n where "n = halvings r p"
  have e: "snd (seg r base p) = F + 65 + n * D" using p(1,2) by (simp add: seg_def Let_def n_def D_def F_def)
  have q: "(n - 1) * D \<le> p - (F + 64)" "p - (F + 64) < n * D"
    using D by (simp_all add: n_def halvings_def D_def [symmetric] F_def [symmetric] div_times_less_eq_dividend)
      (simp add: dividend_less_div_times)
  show ?thesis
  proof (cases "x = F + 64 + n * D")
    case True
    then have "halvings r x = n + 1" using D by (simp add: halvings_def D_def [symmetric] F_def [symmetric])
    moreover have "halving_at r x" using True D by (simp add: halving_at_def D_def [symmetric] F_def [symmetric] n_def halvings_def)
    moreover have "lo < x" using True p(1,4) q(2) unfolding F_def by linarith
    ultimately show ?thesis using seg_tail [OF p(1), of base] by (simp add: credited_def n_def)
  next
    case False
    then have y: "x - (F + 64) < n * D" "(n - 1) * D \<le> x - (F + 64)" using e x q by linarith+
    have "(x - (F + 64)) div D = n - 1"
    proof (rule div_nat_eqI)
      show "D * (n - 1) \<le> x - (F + 64)" using y(2) by (simp add: mult.commute)
      have "n = Suc (n - 1)" by (simp add: n_def halvings_def)
      then show "x - (F + 64) < D * Suc (n - 1)" using y(1) by (simp add: mult.commute)
    qed
    then have hx: "halvings r x = n" by (simp add: halvings_def n_def D_def F_def)
    have "\<not> (lo < x \<and> halving_at r x)"
    proof
      assume A: "lo < x \<and> halving_at r x"
      then have "p < x" using p(3) x(1) by (cases "x = p") auto
      then have "halvings r p \<le> halvings r x - 1" using halvings_at [OF ok _ _ p(1)] A by blast
      then show False using hx by (simp add: n_def halvings_def)
    qed
    then have "credited r base lo x = fst (seg r base x)" by (auto simp: credited_def)
    also have "\<dots> = fst (seg r base p)" using seg_tail [of r x base] seg_tail [OF p(1), of base] hx p(1) x(1) by (simp add: n_def)
    finally show ?thesis .
  qed
qed

lemma seg_block:
  assumes ok: "rules_ok r base" and nz: "fst (seg r base p) \<noteq> 0" and p: "1 \<le> p" "p = lo \<or> \<not> halving_at r p" "lo \<le> p"
  shows "p < snd (seg r base p)" "\<not> halving_at r (snd (seg r base p))" "p \<le> x \<Longrightarrow> x < snd (seg r base p) \<Longrightarrow> credited r base lo x = fst (seg r base p)"
proof -
  define D F where "D = unat (Drop2 r)" and "F = unat (Fork1 r)"
  have D: "2 \<le> D" "1 \<le> F" using ok by (simp_all add: rules_ok_def D_def F_def)
  have early: "\<not> halving_at r x" if "x \<le> F + 64" for x using that by (simp add: halving_at_def F_def)
  have "p < snd (seg r base p) \<and> \<not> halving_at r (snd (seg r base p)) \<and> (\<forall>x. p \<le> x \<longrightarrow> x < snd (seg r base p) \<longrightarrow> credited r base lo x = fst (seg r base p))"
  proof (cases "F + 64 \<le> p")
    case True
    have n: "halvings r p < 64" using nz seg_tail [of r p base] True drop_bit_big [of "halvings r p"] by (cases "halvings r p < 64") (simp_all add: F_def)
    have e: "snd (seg r base p) = F + 65 + halvings r p * D" using True n by (simp add: seg_def Let_def D_def F_def)
    have "p - (F + 64) < halvings r p * D" using D by (simp add: halvings_def D_def [symmetric] F_def [symmetric] dividend_less_div_times)
    moreover have "\<not> D dvd (halvings r p * D + 1)" using D(1) by (metis dvd_add_right_iff dvd_triv_right nat_dvd_1_iff_1 numeral_le_one_iff semiring_norm(69))
    ultimately show ?thesis using seg_last [OF ok _ n p(2,3), of _ ] True e by (auto simp: halving_at_def D_def F_def)
  next
    case False
    have c: "credited r base lo x = fst (seg r base x)" if "x \<le> F + 64" for x using early [OF that] by (simp add: credited_def)
    consider "p = 1" | "p \<noteq> 1" "p < F" | "p \<noteq> 1" "F \<le> p" "p < F + 63" | "p \<noteq> 1" "p = F + 63" using False by linarith
    then show ?thesis
    proof cases
      case 1
      then have "snd (seg r base p) = 2" by (simp add: seg_def Let_def)
      then show ?thesis using 1 c early D by (auto dest!: less_2_cases)
    next
      case 2
      then have "snd (seg r base p) = F" by (simp add: seg_def Let_def F_def)
      then show ?thesis using 2 p(1) c early by (auto simp: seg_def Let_def F_def)
    next
      case 3
      then have "snd (seg r base p) = F + 63" by (simp add: seg_def Let_def F_def)
      then show ?thesis using 3 p(1) c early by (auto simp: seg_def Let_def F_def)
    next
      case 4
      then have "snd (seg r base p) = F + 64" by (simp add: seg_def Let_def F_def)
      then show ?thesis using 4 c early by (auto simp: seg_def Let_def F_def)
    qed
  qed
  then show "p < snd (seg r base p)" "\<not> halving_at r (snd (seg r base p))" "p \<le> x \<Longrightarrow> x < snd (seg r base p) \<Longrightarrow> credited r base lo x = fst (seg r base p)" by blast+
qed

lemma Emission_loop_spec:
  assumes ok: "rules_ok r base" and "1 \<le> unat h" and "unat h \<le> unat m" and "lo \<le> unat h" and "unat h = lo \<or> \<not> halving_at r (unat h)" and "res < 2 ^ 128"
  shows "Emission_loop r m base h res = Some ((res + (\<Sum>x = unat h..unat m. unat (credited r base lo x))) mod 2 ^ 128)"
  using assms(2-)
proof (induction "unat m - unat h" arbitrary: h res rule: less_induct)
  case less
  let ?S = "seg r base (unat h)" and ?c = "\<lambda>x. unat (credited r base lo x)"
  obtain v hEnd where E: "get_EmissionEx r h base = (v, hEnd)" by (cases "get_EmissionEx r h base")
  have vE: "v = fst ?S" "unat hEnd = snd ?S" using EmissionEx_seg [OF ok less.prems(1)] E by simp_all
  note L = Emission_loop.simps [of r m base h res, unfolded E Let_def prod.case]
  show ?case
  proof (cases "v = 0")
    case True
    then have "?c x = 0" if "x \<in> {unat h..unat m}" for x
      using seg_zero [OF ok _ less.prems(1,4,3)] vE(1) that by simp
    then have s0: "(\<Sum>x = unat h..unat m. ?c x) = 0" by (simp only: sum.neutral_const sum.cong [OF refl])
    show ?thesis unfolding L s0 using True less.prems(5) by simp
  next
    case False
    have nz: "fst ?S \<noteq> 0" using False vE(1) by simp
    note B = seg_block [OF ok nz less.prems(1,4,3)]
    show ?thesis
    proof (cases "m < hEnd")
      case True
      have "?c x = unat v" if "x \<in> {unat h..unat m}" for x using B(3) [of x] that True vE by (simp add: word_less_nat_alt)
      then have s: "(\<Sum>x = unat h..unat m. ?c x) = unat v * (unat m - unat h + 1)" using less.prems(2) by (simp add: Suc_diff_le)
      have "unat (m - h) = unat m - unat h" using less.prems(2) by (intro unat_sub) (simp add: word_le_nat_alt)
      moreover have "unat m - unat h + 1 < 2 ^ 64" using less.prems(1,2) unsigned_less [of m, where 'a = nat] by simp
      ultimately have "unat (m - h + 1) = unat m - unat h + 1" by (simp add: unat_word_ariths)
      then show ?thesis unfolding L s using True False by simp
    next
      case cont: False
      have he: "unat h < unat hEnd" "unat hEnd \<le> unat m" using B(1) vE cont by (simp_all add: word_less_nat_alt)
      have d: "unat (hEnd - h) = unat hEnd - unat h" using he by (intro unat_sub) (simp add: word_le_nat_alt)
      let ?res = "(res + unat v * unat (hEnd - h)) mod 2 ^ 128"
      have "?c x = unat v" if "x \<in> {unat h..<unat hEnd}" for x using B(3) [of x] that vE by simp
      then have s: "(\<Sum>x = unat h..<unat hEnd. ?c x) = unat v * (unat hEnd - unat h)" by simp
      have split: "(\<Sum>x = unat h..unat m. ?c x) = (\<Sum>x = unat h..<unat hEnd. ?c x) + (\<Sum>x = unat hEnd..unat m. ?c x)"
      proof -
        have "{unat h..unat m} = {unat h..<unat hEnd} \<union> {unat hEnd..unat m}" using he by auto
        then show ?thesis by (simp add: sum.union_disjoint ivl_disj_int)
      qed
      have "Emission_loop r m base hEnd ?res = Some ((?res + (\<Sum>x = unat hEnd..unat m. ?c x)) mod 2 ^ 128)"
        using less.hyps [of hEnd ?res] he less.prems(1,3) B(2) vE(2) by simp
      then show ?thesis unfolding L split s using False cont d by (simp add: mod_add_left_eq add.assoc)
    qed
  qed
qed

text \<open>
  C20: the emission of a range of blocks.  The loop always ends; the total it returns credits every block of
  the range with its emission, except that the first block after each halving inside the range is credited
  with the emission before the halving.  For ranges without such a block the total is exactly the sum of the
  emissions of the single blocks.
\<close>

theorem Emission_total:
  assumes "rules_ok r (Value0 r)" and "1 \<le> unat (m_Min hr)" and "\<not> HR_IsEmpty hr"
  shows "get_Emission_range r hr = Some ((\<Sum>x = unat (m_Min hr)..unat (m_Max hr). unat (credited r (Value0 r) (unat (m_Min hr)) x)) mod 2 ^ 128) \<and>
    ((\<forall>x \<in> {unat (m_Min hr)<..unat (m_Max hr)}. \<not> halving_at r x) \<longrightarrow>
      get_Emission_range r hr = Some ((\<Sum>x = unat (m_Min hr)..unat (m_Max hr). unat (get_Emission r (of_nat x))) mod 2 ^ 128))"
proof -
  let ?lo = "unat (m_Min hr)" and ?hi = "unat (m_Max hr)"
  have le: "?lo \<le> ?hi" using assms(3) by (simp add: HR_IsEmpty_def word_le_nat_alt not_less)
  have 1: "get_Emission_range r hr = Some ((\<Sum>x = ?lo..?hi. unat (credited r (Value0 r) ?lo x)) mod 2 ^ 128)"
    using Emission_loop_spec [OF assms(1,2) le order_refl, of 0] assms(3) by (simp add: get_Emission_range_def get_Emission_base_def)
  have "credited r (Value0 r) ?lo x = get_Emission r (of_nat x)" if x: "x \<in> {?lo..?hi}" and n: "\<forall>x \<in> {?lo<..?hi}. \<not> halving_at r x" for x
  proof -
    have "x < 2 ^ 64" using x unsigned_less [of "m_Max hr", where 'a = nat] by simp
    then have u: "unat (of_nat x :: u64) = x" by (simp add: unsigned_of_nat take_bit_nat_eq_self)
    have "credited r (Value0 r) ?lo x = fst (seg r (Value0 r) x)" using x n by (auto simp: credited_def)
    then show ?thesis using EmissionEx_seg [OF assms(1), of "of_nat x"] assms(2) x u by (simp add: get_Emission_def)
  qed
  then show ?thesis using 1 by simp
qed

lemma default_rules_ok: "rules_ok default_rules (Value0 default_rules)"
  by (simp add: rules_ok_def default_rules_def Fork1_def Coin_def)

lemma default_rules_vals:
  "unat (Fork1 default_rules) = 444400" "unat (Drop2 default_rules) = 4204800" "Value0 default_rules = 10000000000"
  by (simp_all add: default_rules_def Fork1_def Coin_def)

definition range_ex :: HeightRange where
  "range_ex = \<lparr>m_Min = 444460, m_Max = 444470\<rparr>"

theorem Emission_total_witness:
  "get_Emission_range default_rules range_ex = Some ((\<Sum>x = 444460..444470. unat (get_Emission default_rules (of_nat x))) mod 2 ^ 128)"
proof -
  note ok = default_rules_ok and F = default_rules_vals
  have n: "\<not> halving_at default_rules x" if "x \<le> 444470" for x
    using that by (auto simp: halving_at_def F dest: dvd_imp_le)
  have A: "1 \<le> unat (m_Min range_ex)" "\<not> HR_IsEmpty range_ex" by (simp_all add: range_ex_def HR_IsEmpty_def)
  note B = conjunct2 [OF Emission_total [OF ok A]]
  show ?thesis using B n by (simp add: range_ex_def)
qed

text \<open>The first block after the first halving: what the loop credits and what the block earns.\<close>

lemma Emission_overpaid:
  "halving_at default_rules 4649264 \<and> unat (credited default_rules (Value0 default_rules) 4649263 4649264) = 2000000000 \<and>
   unat (get_Emission default_rules 4649264) = 1000000000"
proof -
  note F = default_rules_vals
  have h: "halving_at default_rules 4649264" by (simp add: halving_at_def F)
  have k: "halvings default_rules 4649264 = 2" by (simp add: halvings_def F)
  have "get_Emission default_rules 4649264 = drop_bit 2 (Value0 default_rules * 2 div 5)"
    using EmissionEx_seg [OF default_rules_ok, of 4649264] seg_tail [of default_rules 4649264 "Value0 default_rules"] by (simp add: get_Emission_def F k)
  then show ?thesis using h by (simp add: credited_def k F drop_bit_eq_div)
qed

end
