(* ===== verification/Spec2Isabelle.thy ===== *)
theory Spec2Isabelle
  imports Grimm_Prelude UintBig Hex Difficulty Merkle MultiProof RadixTree UtxoTree BlockElements Mapped_File UtxoImage PeerManager ConsensusRules
begin

text \<open>
  Verification of the core of the Grimm node: fixed-size integers, difficulty.
\<close>

end
